(* ===== verification/Prelude.thy ===== *)
theory Prelude
  imports Main "HOL-Library.Word"
begin

text \<open>
  Shared vocabulary of the development.

  \<^item> Machine types of the i386 target: \<open>byte\<close> (\<open>uchar\<close>), \<open>u16\<close>, \<open>u32\<close>, \<open>u64\<close>.
  \<^item> \<open>'a outcome\<close>: the result of a C fragment. \<open>Inr x\<close> is a normal return of \<open>x\<close>;
    \<open>Inl Epanic\<close> is a call of \<open>panic\<close>; \<open>Inl Efault\<close> is an access outside the object a
    pointer points into (undefined behaviour in C). Error returns of the kernel (\<open>ONERR\<close>, \<open>nil\<close>,
    \<open>0\<close>) are ordinary values and are modelled by each component.
  \<^item> \<open>andthen\<close>: sequential composition of such fragments; \<open>seqo\<close>: a straight-line list
    of statements over a state.
  \<^item> \<open>blit\<close>: \<open>memmove\<close> of bytes into a buffer, with the bounds written out.
  \<^item> \<open>strlen\<close>, \<open>cstr\<close>: NUL-terminated strings.
\<close>

unbundle bit_operations_syntax

type_synonym byte = "8 word"
type_synonym u16 = "16 word"
type_synonym u32 = "32 word"
type_synonym u64 = "64 word"

named_theorems outcome_simps \<open>evaluation of outcomes\<close>
named_theorems wf_simps \<open>well-formedness predicates of the components\<close>

datatype err = Epanic | Efault | Eexit

type_synonym 'a outcome = "err + 'a"

definition andthen :: "'a outcome \<Rightarrow> ('a \<Rightarrow> 'b outcome) \<Rightarrow> 'b outcome" where
  "andthen m k = (case m of Inl e \<Rightarrow> Inl e | Inr x \<Rightarrow> k x)"

fun seqo :: "('s \<Rightarrow> 's outcome) list \<Rightarrow> 's \<Rightarrow> 's outcome" where
  "seqo [] s = Inr s"
| "seqo (c # cs) s = andthen (c s) (seqo cs)"

definition faultfree :: "'a outcome \<Rightarrow> bool" where
  "faultfree m \<longleftrightarrow> (\<exists>x. m = Inr x)"

lemma andthen_Inr [simp, outcome_simps]: "andthen (Inr x) k = k x"
  by (simp add: andthen_def)

lemma andthen_Inl [simp, outcome_simps]: "andthen (Inl e) k = Inl e"
  by (simp add: andthen_def)

lemma andthen_eq_Inr:
  "andthen m k = Inr y \<longleftrightarrow> (\<exists>x. m = Inr x \<and> k x = Inr y)"
  by (cases m) auto

lemma andthen_cong [fundef_cong]:
  "m = m' \<Longrightarrow> (\<And>x. m' = Inr x \<Longrightarrow> f x = g x) \<Longrightarrow> andthen m f = andthen m' g"
  by (cases m') auto

lemma andthen_assoc: "andthen (andthen m f) g = andthen m (\<lambda>x. andthen (f x) g)"
  by (cases m) auto

lemma seqo_append: "seqo (xs @ ys) s = andthen (seqo xs s) (seqo ys)"
  by (induction xs arbitrary: s) (auto simp: andthen_def split: sum.splits)

lemma faultfree_Inr [simp, intro]: "faultfree (Inr x)"
  by (simp add: faultfree_def)

lemma faultfree_Inl [simp]: "\<not> faultfree (Inl e)"
  by (simp add: faultfree_def)

lemma faultfree_andthen:
  "faultfree m \<Longrightarrow> (\<And>x. m = Inr x \<Longrightarrow> faultfree (k x)) \<Longrightarrow> faultfree (andthen m k)"
  by (auto simp: faultfree_def)

text \<open>\<open>post E P m\<close>: \<open>m\<close> returns a value that satisfies \<open>P\<close>, or stops with one of the errors in
  \<open>E\<close>.\<close>

definition post :: "err set \<Rightarrow> ('a \<Rightarrow> bool) \<Rightarrow> 'a outcome \<Rightarrow> bool" where
  "post E P m \<longleftrightarrow> (case m of Inl e \<Rightarrow> e \<in> E | Inr x \<Rightarrow> P x)"

lemma post_Inr [simp]: "post E P (Inr x) \<longleftrightarrow> P x"
  by (simp add: post_def)

lemma post_Inl [simp]: "post E P (Inl e) \<longleftrightarrow> e \<in> E"
  by (simp add: post_def)

lemma post_andthen: "post E Q m \<Longrightarrow> (\<And>x. Q x \<Longrightarrow> post E P (f x)) \<Longrightarrow> post E P (andthen m f)"
  by (cases m) auto

lemma post_weaken: "post E Q m \<Longrightarrow> (\<And>x. Q x \<Longrightarrow> P x) \<Longrightarrow> E \<subseteq> F \<Longrightarrow> post F P m"
  by (auto simp: post_def split: sum.splits)

lemma post_value: "post {} P m \<Longrightarrow> \<exists>x. m = Inr x \<and> P x"
  by (cases m) (auto simp: post_def)


subsection \<open>Statements with early return\<close>

text \<open>
  A statement of a C function either goes on with the next one or stops the function with its
  \<open>return\<close>; \<open>run\<close> is a block of statements, \<open>loop\<close> a counted \<open>for\<close> loop.
\<close>

datatype 's flow = Stop 's | Go 's

type_synonym 's stmt = "'s \<Rightarrow> 's flow outcome"

fun run :: "'s stmt list \<Rightarrow> 's stmt" where
  "run [] s = Inr (Go s)"
| "run (c # cs) s =
     andthen (c s) (\<lambda>r. case r of Stop s' \<Rightarrow> Inr (Stop s') | Go s' \<Rightarrow> run cs s')"

fun flow_state :: "'s flow \<Rightarrow> 's" where
  "flow_state (Stop s) = s"
| "flow_state (Go s) = s"

definition loop :: "nat \<Rightarrow> (nat \<Rightarrow> 's stmt) \<Rightarrow> 's stmt" where
  "loop n body = run (map body [0..<n])"

lemma run_append:
  "run (xs @ ys) s =
     andthen (run xs s) (\<lambda>r. case r of Stop s' \<Rightarrow> Inr (Stop s') | Go s' \<Rightarrow> run ys s')"
  by (induction xs arbitrary: s) (auto simp: andthen_def split: sum.splits flow.splits)

lemma run_single: "run [c] = c"
  by (rule ext) (auto simp: andthen_def split: sum.splits flow.splits)

text \<open>An invariant of every statement is an invariant of the block.\<close>

lemma run_invariant:
  assumes "\<And>c s. c \<in> set cs \<Longrightarrow> I s \<Longrightarrow>
      (\<exists>s'. (c s = Inr (Go s') \<or> c s = Inr (Stop s')) \<and> I s')"
    and "I s"
  shows "\<exists>s'. (run cs s = Inr (Go s') \<or> run cs s = Inr (Stop s')) \<and> I s'"
  using assms
proof (induction cs arbitrary: s)
  case Nil
  then show ?case by auto
next
  case (Cons c cs)
  from Cons.prems obtain s1 where
    c: "c s = Inr (Go s1) \<or> c s = Inr (Stop s1)" and s1: "I s1"
    by (meson list.set_intros(1))
  from c show ?case
  proof
    assume "c s = Inr (Go s1)"
    moreover have "\<exists>s'. (run cs s1 = Inr (Go s') \<or> run cs s1 = Inr (Stop s')) \<and> I s'"
      by (rule Cons.IH) (use Cons.prems s1 in auto)
    ultimately show ?thesis by simp
  next
    assume "c s = Inr (Stop s1)"
    with s1 show ?thesis by simp
  qed
qed


subsection \<open>Buffers\<close>

text \<open>\<open>blit bs off buf\<close>: \<open>memmove(buf+off, bs, n)\<close> of the \<open>n\<close> bytes \<open>bs\<close>.\<close>

definition blit :: "'a list \<Rightarrow> nat \<Rightarrow> 'a list \<Rightarrow> 'a list outcome" where
  "blit bs off buf =
     (if off + length bs \<le> length buf
      then Inr (take off buf @ bs @ drop (off + length bs) buf) else Inl Efault)"

text \<open>\<open>bslice off n buf\<close>: reading \<open>n\<close> bytes at \<open>buf+off\<close>.\<close>

definition bslice :: "nat \<Rightarrow> nat \<Rightarrow> 'a list \<Rightarrow> 'a list" where
  "bslice off n buf = take n (drop off buf)"

definition rdbytes :: "nat \<Rightarrow> nat \<Rightarrow> 'a list \<Rightarrow> 'a list outcome" where
  "rdbytes off n buf = (if off + n \<le> length buf then Inr (bslice off n buf) else Inl Efault)"

lemma blit_Inr:
  "off + length bs \<le> length buf \<Longrightarrow>
   blit bs off buf = Inr (take off buf @ bs @ drop (off + length bs) buf)"
  by (simp add: blit_def)

lemma length_blit: "blit bs off buf = Inr buf' \<Longrightarrow> length buf' = length buf"
  by (auto simp: blit_def split: if_splits)

lemma rdbytes_Inr: "off + n \<le> length buf \<Longrightarrow> rdbytes off n buf = Inr (bslice off n buf)"
  by (simp add: rdbytes_def)

lemma length_bslice [simp]: "off + n \<le> length buf \<Longrightarrow> length (bslice off n buf) = n"
  by (simp add: bslice_def)

lemma bslice_0 [simp]: "bslice off 0 buf = []"
  by (simp add: bslice_def)

lemma bslice_append_middle:
  "length xs = off \<Longrightarrow> length bs = n \<Longrightarrow> bslice off n (xs @ bs @ ys) = bs"
  by (simp add: bslice_def)

lemma bslice_blit_same:
  "blit bs off buf = Inr buf' \<Longrightarrow> bslice off (length bs) buf' = bs"
  by (auto simp: blit_def bslice_def split: if_splits)


subsection \<open>C strings\<close>

text \<open>
  A \<open>char*\<close> is modelled by the bytes from the pointer up to, and not including, a NUL that
  ends them: \<open>strlen\<close> stops at the first NUL inside or at the end.
\<close>

definition cstr :: "byte list \<Rightarrow> byte list" where
  "cstr s = takeWhile (\<lambda>c. c \<noteq> 0) s"

definition strlen :: "byte list \<Rightarrow> nat" where
  "strlen s = length (cstr s)"

lemma cstr_nonul [simp]: "0 \<notin> set (cstr s)"
  by (induction s) (auto simp: cstr_def)

lemma cstr_id: "0 \<notin> set s \<Longrightarrow> cstr s = s"
  by (induction s) (auto simp: cstr_def)

lemma cstr_terminated [simp]: "0 \<notin> set s \<Longrightarrow> cstr (s @ 0 # t) = s"
  by (induction s) (auto simp: cstr_def)

lemma take_strlen: "take (strlen s) s = cstr s"
  unfolding strlen_def cstr_def by (rule takeWhile_eq_take [symmetric])

lemma strlen_id: "0 \<notin> set s \<Longrightarrow> strlen s = length s"
  by (simp add: strlen_def cstr_id)

lemma strlen_le: "strlen s \<le> length s"
  by (simp add: strlen_def cstr_def length_takeWhile_le)

subsection \<open>Bounds of machine words\<close>

lemma unat_len [simp]:
  "n < 65536 \<Longrightarrow> unat (word_of_nat n :: u16) = n"
  "n < 4294967296 \<Longrightarrow> unat (word_of_nat n :: u32) = n"
  by (simp_all add: unat_of_nat take_bit_nat_eq_self)

lemma unat_u32_less: "unat (v :: u32) < 2 ^ 32"
  using unsigned_less [of v] by simp

lemma unat_u16_less: "unat (v :: u16) < 2 ^ 16"
  using unsigned_less [of v] by simp


subsection \<open>Runs of a step relation\<close>

text \<open>\<open>runs step s as s'\<close>: steps with the labels \<open>as\<close> lead from \<open>s\<close> to \<open>s'\<close>.\<close>

inductive runs :: "('s \<Rightarrow> 'l \<Rightarrow> 's \<Rightarrow> bool) \<Rightarrow> 's \<Rightarrow> 'l list \<Rightarrow> 's \<Rightarrow> bool" for step where
  runs_nil: "runs step s [] s"
| runs_cons: "step s a s1 \<Longrightarrow> runs step s1 as s' \<Longrightarrow> runs step s (a # as) s'"

inductive_cases runs_nilE: "runs step s [] s'"
inductive_cases runs_consE: "runs step s (a # as) s'"

lemma runs_append: "runs step s as s1 \<Longrightarrow> runs step s1 bs s' \<Longrightarrow> runs step s (as @ bs) s'"
  by (induction rule: runs.induct) (auto intro: runs.intros)

lemma runs_split: "runs step s (as @ bs) s' \<Longrightarrow> \<exists>s1. runs step s as s1 \<and> runs step s1 bs s'"
  by (induction as arbitrary: s) (auto intro: runs.intros elim!: runs_consE, blast intro: runs.intros)

lemma runs_one: "step s a s' \<Longrightarrow> runs step s [a] s'"
  by (auto intro: runs.intros)

lemma runs_invariant:
  assumes "\<And>s a s'. I s \<Longrightarrow> step s a s' \<Longrightarrow> I s'"
  shows "runs step s as s' \<Longrightarrow> I s \<Longrightarrow> I s'"
  by (induction rule: runs.induct) (auto intro: assms)

text \<open>A simulation relation carries over to runs.\<close>

lemma runs_simulation:
  assumes "\<And>s a s' x. R s x \<Longrightarrow> step s a s' \<Longrightarrow> \<exists>x'. spec x a x' \<and> R s' x'"
  shows "runs step s as s' \<Longrightarrow> R s x \<Longrightarrow> \<exists>x'. runs spec x as x' \<and> R s' x'"
proof (induction arbitrary: x rule: runs.induct)
  case (runs_cons s a s1 as s')
  then obtain x1 where "spec x a x1" "R s1 x1"
    using assms by blast
  with runs_cons.IH show ?case
    by (blast intro: runs.intros)
qed (auto intro: runs.intros)

text \<open>Waiting \<open>W\<close> only ends with a step that signals \<open>R\<close>.\<close>

lemma runs_until:
  assumes step: "\<And>s a s'. step s a s' \<Longrightarrow> W s \<Longrightarrow> W s' \<or> R s s'"
  shows "runs step s as s' \<Longrightarrow> W s \<Longrightarrow> \<not> W s' \<Longrightarrow>
    \<exists>as1 a as2 s1 s2. as = as1 @ a # as2 \<and> runs step s as1 s1 \<and> W s1 \<and> step s1 a s2 \<and> R s1 s2 \<and> runs step s2 as2 s'"
proof (induction rule: runs.induct)
  case (runs_cons s a s1 as s')
  show ?case
  proof (cases "W s1")
    case True
    with runs_cons obtain as1 b as2 t1 t2 where "as = as1 @ b # as2" "runs step s1 as1 t1" "W t1" "step t1 b t2" "R t1 t2"
      "runs step t2 as2 s'"
      by blast
    with runs_cons.hyps(1) have "a # as = (a # as1) @ b # as2" "runs step s (a # as1) t1"
      by (auto intro: runs.intros)
    then show ?thesis
      using \<open>W t1\<close> \<open>step t1 b t2\<close> \<open>R t1 t2\<close> \<open>runs step t2 as2 s'\<close> by blast
  next
    case False
    then have "R s s1"
      using step runs_cons by blast
    then have "a # as = [] @ a # as \<and> runs step s [] s \<and> W s \<and> step s a s1 \<and> R s s1 \<and> runs step s1 as s'"
      using runs_cons by (auto intro: runs.intros)
    then show ?thesis by blast
  qed
qed simp

end
