(* ===== verification/Fcall.thy ===== *)
theory Fcall
  imports Prelude
begin

text \<open>
  The 9P2000 message formats (\<open>include/fcall.h\<close>): the byte-order macros, the \<open>Fcall\<close> and
  \<open>Qid\<close> structures, the message numbers, and an abstract syntax \<open>msg\<close> of the
  messages with its wire format \<open>frame\<close>, which the encoder and the decoder are proved against.

  \<open>'p Fcall\<close> has one type variable for its pointers to bytes: the encoder reads them as the
  bytes they point to, the decoder leaves addresses into the message buffer. The members of the
  C union are separate fields; every message type uses the fields of one member only.
\<close>

subsection \<open>Byte order\<close>

definition pbit8 :: "byte \<Rightarrow> byte list" where
  "pbit8 v = [v]"

definition pbit16 :: "u16 \<Rightarrow> byte list" where
  "pbit16 v = [ucast v, ucast (drop_bit 8 v)]"

definition pbit32 :: "u32 \<Rightarrow> byte list" where
  "pbit32 v = [ucast v, ucast (drop_bit 8 v), ucast (drop_bit 16 v), ucast (drop_bit 24 v)]"

definition pbit64 :: "u64 \<Rightarrow> byte list" where
  "pbit64 v = [ucast v, ucast (drop_bit 8 v), ucast (drop_bit 16 v), ucast (drop_bit 24 v),
     ucast (drop_bit 32 v), ucast (drop_bit 40 v), ucast (drop_bit 48 v), ucast (drop_bit 56 v)]"

definition gbit8 :: "byte list \<Rightarrow> byte" where
  "gbit8 p = p ! 0"

definition gbit16 :: "byte list \<Rightarrow> u16" where
  "gbit16 p = ucast (p ! 0) OR push_bit 8 (ucast (p ! 1))"

definition gbit32 :: "byte list \<Rightarrow> u32" where
  "gbit32 p = ucast (p ! 0) OR push_bit 8 (ucast (p ! 1)) OR push_bit 16 (ucast (p ! 2))
     OR push_bit 24 (ucast (p ! 3))"

definition gbit64 :: "byte list \<Rightarrow> u64" where
  "gbit64 p = ucast (gbit32 (take 4 p)) OR push_bit 32 (ucast (gbit32 (drop 4 p)))"

lemma length_pbit [simp]:
  "length (pbit8 a) = 1" "length (pbit16 b) = 2" "length (pbit32 c) = 4" "length (pbit64 d) = 8"
  by (simp_all add: pbit8_def pbit16_def pbit32_def pbit64_def)

lemma gbit8_pbit8 [simp]: "gbit8 (pbit8 v) = v"
  by (simp add: gbit8_def pbit8_def)

lemma gbit16_pbit16 [simp]: "gbit16 (pbit16 v) = v"
  unfolding gbit16_def pbit16_def by (rule bit_word_eqI) (auto simp: bit_simps)

lemma bit_split32:
  "ucast (ucast v :: byte) OR push_bit 8 (ucast (ucast (drop_bit 8 v) :: byte))
     OR push_bit 16 (ucast (ucast (drop_bit 16 v) :: byte))
     OR push_bit 24 (ucast (ucast (drop_bit 24 v) :: byte)) = (v :: u32)" (is "?l = v")
proof (rule bit_word_eqI)
  fix n assume "n < LENGTH(32)"
  then consider "n < 8" | "8 \<le> n" "n < 16" | "16 \<le> n" "n < 24" | "24 \<le> n" "n < 32"
    by fastforce
  then show "bit ?l n = bit v n"
    by cases (auto simp: bit_simps)
qed

lemma gbit32_pbit32 [simp]: "gbit32 (pbit32 v) = v"
  by (simp add: gbit32_def pbit32_def bit_split32)

lemma gbit64_pbit64 [simp]: "gbit64 (pbit64 v) = v"
proof -
  have "take 4 (pbit64 v) = pbit32 (ucast v)"
    by (simp add: pbit64_def pbit32_def) (auto intro!: bit_word_eqI simp: bit_simps)
  moreover have "drop 4 (pbit64 v) = pbit32 (ucast (drop_bit 32 v))"
    by (simp add: pbit64_def pbit32_def) (auto intro!: bit_word_eqI simp: bit_simps)
  moreover have "ucast (ucast v :: u32) OR push_bit 32 (ucast (ucast (drop_bit 32 v) :: u32)) = v"
    by (rule bit_word_eqI) (auto simp: bit_simps)
  ultimately show ?thesis by (simp add: gbit64_def)
qed


lemma length_2E: "length bs = 2 \<Longrightarrow> (\<And>a b. bs = [a, b] \<Longrightarrow> P) \<Longrightarrow> P"
  by (auto simp: numeral_2_eq_2 length_Suc_conv)

lemma length_4E: "length bs = 4 \<Longrightarrow> (\<And>a b c d. bs = [a, b, c, d] \<Longrightarrow> P) \<Longrightarrow> P"
  by (auto simp: numeral_eq_Suc length_Suc_conv)

lemma pbit16_gbit16: "length bs = 2 \<Longrightarrow> pbit16 (gbit16 bs) = bs"
  by (erule length_2E)
    (auto simp: pbit16_def gbit16_def bit_eq_iff bit_simps dest: bit_imp_le_length)

lemma pbit32_gbit32: "length bs = 4 \<Longrightarrow> pbit32 (gbit32 bs) = bs"
  by (erule length_4E)
    (auto simp: pbit32_def gbit32_def bit_eq_iff bit_simps dest: bit_imp_le_length)

lemma pbit64_append: "pbit64 v = pbit32 (ucast v) @ pbit32 (ucast (drop_bit 32 v))"
  by (simp add: pbit64_def pbit32_def) (auto intro!: bit_word_eqI simp: bit_simps)

lemma pbit64_gbit64:
  assumes "length bs = 8"
  shows "pbit64 (gbit64 bs) = bs"
proof -
  have "ucast (gbit64 bs) = gbit32 (take 4 bs)" "ucast (drop_bit 32 (gbit64 bs)) = gbit32 (drop 4 bs)"
    by (auto simp: gbit64_def bit_eq_iff bit_simps dest: bit_imp_le_length)
  then show ?thesis
    using assms by (simp add: pbit64_append pbit32_gbit32)
qed

lemma pbit8_gbit8: "length bs = 1 \<Longrightarrow> pbit8 (gbit8 bs) = bs"
  by (auto simp: pbit8_def gbit8_def length_Suc_conv)


subsection \<open>The structures\<close>

record Qid =
  qpath :: u64
  qvers :: u32
  qtype :: byte

record 'p Fcall =
  ftype :: byte
  fid :: u32
  tag :: u16
  msize :: u32
  version :: 'p
  oldtag :: u16
  ename :: 'p
  qid :: Qid
  iounit :: u32
  aqid :: Qid
  afid :: u32
  uname :: 'p
  aname :: 'p
  perm :: u32
  fname :: 'p
  mode :: byte
  newfid :: u32
  nwname :: u16
  wname :: "'p list"
  nwqid :: u16
  wqid :: "Qid list"
  offset :: u64
  count :: u32
  fdata :: 'p
  nstat :: u16
  fstat :: 'p

text \<open>An \<open>Fcall\<close> with every field cleared and every pointer \<open>p\<close>, as callers make before they fill in
  the fields of their message.\<close>

definition zero_qid :: Qid where
  "zero_qid = \<lparr>qpath = 0, qvers = 0, qtype = 0\<rparr>"

definition blank_fcall :: "'p \<Rightarrow> 'p Fcall" where
  "blank_fcall p =
     \<lparr>ftype = 0, fid = 0, tag = 0, msize = 0, version = p, oldtag = 0, ename = p, qid = zero_qid,
      iounit = 0, aqid = zero_qid, afid = 0, uname = p, aname = p, perm = 0, fname = p, mode = 0,
      newfid = 0, nwname = 0, wname = replicate 16 p, nwqid = 0, wqid = replicate 16 zero_qid,
      offset = 0, count = 0, fdata = p, nstat = 0, fstat = p\<rparr>"

definition MAXWELEM :: nat where
  "MAXWELEM = 16"

definition QIDSZ :: nat where
  "QIDSZ = 13"

abbreviation "Tversion \<equiv> (100 :: byte)"
abbreviation "Rversion \<equiv> (101 :: byte)"
abbreviation "Tauth \<equiv> (102 :: byte)"
abbreviation "Rauth \<equiv> (103 :: byte)"
abbreviation "Tattach \<equiv> (104 :: byte)"
abbreviation "Rattach \<equiv> (105 :: byte)"
abbreviation "Rerror \<equiv> (107 :: byte)"
abbreviation "Tflush \<equiv> (108 :: byte)"
abbreviation "Rflush \<equiv> (109 :: byte)"
abbreviation "Twalk \<equiv> (110 :: byte)"
abbreviation "Rwalk \<equiv> (111 :: byte)"
abbreviation "Topen \<equiv> (112 :: byte)"
abbreviation "Ropen \<equiv> (113 :: byte)"
abbreviation "Tcreate \<equiv> (114 :: byte)"
abbreviation "Rcreate \<equiv> (115 :: byte)"
abbreviation "Tread \<equiv> (116 :: byte)"
abbreviation "Rread \<equiv> (117 :: byte)"
abbreviation "Twrite \<equiv> (118 :: byte)"
abbreviation "Rwrite \<equiv> (119 :: byte)"
abbreviation "Tclunk \<equiv> (120 :: byte)"
abbreviation "Rclunk \<equiv> (121 :: byte)"
abbreviation "Tremove \<equiv> (122 :: byte)"
abbreviation "Rremove \<equiv> (123 :: byte)"
abbreviation "Tstat \<equiv> (124 :: byte)"
abbreviation "Rstat \<equiv> (125 :: byte)"
abbreviation "Twstat \<equiv> (126 :: byte)"
abbreviation "Rwstat \<equiv> (127 :: byte)"


subsection \<open>Abstract messages and their wire format\<close>

type_synonym bytes = "byte list"

datatype msg =
    MTversion u32 bytes | MRversion u32 bytes
  | MTauth u32 bytes bytes | MRauth Qid
  | MTattach u32 u32 bytes bytes | MRattach Qid
  | MRerror bytes
  | MTflush u16 | MRflush
  | MTwalk u32 u32 "bytes list" | MRwalk "Qid list"
  | MTopen u32 byte | MRopen Qid u32
  | MTcreate u32 bytes u32 byte | MRcreate Qid u32
  | MTread u32 u64 u32 | MRread bytes
  | MTwrite u32 u64 bytes | MRwrite u32
  | MTclunk u32 | MRclunk
  | MTremove u32 | MRremove
  | MTstat u32 | MRstat bytes
  | MTwstat u32 bytes | MRwstat

definition str_bytes :: "bytes \<Rightarrow> bytes" where
  "str_bytes s = pbit16 (of_nat (length s)) @ s"

definition qid_bytes :: "Qid \<Rightarrow> bytes" where
  "qid_bytes q = pbit8 (qtype q) @ pbit32 (qvers q) @ pbit64 (qpath q)"

fun msg_type :: "msg \<Rightarrow> byte" where
  "msg_type (MTversion _ _) = Tversion" | "msg_type (MRversion _ _) = Rversion"
| "msg_type (MTauth _ _ _) = Tauth" | "msg_type (MRauth _) = Rauth"
| "msg_type (MTattach _ _ _ _) = Tattach" | "msg_type (MRattach _) = Rattach"
| "msg_type (MRerror _) = Rerror"
| "msg_type (MTflush _) = Tflush" | "msg_type MRflush = Rflush"
| "msg_type (MTwalk _ _ _) = Twalk" | "msg_type (MRwalk _) = Rwalk"
| "msg_type (MTopen _ _) = Topen" | "msg_type (MRopen _ _) = Ropen"
| "msg_type (MTcreate _ _ _ _) = Tcreate" | "msg_type (MRcreate _ _) = Rcreate"
| "msg_type (MTread _ _ _) = Tread" | "msg_type (MRread _) = Rread"
| "msg_type (MTwrite _ _ _) = Twrite" | "msg_type (MRwrite _) = Rwrite"
| "msg_type (MTclunk _) = Tclunk" | "msg_type MRclunk = Rclunk"
| "msg_type (MTremove _) = Tremove" | "msg_type MRremove = Rremove"
| "msg_type (MTstat _) = Tstat" | "msg_type (MRstat _) = Rstat"
| "msg_type (MTwstat _ _) = Twstat" | "msg_type MRwstat = Rwstat"

fun msg_body :: "msg \<Rightarrow> bytes" where
  "msg_body (MTversion ms v) = pbit32 ms @ str_bytes v"
| "msg_body (MRversion ms v) = pbit32 ms @ str_bytes v"
| "msg_body (MTauth af u a) = pbit32 af @ str_bytes u @ str_bytes a"
| "msg_body (MRauth q) = qid_bytes q"
| "msg_body (MTattach f af u a) = pbit32 f @ pbit32 af @ str_bytes u @ str_bytes a"
| "msg_body (MRattach q) = qid_bytes q"
| "msg_body (MRerror e) = str_bytes e"
| "msg_body (MTflush ot) = pbit16 ot"
| "msg_body MRflush = []"
| "msg_body (MTwalk f nf ns) =
     pbit32 f @ pbit32 nf @ pbit16 (of_nat (length ns)) @ concat (map str_bytes ns)"
| "msg_body (MRwalk qs) = pbit16 (of_nat (length qs)) @ concat (map qid_bytes qs)"
| "msg_body (MTopen f m) = pbit32 f @ pbit8 m"
| "msg_body (MRopen q io) = qid_bytes q @ pbit32 io"
| "msg_body (MTcreate f n pm m) = pbit32 f @ str_bytes n @ pbit32 pm @ pbit8 m"
| "msg_body (MRcreate q io) = qid_bytes q @ pbit32 io"
| "msg_body (MTread f off n) = pbit32 f @ pbit64 off @ pbit32 n"
| "msg_body (MRread d) = pbit32 (of_nat (length d)) @ d"
| "msg_body (MTwrite f off d) = pbit32 f @ pbit64 off @ pbit32 (of_nat (length d)) @ d"
| "msg_body (MRwrite n) = pbit32 n"
| "msg_body (MTclunk f) = pbit32 f"
| "msg_body MRclunk = []"
| "msg_body (MTremove f) = pbit32 f"
| "msg_body MRremove = []"
| "msg_body (MTstat f) = pbit32 f"
| "msg_body (MRstat st) = pbit16 (of_nat (length st)) @ st"
| "msg_body (MTwstat f st) = pbit32 f @ pbit16 (of_nat (length st)) @ st"
| "msg_body MRwstat = []"

definition frame :: "u16 \<Rightarrow> msg \<Rightarrow> bytes" where
  "frame t m = pbit32 (of_nat (7 + length (msg_body m))) @ pbit8 (msg_type m) @ pbit16 t @ msg_body m"

text \<open>
  \<open>msg_of str dat f\<close>: the message an \<open>Fcall\<close> stands for, given what its string pointers
  (\<open>str\<close>) and its counted data pointers (\<open>dat\<close>) point to.
\<close>

definition msg_of :: "('p \<Rightarrow> bytes) \<Rightarrow> ('p \<Rightarrow> nat \<Rightarrow> bytes) \<Rightarrow> 'p Fcall \<Rightarrow> msg option" where
  "msg_of str dat f =
    (let t = ftype f in
     if t = Tversion then Some (MTversion (msize f) (str (version f)))
     else if t = Rversion then Some (MRversion (msize f) (str (version f)))
     else if t = Tauth then Some (MTauth (afid f) (str (uname f)) (str (aname f)))
     else if t = Rauth then Some (MRauth (aqid f))
     else if t = Tattach then Some (MTattach (fid f) (afid f) (str (uname f)) (str (aname f)))
     else if t = Rattach then Some (MRattach (qid f))
     else if t = Rerror then Some (MRerror (str (ename f)))
     else if t = Tflush then Some (MTflush (oldtag f))
     else if t = Rflush then Some MRflush
     else if t = Twalk then Some (MTwalk (fid f) (newfid f) (map str (take (unat (nwname f)) (wname f))))
     else if t = Rwalk then Some (MRwalk (take (unat (nwqid f)) (wqid f)))
     else if t = Topen then Some (MTopen (fid f) (mode f))
     else if t = Ropen then Some (MRopen (qid f) (iounit f))
     else if t = Tcreate then Some (MTcreate (fid f) (str (fname f)) (perm f) (mode f))
     else if t = Rcreate then Some (MRcreate (qid f) (iounit f))
     else if t = Tread then Some (MTread (fid f) (offset f) (count f))
     else if t = Rread then Some (MRread (dat (fdata f) (unat (count f))))
     else if t = Twrite then Some (MTwrite (fid f) (offset f) (dat (fdata f) (unat (count f))))
     else if t = Rwrite then Some (MRwrite (count f))
     else if t = Tclunk then Some (MTclunk (fid f))
     else if t = Rclunk then Some MRclunk
     else if t = Tremove then Some (MTremove (fid f))
     else if t = Rremove then Some MRremove
     else if t = Tstat then Some (MTstat (fid f))
     else if t = Rstat then Some (MRstat (dat (fstat f) (unat (nstat f))))
     else if t = Twstat then Some (MTwstat (fid f) (dat (fstat f) (unat (nstat f))))
     else if t = Rwstat then Some MRwstat
     else None)"

text \<open>
  What 9P2000 can carry: strings shorter than 64K without NUL bytes, at most \<open>MAXWELEM\<close> path
  elements, a whole message shorter than 4G.
\<close>

definition wf_str :: "bytes \<Rightarrow> bool" where
  "wf_str s \<longleftrightarrow> length s < 2 ^ 16 \<and> 0 \<notin> set s"

fun msg_strs :: "msg \<Rightarrow> bytes list" where
  "msg_strs (MTversion _ v) = [v]"
| "msg_strs (MRversion _ v) = [v]"
| "msg_strs (MTauth _ u a) = [u, a]"
| "msg_strs (MTattach _ _ u a) = [u, a]"
| "msg_strs (MRerror e) = [e]"
| "msg_strs (MTwalk _ _ ns) = ns"
| "msg_strs (MTcreate _ n _ _) = [n]"
| "msg_strs _ = []"

fun msg_nelem :: "msg \<Rightarrow> nat" where
  "msg_nelem (MTwalk _ _ ns) = length ns"
| "msg_nelem (MRwalk qs) = length qs"
| "msg_nelem _ = 0"

fun msg_nstat :: "msg \<Rightarrow> nat" where
  "msg_nstat (MRstat st) = length st"
| "msg_nstat (MTwstat _ st) = length st"
| "msg_nstat _ = 0"

definition wf_msg :: "msg \<Rightarrow> bool" where
  "wf_msg m \<longleftrightarrow> list_all wf_str (msg_strs m) \<and> msg_nelem m \<le> MAXWELEM \<and> msg_nstat m < 2 ^ 16
     \<and> 7 + length (msg_body m) < 2 ^ 32"

lemma length_str_bytes [simp]: "length (str_bytes s) = 2 + length s"
  by (simp add: str_bytes_def)

lemma length_qid_bytes [simp]: "length (qid_bytes q) = 13"
  by (simp add: qid_bytes_def)

lemma length_frame: "length (frame t m) = 7 + length (msg_body m)"
  by (simp add: frame_def)

lemma msg_of_type: "msg_of str dat f = Some m \<Longrightarrow> ftype f = msg_type m"
  by (auto simp: msg_of_def Let_def split: if_splits)

definition msg_types :: "byte list" where
  "msg_types = [Tversion, Rversion, Tauth, Rauth, Tattach, Rattach, Rerror, Tflush, Rflush, Twalk,
     Rwalk, Topen, Ropen, Tcreate, Rcreate, Tread, Rread, Twrite, Rwrite, Tclunk, Rclunk, Tremove,
     Rremove, Tstat, Rstat, Twstat, Rwstat]"

lemma msg_of_known: "ftype f \<in> set msg_types \<Longrightarrow> msg_of str dat f \<noteq> None"
  unfolding msg_types_def msg_of_def Let_def by (simp, elim disjE; simp)

end
