(* ===== verification/ConvS2M.thy ===== *)
theory ConvS2M
  imports Fcall
begin

text \<open>
  The 9P message encoder, \<open>libc/9sys/convS2M.c\<close>: \<open>sizeS2M\<close>, \<open>convS2M\<close> and their helpers.
  The \<open>uint\<close> sizes are 32-bit words and wrap as in C. The output buffer is a byte list, a write
  outside it is \<open>Efault\<close>. \<open>convS2M\<close> returns the new contents of the buffer and the value
  of the C function (0 for an error).

  Main result: for an \<open>Fcall\<close> that stands for a message 9P2000 can carry, the encoder writes
  exactly the wire format of that message and returns its length.
\<close>

type_synonym cptr = "bytes option"

type_synonym wst = "bytes \<times> nat"

subsection \<open>Definitions\<close>

definition emit :: "bytes \<Rightarrow> wst stmt" where
  "emit bs = (\<lambda>(buf, p). andthen (blit bs p buf) (\<lambda>buf'. Inr (Go (buf', p + length bs))))"

definition pstring :: "cptr \<Rightarrow> wst stmt" where
  "pstring s = (case s of
       None \<Rightarrow> emit (pbit16 0)
     | Some s \<Rightarrow> (let n = strlen s in run [emit (pbit16 (of_nat n)), emit (take n s)]))"

definition pqid :: "Qid \<Rightarrow> wst stmt" where
  "pqid q = run [emit (pbit8 (qtype q)), emit (pbit32 (qvers q)), emit (pbit64 (qpath q))]"

definition pmem :: "cptr \<Rightarrow> nat \<Rightarrow> wst stmt" where
  "pmem d n = (case d of
       None \<Rightarrow> (if n = 0 then emit [] else (\<lambda>_. Inl Efault))
     | Some bs \<Rightarrow> (if n \<le> length bs then emit (take n bs) else (\<lambda>_. Inl Efault)))"

definition stringsz :: "cptr \<Rightarrow> u32" where
  "stringsz s = (case s of None \<Rightarrow> 2 | Some s \<Rightarrow> 2 + of_nat (strlen s))"

text \<open>The loop over \<open>f->wname[i]\<close>: an index past the array is a fault.\<close>

fun sum_stringsz :: "nat \<Rightarrow> cptr list \<Rightarrow> u32 \<Rightarrow> u32 outcome" where
  "sum_stringsz 0 ws n = Inr n"
| "sum_stringsz (Suc i) [] n = Inl Efault"
| "sum_stringsz (Suc i) (w # ws) n = sum_stringsz i ws (n + stringsz w)"

definition sizeS2M :: "cptr Fcall \<Rightarrow> u32 outcome" where
  "sizeS2M f =
    (let t = ftype f; n = 4 + 1 + 2 in
     if t = Tversion then Inr (n + 4 + stringsz (version f))
     else if t = Tflush then Inr (n + 2)
     else if t = Tauth then Inr (n + 4 + stringsz (uname f) + stringsz (aname f))
     else if t = Tattach then Inr (n + 4 + 4 + stringsz (uname f) + stringsz (aname f))
     else if t = Twalk then sum_stringsz (unat (nwname f)) (wname f) (n + 4 + 4 + 2)
     else if t = Topen then Inr (n + 4 + 1)
     else if t = Tcreate then Inr (n + 4 + stringsz (fname f) + 4 + 1)
     else if t = Tread then Inr (n + 4 + 8 + 4)
     else if t = Twrite then Inr (n + 4 + 8 + 4 + count f)
     else if t = Tclunk \<or> t = Tremove then Inr (n + 4)
     else if t = Tstat then Inr (n + 4)
     else if t = Twstat then Inr (n + 4 + 2 + ucast (nstat f))
     else if t = Rversion then Inr (n + 4 + stringsz (version f))
     else if t = Rerror then Inr (n + stringsz (ename f))
     else if t = Rflush then Inr n
     else if t = Rauth then Inr (n + 13)
     else if t = Rattach then Inr (n + 13)
     else if t = Rwalk then Inr (n + 2 + ucast (nwqid f) * 13)
     else if t = Ropen \<or> t = Rcreate then Inr (n + 13 + 4)
     else if t = Rread then Inr (n + 4 + count f)
     else if t = Rwrite then Inr (n + 4)
     else if t = Rclunk then Inr n
     else if t = Rremove then Inr n
     else if t = Rstat then Inr (n + 2 + ucast (nstat f))
     else if t = Rwstat then Inr n
     else Inr 0)"

definition s2m_names :: "cptr Fcall \<Rightarrow> wst stmt" where
  "s2m_names f s =
     (if unat (nwname f) > MAXWELEM then Inr (Stop s)
      else loop (unat (nwname f))
             (\<lambda>i. if i < length (wname f) then pstring (wname f ! i) else (\<lambda>_. Inl Efault)) s)"

definition s2m_qids :: "cptr Fcall \<Rightarrow> wst stmt" where
  "s2m_qids f s =
     (if unat (nwqid f) > MAXWELEM then Inr (Stop s)
      else loop (unat (nwqid f))
             (\<lambda>i. if i < length (wqid f) then pqid (wqid f ! i) else (\<lambda>_. Inl Efault)) s)"

text \<open>The cases of the \<open>switch\<close> for requests; \<open>None\<close> for the types it does not list.\<close>

definition s2m_T :: "cptr Fcall \<Rightarrow> wst stmt list option" where
  "s2m_T f =
    (let t = ftype f in
     if t = Tversion then Some [emit (pbit32 (msize f)), pstring (version f)]
     else if t = Tflush then Some [emit (pbit16 (oldtag f))]
     else if t = Tauth then Some [emit (pbit32 (afid f)), pstring (uname f), pstring (aname f)]
     else if t = Tattach then
       Some [emit (pbit32 (fid f)), emit (pbit32 (afid f)), pstring (uname f), pstring (aname f)]
     else if t = Twalk then
       Some [emit (pbit32 (fid f)), emit (pbit32 (newfid f)), emit (pbit16 (nwname f)), s2m_names f]
     else if t = Topen then Some [emit (pbit32 (fid f)), emit (pbit8 (mode f))]
     else if t = Tcreate then
       Some [emit (pbit32 (fid f)), pstring (fname f), emit (pbit32 (perm f)), emit (pbit8 (mode f))]
     else if t = Tread then
       Some [emit (pbit32 (fid f)), emit (pbit64 (offset f)), emit (pbit32 (count f))]
     else if t = Twrite then
       Some [emit (pbit32 (fid f)), emit (pbit64 (offset f)), emit (pbit32 (count f)),
             pmem (fdata f) (unat (count f))]
     else if t = Tclunk \<or> t = Tremove then Some [emit (pbit32 (fid f))]
     else if t = Tstat then Some [emit (pbit32 (fid f))]
     else if t = Twstat then
       Some [emit (pbit32 (fid f)), emit (pbit16 (nstat f)), pmem (fstat f) (unat (nstat f))]
     else None)"

definition s2m_R :: "cptr Fcall \<Rightarrow> wst stmt list option" where
  "s2m_R f =
    (let t = ftype f in
     if t = Rversion then Some [emit (pbit32 (msize f)), pstring (version f)]
     else if t = Rerror then Some [pstring (ename f)]
     else if t = Rflush then Some []
     else if t = Rauth then Some [pqid (aqid f)]
     else if t = Rattach then Some [pqid (qid f)]
     else if t = Rwalk then Some [emit (pbit16 (nwqid f)), s2m_qids f]
     else if t = Ropen \<or> t = Rcreate then Some [pqid (qid f), emit (pbit32 (iounit f))]
     else if t = Rread then Some [emit (pbit32 (count f)), pmem (fdata f) (unat (count f))]
     else if t = Rwrite then Some [emit (pbit32 (count f))]
     else if t = Rclunk then Some []
     else if t = Rremove then Some []
     else if t = Rstat then Some [emit (pbit16 (nstat f)), pmem (fstat f) (unat (nstat f))]
     else if t = Rwstat then Some []
     else None)"

definition s2m_switch :: "cptr Fcall \<Rightarrow> wst stmt" where
  "s2m_switch f s =
     (case s2m_T f of
        Some cs \<Rightarrow> run cs s
      | None \<Rightarrow> (case s2m_R f of Some cs \<Rightarrow> run cs s | None \<Rightarrow> Inr (Stop s)))"

definition convS2M :: "cptr Fcall \<Rightarrow> bytes \<Rightarrow> u32 \<Rightarrow> (bytes \<times> u32) outcome" where
  "convS2M f ap nap =
     andthen (sizeS2M f) (\<lambda>size.
       if size = 0 then Inr (ap, 0)
       else if size > nap then Inr (ap, 0)
       else andthen (run [emit (pbit32 size), emit (pbit8 (ftype f)), emit (pbit16 (tag f)),
                          s2m_switch f] (ap, 0))
         (\<lambda>r. case r of
            Stop (buf, p) \<Rightarrow> Inr (buf, 0)
          | Go (buf, p) \<Rightarrow> (if size \<noteq> of_nat p then Inr (buf, 0) else Inr (buf, size))))"


subsection \<open>What an \<open>Fcall\<close> handed to the encoder stands for\<close>

definition estr :: "cptr \<Rightarrow> bytes" where
  "estr s = (case s of None \<Rightarrow> [] | Some s \<Rightarrow> cstr s)"

definition edat :: "cptr \<Rightarrow> nat \<Rightarrow> bytes" where
  "edat d n = (case d of None \<Rightarrow> [] | Some bs \<Rightarrow> take n bs)"

definition readable :: "cptr \<Rightarrow> nat \<Rightarrow> bool" where
  "readable d n = (case d of None \<Rightarrow> n = 0 | Some bs \<Rightarrow> n \<le> length bs)"

definition fcall_ok :: "cptr Fcall \<Rightarrow> bool" where
  "fcall_ok f \<longleftrightarrow>
     (ftype f = Twrite \<or> ftype f = Rread \<longrightarrow> readable (fdata f) (unat (count f)))
     \<and> (ftype f = Twstat \<or> ftype f = Rstat \<longrightarrow> readable (fstat f) (unat (nstat f)))
     \<and> (ftype f = Twalk \<longrightarrow> unat (nwname f) \<le> MAXWELEM)
     \<and> (ftype f = Rwalk \<longrightarrow> unat (nwqid f) \<le> MAXWELEM)
     \<and> length (wname f) = MAXWELEM \<and> length (wqid f) = MAXWELEM"


subsection \<open>The statements of the encoder write their bytes, or fault\<close>

definition emits :: "wst stmt \<Rightarrow> bytes \<Rightarrow> bool" where
  "emits c bs \<longleftrightarrow> (\<forall>buf p. p \<le> length buf \<longrightarrow>
     c (buf, p) = (if p + length bs \<le> length buf
       then Inr (Go (take p buf @ bs @ drop (p + length bs) buf, p + length bs)) else Inl Efault))"

lemma emits_emit: "emits (emit bs) bs"
  by (simp add: emits_def emit_def blit_def)

lemma emits_Nil: "emits (run []) []"
  by (simp add: emits_def)

lemma emits_Cons:
  assumes "emits c a" "emits (run cs) b"
  shows "emits (run (c # cs)) (a @ b)"
  unfolding emits_def
proof (intro allI impI)
  fix buf :: bytes and p
  assume p: "p \<le> length buf"
  let ?buf = "take p buf @ a @ drop (p + length a) buf"
  show "run (c # cs) (buf, p) = (if p + length (a @ b) \<le> length buf
      then Inr (Go (take p buf @ (a @ b) @ drop (p + length (a @ b)) buf, p + length (a @ b)))
      else Inl Efault)"
  proof (cases "p + length a \<le> length buf")
    case True
    then have "c (buf, p) = Inr (Go (?buf, p + length a))"
      using assms(1) p by (simp add: emits_def)
    moreover have "run cs (?buf, p + length a) = (if p + length a + length b \<le> length ?buf
        then Inr (Go (take (p + length a) ?buf @ b @ drop (p + length a + length b) ?buf,
                      p + length a + length b)) else Inl Efault)"
      using assms(2) True by (simp add: emits_def)
    ultimately show ?thesis using True by (simp add: ac_simps)
  next
    case False
    then show ?thesis using assms(1) p by (simp add: emits_def)
  qed
qed

lemma emits_run: "list_all2 emits cs bss \<Longrightarrow> emits (run cs) (concat bss)"
  by (induction rule: list_all2_induct) (auto simp del: run.simps intro: emits_Cons emits_Nil)

lemma emits_loop:
  assumes "\<And>i. i < n \<Longrightarrow> emits (body i) (g i)"
  shows "emits (loop n body) (concat (map g [0..<n]))"
  unfolding loop_def by (rule emits_run) (simp add: list_all2_conv_all_nth assms)

lemma emits_pstring: "emits (pstring s) (str_bytes (estr s))"
proof (cases s)
  case None
  then show ?thesis by (simp add: pstring_def estr_def str_bytes_def emits_emit)
next
  case (Some t)
  have "emits (run [emit (pbit16 (of_nat (strlen t))), emit (take (strlen t) t)])
     (concat [pbit16 (of_nat (strlen t)), take (strlen t) t])"
    by (rule emits_run) (simp add: emits_emit)
  with Some show ?thesis
    by (simp add: pstring_def estr_def str_bytes_def take_strlen Let_def flip: strlen_def del: run.simps)
qed

lemma emits_pqid: "emits (pqid q) (qid_bytes q)"
proof -
  have "emits (pqid q) (concat [pbit8 (qtype q), pbit32 (qvers q), pbit64 (qpath q)])"
    unfolding pqid_def by (rule emits_run) (simp add: emits_emit)
  then show ?thesis by (simp add: qid_bytes_def)
qed

lemma emits_pmem: "readable d n \<Longrightarrow> emits (pmem d n) (edat d n)"
  by (auto simp: readable_def pmem_def edat_def emits_emit split: option.splits)

lemma emits_s2m_names:
  assumes "unat (nwname f) \<le> MAXWELEM" "length (wname f) = MAXWELEM"
  shows "emits (s2m_names f) (concat (map (str_bytes \<circ> estr) (take (unat (nwname f)) (wname f))))"
proof -
  let ?n = "unat (nwname f)"
  have "emits (loop ?n (\<lambda>i. if i < length (wname f) then pstring (wname f ! i) else (\<lambda>_. Inl Efault)))
     (concat (map (\<lambda>i. str_bytes (estr (wname f ! i))) [0..<?n]))"
    by (rule emits_loop) (use assms in \<open>simp add: emits_pstring\<close>)
  moreover have "map (\<lambda>i. str_bytes (estr (wname f ! i))) [0..<?n] = map (str_bytes \<circ> estr) (take ?n (wname f))"
    by (rule nth_equalityI) (use assms in auto)
  ultimately show ?thesis using assms by (simp add: emits_def s2m_names_def)
qed

lemma emits_s2m_qids:
  assumes "unat (nwqid f) \<le> MAXWELEM" "length (wqid f) = MAXWELEM"
  shows "emits (s2m_qids f) (concat (map qid_bytes (take (unat (nwqid f)) (wqid f))))"
proof -
  let ?n = "unat (nwqid f)"
  have "emits (loop ?n (\<lambda>i. if i < length (wqid f) then pqid (wqid f ! i) else (\<lambda>_. Inl Efault)))
     (concat (map (\<lambda>i. qid_bytes (wqid f ! i)) [0..<?n]))"
    by (rule emits_loop) (use assms in \<open>simp add: emits_pqid\<close>)
  moreover have "map (\<lambda>i. qid_bytes (wqid f ! i)) [0..<?n] = map qid_bytes (take ?n (wqid f))"
    by (rule nth_equalityI) (use assms in auto)
  ultimately show ?thesis using assms by (simp add: emits_def s2m_qids_def)
qed

lemma emits_single: "emits c a \<Longrightarrow> emits (run [c]) a"
  using emits_Cons [OF _ emits_Nil, of c a] by simp

lemma emits_switch:
  "(case s2m_T f of
      Some cs \<Rightarrow> emits (run cs) bs
    | None \<Rightarrow> (case s2m_R f of Some cs \<Rightarrow> emits (run cs) bs | None \<Rightarrow> False)) \<Longrightarrow>
   emits (s2m_switch f) bs"
  by (cases "s2m_T f"; cases "s2m_R f"; simp add: emits_def s2m_switch_def del: run.simps)

lemma length_edat: "readable d n \<Longrightarrow> length (edat d n) = n"
  by (auto simp: readable_def edat_def split: option.splits)

lemmas emits_stmts = emits_Nil emits_single emits_Cons
  emits_emit emits_pstring emits_pqid emits_pmem emits_s2m_names emits_s2m_qids

lemma emits_s2m_switch:
  assumes m: "msg_of estr edat f = Some m" and ok: "fcall_ok f"
  shows "emits (s2m_switch f) (msg_body m)"
  by (insert m ok msg_of_type [OF m], cases m;
      clarsimp simp: msg_of_def Let_def fcall_ok_def simp del: run.simps;
      rule emits_switch;
      simp add: s2m_T_def s2m_R_def Let_def length_edat min_absorb2 del: run.simps;
      intro emits_stmts; simp)

lemma stringsz_of_nat: "stringsz w = of_nat (length (str_bytes (estr w)))"
  by (cases w) (simp_all add: stringsz_def estr_def strlen_def)

lemma sum_stringsz_of_nat:
  "k \<le> length ws \<Longrightarrow>
   sum_stringsz k ws n = Inr (n + of_nat (length (concat (map (str_bytes \<circ> estr) (take k ws)))))"
  by (induction k ws n rule: sum_stringsz.induct) (simp_all add: stringsz_of_nat add.assoc)

lemma sum_stringsz_short: "length ws < k \<Longrightarrow> sum_stringsz k ws n = Inl Efault"
  by (induction k ws n rule: sum_stringsz.induct) auto

lemma length_concat_const: "(\<And>x. x \<in> set xs \<Longrightarrow> length (g x) = k) \<Longrightarrow> length (concat (map g xs)) = length xs * k"
  by (induction xs) auto

lemma sizeS2M_msg:
  assumes m: "msg_of estr edat f = Some m" and ok: "fcall_ok f"
  shows "sizeS2M f = Inr (of_nat (length (frame (tag f) m)))"
  by (insert m ok msg_of_type [OF m], cases m;
      clarsimp simp: msg_of_def Let_def fcall_ok_def sizeS2M_def length_frame
        sum_stringsz_of_nat stringsz_of_nat length_edat length_concat_const min_absorb2)

lemma emits_convS2M:
  assumes m: "msg_of estr edat f = Some m" and ok: "fcall_ok f"
  shows "emits (run [emit (pbit32 (of_nat (length (frame (tag f) m)))), emit (pbit8 (ftype f)),
       emit (pbit16 (tag f)), s2m_switch f]) (frame (tag f) m)"
proof -
  let ?sz = "of_nat (length (frame (tag f) m)) :: u32"
  have "emits (run [emit (pbit32 ?sz), emit (pbit8 (ftype f)), emit (pbit16 (tag f)), s2m_switch f])
     (pbit32 ?sz @ pbit8 (ftype f) @ pbit16 (tag f) @ msg_body m)"
    by (intro emits_stmts emits_s2m_switch [OF m ok])
  also have "pbit32 ?sz @ pbit8 (ftype f) @ pbit16 (tag f) @ msg_body m = frame (tag f) m"
    by (simp add: frame_def msg_of_type [OF m])
  finally show ?thesis .
qed

lemma convS2M_writes:
  assumes m: "msg_of estr edat f = Some m" and ok: "fcall_ok f"
    and small: "length (frame (tag f) m) < 2 ^ 32" and nap: "unat nap \<le> length ap"
  shows "convS2M f ap nap =
     (if length (frame (tag f) m) \<le> unat nap
      then Inr (frame (tag f) m @ drop (length (frame (tag f) m)) ap, of_nat (length (frame (tag f) m)))
      else Inr (ap, 0))"
proof -
  let ?fr = "frame (tag f) m" and ?sz = "of_nat (length (frame (tag f) m)) :: u32"
  have sz: "unat ?sz = length ?fr"
    using small by (simp add: unat_of_nat take_bit_nat_eq_self)
  have pos: "?sz \<noteq> 0"
    using sz by (auto simp: length_frame)
  have emits: "emits (run [emit (pbit32 ?sz), emit (pbit8 (ftype f)), emit (pbit16 (tag f)), s2m_switch f]) ?fr"
    by (rule emits_convS2M [OF m ok])
  show ?thesis
    using emits nap pos sz
    by (simp add: convS2M_def sizeS2M_msg [OF m ok] word_less_nat_alt emits_def del: run.simps)
qed

text \<open>C3: let an \<open>Fcall\<close> have a known type, at most \<open>MAXWELEM\<close> names or qids, and \<open>data\<close> and \<open>stat\<close>
  pointers to as many bytes as its counts say, let its frame be shorter than \<open>2^32\<close> bytes, and let \<open>nap\<close> be
  at most the length of the buffer.  Then the encoder writes exactly the wire format of the message at the
  start of the buffer, leaves the rest of the buffer alone and returns the length of the message; where
  \<open>nap\<close> is too small for it, the buffer is left as it was and 0 is returned.\<close>

theorem convS2M_frame:
  assumes "msg_of estr edat f = Some m" "fcall_ok f" "length (frame (tag f) m) < 2 ^ 32"
    and "unat nap \<le> length ap"
  shows "convS2M f ap nap =
     (if length (frame (tag f) m) \<le> unat nap
      then Inr (frame (tag f) m @ drop (length (frame (tag f) m)) ap, of_nat (length (frame (tag f) m)))
      else Inr (ap, 0))"
  using assms by (rule convS2M_writes)

theorem convS2M_frame_witness:
  "let f = (blank_fcall None)\<lparr>ftype := Twalk, tag := 7, nwname := 1,
       wname := Some [97, 98, 0] # replicate 15 None\<rparr> in
   convS2M f (replicate 32 1) 32 = Inr (frame 7 (MTwalk 0 0 [[97, 98]]) @ replicate 11 1, 21)"
proof -
  let ?f = "(blank_fcall None)\<lparr>ftype := Twalk, tag := 7, nwname := 1,
       wname := Some [97, 98, 0] # replicate 15 None\<rparr>"
  have "msg_of estr edat ?f = Some (MTwalk 0 0 [[97, 98]])" "fcall_ok ?f"
    by (simp_all add: msg_of_def blank_fcall_def estr_def cstr_def fcall_ok_def MAXWELEM_def)
  from convS2M_frame [OF this, of 32 "replicate 32 1"] show ?thesis
    by (simp add: length_frame Let_def)
qed

text \<open>The encoder rejects every message type it does not know: it returns 0 and does not touch the
  buffer.\<close>

lemma convS2M_unknown:
  assumes "msg_of estr edat f = None"
  shows "convS2M f ap nap = Inr (ap, 0)"
proof -
  have "ftype f \<notin> set msg_types"
    using assms msg_of_known by blast
  then have "sizeS2M f = Inr 0"
    by (simp add: msg_types_def sizeS2M_def)
  then show ?thesis by (simp add: convS2M_def)
qed

lemma convS2M_unknown_witness:
  "convS2M ((blank_fcall None)\<lparr>ftype := 106\<rparr>) [1, 2, 3] 3 = Inr ([1, 2, 3], 0)"
  by (rule convS2M_unknown) (simp add: msg_of_def)

text \<open>An \<open>Rwalk\<close> with more than \<open>MAXWELEM\<close> qids is refused only after the header and the count are in the
  buffer: 0 is returned and the buffer is not as it was.\<close>

lemma convS2M_rwalk_partial:
  assumes "ftype f = Rwalk" "MAXWELEM < unat (nwqid f)" and sz: "sz = 9 + ucast (nwqid f) * 13" "sz \<le> nap"
    and "unat nap \<le> length ap"
  shows "convS2M f ap nap = Inr (pbit32 sz @ pbit8 Rwalk @ pbit16 (tag f) @ pbit16 (nwqid f) @ drop 9 ap, 0)"
proof -
  have "unat sz = 9 + unat (nwqid f) * 13"
    using unsigned_less [of "nwqid f", where ?'a = nat] by (simp add: sz(1) unat_word_ariths unsigned_ucast_eq take_bit_nat_eq_self)
  moreover from this have "sz \<noteq> 0" by auto
  ultimately have s: "sz \<noteq> 0" "9 \<le> length ap" using sz(2) assms(5) by (simp_all add: word_le_nat_alt)
  let ?w = "[pbit32 sz, pbit8 Rwalk, pbit16 (tag f), pbit16 (nwqid f)]"
  have e: "emits (run (map emit ?w)) (concat ?w)" by (rule emits_run) (simp add: emits_emit)
  have w: "run (map emit ?w) (ap, 0) = Inr (Go (concat ?w @ drop 9 ap, 9))"
    using e s(2) by (simp add: emits_def del: run.simps)
  have "s2m_switch f = run [emit (pbit16 (nwqid f)), s2m_qids f]"
    using assms(1) by (auto simp: s2m_switch_def s2m_T_def s2m_R_def)
  moreover have "s2m_qids f st = Inr (Stop st)" for st using assms(2) by (simp add: s2m_qids_def)
  ultimately have "run [emit (pbit32 sz), emit (pbit8 (ftype f)), emit (pbit16 (tag f)), s2m_switch f] (ap, 0) =
      Inr (Stop (concat ?w @ drop 9 ap, 9))"
    using w assms(1) by (auto split: sum.splits flow.splits simp: andthen_def)
  moreover have "sizeS2M f = Inr sz" using assms(1) sz(1) by (simp add: sizeS2M_def)
  ultimately show ?thesis using s(1) sz(2) by (simp add: convS2M_def leD del: run.simps)
qed

text \<open>C5: a \<open>Twalk\<close> with more than \<open>MAXWELEM\<close> names makes the encoder read past the end of the
  \<open>wname\<close> array: \<open>sizeS2M\<close> walks the array before \<open>convS2M\<close> tests the bound.\<close>

theorem convS2M_walk_overrun:
  assumes "ftype f = Twalk" "length (wname f) = MAXWELEM" "MAXWELEM < unat (nwname f)"
  shows "convS2M f ap nap = Inl Efault"
  using assms by (simp add: convS2M_def sizeS2M_def sum_stringsz_short)

theorem convS2M_walk_overrun_witness:
  "convS2M ((blank_fcall None)\<lparr>ftype := Twalk, nwname := 17\<rparr>) (replicate 100 0) 100 = Inl Efault"
  by (rule convS2M_walk_overrun) (simp_all add: blank_fcall_def MAXWELEM_def)

text \<open>C6: the 32-bit size of a message wraps: a message of more than 4G bytes, which \<open>count\<close> can ask for,
  passes the test against \<open>nap\<close> with its size reduced modulo \<open>2^32\<close>, and the encoder then writes beyond
  the buffer.\<close>

theorem convS2M_size_wraps:
  assumes m: "msg_of estr edat f = Some m" and ok: "fcall_ok f"
    and wrap: "2 ^ 32 < length (frame (tag f) m)" "length (frame (tag f) m) < 2 ^ 33"
    and nap: "length (frame (tag f) m) - 2 ^ 32 \<le> unat nap" and ap: "length ap < 2 ^ 32"
  shows "convS2M f ap nap = Inl Efault"
proof -
  let ?fr = "frame (tag f) m" and ?sz = "of_nat (length (frame (tag f) m)) :: u32"
  have "length ?fr mod 2 ^ 32 = length ?fr - 2 ^ 32"
    using wrap by (simp add: mod_if)
  then have sz: "unat ?sz = length ?fr - 2 ^ 32"
    by (simp add: unat_of_nat)
  have pos: "?sz \<noteq> 0"
    using sz wrap by auto
  have emits: "emits (run [emit (pbit32 ?sz), emit (pbit8 (ftype f)), emit (pbit16 (tag f)), s2m_switch f]) ?fr"
    by (rule emits_convS2M [OF m ok])
  show ?thesis
    using emits nap pos sz ap wrap
    by (simp add: convS2M_def sizeS2M_msg [OF m ok] word_less_nat_alt emits_def del: run.simps)
qed

theorem convS2M_size_wraps_witness:
  "\<exists>f ap nap. ftype f = Rread \<and> unat (count f) = 2 ^ 32 - 1 \<and> length ap = 64 \<and> convS2M f ap nap = Inl Efault"
proof -
  obtain bs :: bytes where bs: "length bs = 2 ^ 32 - 1"
    using Ex_list_of_length by blast
  let ?f = "(blank_fcall None)\<lparr>ftype := Rread, count := 4294967295, fdata := Some bs\<rparr>" and ?ap = "replicate 64 0"
  have c: "unat (4294967295 :: u32) = 2 ^ 32 - 1"
    by simp
  then have "msg_of estr edat ?f = Some (MRread bs)" "fcall_ok ?f"
    using bs by (simp_all add: msg_of_def edat_def fcall_ok_def blank_fcall_def readable_def MAXWELEM_def)
  from convS2M_size_wraps [OF this, of 64 ?ap] have "convS2M ?f ?ap 64 = Inl Efault"
    by (simp add: length_frame bs)
  with c show ?thesis
    by (intro exI [of _ ?f] exI [of _ ?ap] exI [of _ "64 :: u32"]) simp
qed

end
