(* ===== verification/ConvM2S.thy ===== *)
theory ConvM2S
  imports ConvS2M
begin

text \<open>
  The 9P message decoder, \<open>libc/9sys/convM2S.c\<close>. Pointers are addresses of the 32-bit machine and
  pointer arithmetic wraps (\<open>padd\<close>); the buffer is the list of the bytes that start at the
  address \<open>ap\<close>. Reading or writing outside it is \<open>Efault\<close>. \<open>gstring\<close> rewrites the
  buffer in place (it moves a string down over its count to make room for a NUL), so the buffer is
  part of the state. The decoded \<open>Fcall\<close> holds addresses into the buffer.

  Main results: whatever the bytes, the decoder never touches memory outside the buffer; the
  size it returns is the size field of the message and is within the buffer; it inverts the
  encoder.
\<close>

subsection \<open>Definitions\<close>

definition padd :: "nat \<Rightarrow> nat \<Rightarrow> nat" where
  "padd p n = (p + n) mod 2 ^ 32"

record dst =
  dbuf :: bytes
  dp :: nat
  df :: "nat Fcall"

text \<open>\<open>rdp ap n s\<close>: the \<open>n\<close> bytes at the current pointer; \<open>need ep n\<close>: the test
  \<open>if(p+n > ep) return 0\<close>.\<close>

definition rdp :: "nat \<Rightarrow> nat \<Rightarrow> dst \<Rightarrow> bytes outcome" where
  "rdp ap n s = (if ap \<le> dp s then rdbytes (dp s - ap) n (dbuf s) else Inl Efault)"

definition need :: "nat \<Rightarrow> nat \<Rightarrow> dst stmt" where
  "need ep n s = (if padd (dp s) n > ep then Inr (Stop s) else Inr (Go s))"

definition get8 :: "nat \<Rightarrow> ((byte \<Rightarrow> byte) \<Rightarrow> nat Fcall \<Rightarrow> nat Fcall) \<Rightarrow> dst stmt" where
  "get8 ap upd s = andthen (rdp ap 1 s)
     (\<lambda>bs. Inr (Go (s\<lparr>df := upd (\<lambda>_. gbit8 bs) (df s), dp := padd (dp s) 1\<rparr>)))"

definition get16 :: "nat \<Rightarrow> ((u16 \<Rightarrow> u16) \<Rightarrow> nat Fcall \<Rightarrow> nat Fcall) \<Rightarrow> dst stmt" where
  "get16 ap upd s = andthen (rdp ap 2 s)
     (\<lambda>bs. Inr (Go (s\<lparr>df := upd (\<lambda>_. gbit16 bs) (df s), dp := padd (dp s) 2\<rparr>)))"

definition get32 :: "nat \<Rightarrow> ((u32 \<Rightarrow> u32) \<Rightarrow> nat Fcall \<Rightarrow> nat Fcall) \<Rightarrow> dst stmt" where
  "get32 ap upd s = andthen (rdp ap 4 s)
     (\<lambda>bs. Inr (Go (s\<lparr>df := upd (\<lambda>_. gbit32 bs) (df s), dp := padd (dp s) 4\<rparr>)))"

definition get64 :: "nat \<Rightarrow> ((u64 \<Rightarrow> u64) \<Rightarrow> nat Fcall \<Rightarrow> nat Fcall) \<Rightarrow> dst stmt" where
  "get64 ap upd s = andthen (rdp ap 8 s)
     (\<lambda>bs. Inr (Go (s\<lparr>df := upd (\<lambda>_. gbit64 bs) (df s), dp := padd (dp s) 8\<rparr>)))"

text \<open>
  \<open>gstring\<close>: \<open>nil\<close> (here \<open>Stop\<close>, as every caller then leaves the \<open>switch\<close> and
  returns 0) if the count or the string would reach beyond \<open>ep\<close>.
\<close>

definition gstring :: "nat \<Rightarrow> nat \<Rightarrow> ((nat \<Rightarrow> nat) \<Rightarrow> nat Fcall \<Rightarrow> nat Fcall) \<Rightarrow> dst stmt" where
  "gstring ap ep upd s =
     (if padd (dp s) 2 > ep then Inr (Stop s)
      else andthen (rdp ap 2 s) (\<lambda>bs.
        let n = unat (gbit16 bs); p = padd (dp s) 1 in
        if padd p (n + 1) > ep then Inr (Stop s)
        else if p < ap then Inl Efault
        else andthen (rdbytes (p + 1 - ap) n (dbuf s)) (\<lambda>str.
             andthen (blit str (p - ap) (dbuf s)) (\<lambda>buf1.
             andthen (blit [0] (p + n - ap) buf1) (\<lambda>buf2.
               Inr (Go (s\<lparr>dbuf := buf2, df := upd (\<lambda>_. p) (df s), dp := padd p (n + 1)\<rparr>)))))))"

definition gqid :: "nat \<Rightarrow> nat \<Rightarrow> ((Qid \<Rightarrow> Qid) \<Rightarrow> nat Fcall \<Rightarrow> nat Fcall) \<Rightarrow> dst stmt" where
  "gqid ap ep upd s =
     (if padd (dp s) QIDSZ > ep then Inr (Stop s)
      else andthen (rdp ap QIDSZ s) (\<lambda>bs.
        Inr (Go (s\<lparr>df := upd (\<lambda>_. \<lparr>qpath = gbit64 (drop 5 bs), qvers = gbit32 (take 4 (drop 1 bs)),
                                    qtype = gbit8 bs\<rparr>) (df s),
                   dp := padd (dp s) QIDSZ\<rparr>))))"

text \<open>\<open>p+n > ep\<close> with a count from the message, then \<open>f->data = p; p += n\<close>.\<close>

definition gdata :: "nat \<Rightarrow> (nat Fcall \<Rightarrow> nat) \<Rightarrow> ((nat \<Rightarrow> nat) \<Rightarrow> nat Fcall \<Rightarrow> nat Fcall) \<Rightarrow> dst stmt" where
  "gdata ep n upd s =
     (if padd (dp s) (n (df s)) > ep then Inr (Stop s)
      else Inr (Go (s\<lparr>df := upd (\<lambda>_. dp s) (df s), dp := padd (dp s) (n (df s))\<rparr>)))"

definition wname_at :: "nat \<Rightarrow> (nat \<Rightarrow> nat) \<Rightarrow> nat Fcall \<Rightarrow> nat Fcall" where
  "wname_at i g f = f\<lparr>wname := (wname f)[i := g (wname f ! i)]\<rparr>"

definition wqid_at :: "nat \<Rightarrow> (Qid \<Rightarrow> Qid) \<Rightarrow> nat Fcall \<Rightarrow> nat Fcall" where
  "wqid_at i g f = f\<lparr>wqid := (wqid f)[i := g (wqid f ! i)]\<rparr>"

definition m2s_names :: "nat \<Rightarrow> nat \<Rightarrow> dst stmt" where
  "m2s_names ap ep s =
     (if unat (nwname (df s)) > MAXWELEM then Inr (Stop s)
      else loop (unat (nwname (df s))) (\<lambda>i. if i < MAXWELEM then gstring ap ep (wname_at i) else (\<lambda>_. Inl Efault)) s)"

definition m2s_qids :: "nat \<Rightarrow> nat \<Rightarrow> dst stmt" where
  "m2s_qids ap ep s =
     (if unat (nwqid (df s)) > MAXWELEM then Inr (Stop s)
      else loop (unat (nwqid (df s))) (\<lambda>i. if i < MAXWELEM then gqid ap ep (wqid_at i) else (\<lambda>_. Inl Efault)) s)"

definition m2s_T :: "nat \<Rightarrow> nat \<Rightarrow> byte \<Rightarrow> dst stmt list option" where
  "m2s_T ap ep t =
    (if t = Tversion then
       Some [need ep 4, get32 ap msize_update, gstring ap ep version_update]
     else if t = Tflush then Some [need ep 2, get16 ap oldtag_update]
     else if t = Tauth then
       Some [need ep 4, get32 ap afid_update, gstring ap ep uname_update, gstring ap ep aname_update]
     else if t = Tattach then
       Some [need ep 4, get32 ap fid_update, need ep 4, get32 ap afid_update,
             gstring ap ep uname_update, gstring ap ep aname_update]
     else if t = Twalk then
       Some [need ep 10, get32 ap fid_update, get32 ap newfid_update, get16 ap nwname_update,
             m2s_names ap ep]
     else if t = Topen then Some [need ep 5, get32 ap fid_update, get8 ap mode_update]
     else if t = Tcreate then
       Some [need ep 4, get32 ap fid_update, gstring ap ep fname_update, need ep 5,
             get32 ap perm_update, get8 ap mode_update]
     else if t = Tread then
       Some [need ep 16, get32 ap fid_update, get64 ap offset_update, get32 ap count_update]
     else if t = Twrite then
       Some [need ep 16, get32 ap fid_update, get64 ap offset_update, get32 ap count_update,
             gdata ep (\<lambda>f. unat (count f)) fdata_update]
     else if t = Tclunk \<or> t = Tremove then Some [need ep 4, get32 ap fid_update]
     else if t = Tstat then Some [need ep 4, get32 ap fid_update]
     else if t = Twstat then
       Some [need ep 6, get32 ap fid_update, get16 ap nstat_update,
             gdata ep (\<lambda>f. unat (nstat f)) fstat_update]
     else None)"

definition m2s_R :: "nat \<Rightarrow> nat \<Rightarrow> byte \<Rightarrow> dst stmt list option" where
  "m2s_R ap ep t =
    (if t = Rversion then
       Some [need ep 4, get32 ap msize_update, gstring ap ep version_update]
     else if t = Rerror then Some [gstring ap ep ename_update]
     else if t = Rflush then Some []
     else if t = Rauth then Some [gqid ap ep aqid_update]
     else if t = Rattach then Some [gqid ap ep qid_update]
     else if t = Rwalk then Some [need ep 2, get16 ap nwqid_update, m2s_qids ap ep]
     else if t = Ropen \<or> t = Rcreate then
       Some [gqid ap ep qid_update, need ep 4, get32 ap iounit_update]
     else if t = Rread then
       Some [need ep 4, get32 ap count_update, gdata ep (\<lambda>f. unat (count f)) fdata_update]
     else if t = Rwrite then Some [need ep 4, get32 ap count_update]
     else if t = Rclunk \<or> t = Rremove then Some []
     else if t = Rstat then
       Some [need ep 2, get16 ap nstat_update, gdata ep (\<lambda>f. unat (nstat f)) fstat_update]
     else if t = Rwstat then Some []
     else None)"

definition m2s_switch :: "nat \<Rightarrow> nat \<Rightarrow> dst stmt" where
  "m2s_switch ap ep s =
     (case m2s_T ap ep (ftype (df s)) of
        Some cs \<Rightarrow> run cs s
      | None \<Rightarrow> (case m2s_R ap ep (ftype (df s)) of Some cs \<Rightarrow> run cs s | None \<Rightarrow> Inr (Stop s)))"

text \<open>\<open>convM2S ap buf nap f\<close>: the value of the C function, the \<open>Fcall\<close> and the buffer
  it leaves.\<close>

definition convM2S :: "nat \<Rightarrow> bytes \<Rightarrow> u32 \<Rightarrow> nat Fcall \<Rightarrow> (nat \<times> nat Fcall \<times> bytes) outcome" where
  "convM2S ap buf nap f =
    (let ep = padd ap (unat nap) in
     if padd ap 7 > ep then Inr (0, f, buf)
     else andthen (rdbytes 0 4 buf) (\<lambda>bs.
       let size = unat (gbit32 bs) in
       if size < 7 then Inr (0, f, buf)
       else andthen (run [get8 ap ftype_update, get16 ap tag_update, m2s_switch ap ep]
                       \<lparr>dbuf = buf, dp = padd ap 4, df = f\<rparr>)
         (\<lambda>r. case r of
            Stop s \<Rightarrow> Inr (0, df s, dbuf s)
          | Go s \<Rightarrow> if dp s > ep then Inr (0, df s, dbuf s)
                    else if padd ap size = dp s then Inr (size, df s, dbuf s)
                    else Inr (0, df s, dbuf s))))"


text \<open>The test against \<open>MAXWELEM\<close> keeps the loops within the arrays \<open>wname\<close> and \<open>wqid\<close>.\<close>

lemma loop_below: "n \<le> k \<Longrightarrow> loop n (\<lambda>i. if i < k then c i else d i) = loop n c"
  unfolding loop_def by (rule arg_cong [of _ _ run]) (simp add: map_eq_conv)

lemma m2s_names_eq:
  "m2s_names ap ep s = (if unat (nwname (df s)) > MAXWELEM then Inr (Stop s)
     else loop (unat (nwname (df s))) (\<lambda>i. gstring ap ep (wname_at i)) s)"
  by (simp add: m2s_names_def loop_below)

lemma m2s_qids_eq:
  "m2s_qids ap ep s = (if unat (nwqid (df s)) > MAXWELEM then Inr (Stop s)
     else loop (unat (nwqid (df s))) (\<lambda>i. gqid ap ep (wqid_at i)) s)"
  by (simp add: m2s_qids_def loop_below)


subsection \<open>The statements of the decoder read their bytes\<close>

lemma padd_small: "p + n < 2 ^ 32 \<Longrightarrow> padd p n = p + n"
  by (simp add: padd_def)

text \<open>The window \<open>[ap, ep)\<close> the decoder may look at: inside the buffer and clear of the end of
  the address space.\<close>

definition window :: "nat \<Rightarrow> nat \<Rightarrow> bytes \<Rightarrow> bool" where
  "window ap ep buf \<longleftrightarrow> ap \<le> ep \<and> ep - ap \<le> length buf \<and> ep + 2 ^ 17 < 2 ^ 32"

definition reads :: "nat \<Rightarrow> nat \<Rightarrow> dst stmt \<Rightarrow> bytes \<Rightarrow> bytes \<Rightarrow> (nat \<Rightarrow> nat Fcall \<Rightarrow> nat Fcall) \<Rightarrow> bool" where
  "reads ap ep c bs bs' u \<longleftrightarrow> length bs' = length bs \<and>
     (\<forall>d r f. ap + length d + length bs \<le> ep \<longrightarrow> window ap ep (d @ bs @ r) \<longrightarrow>
        c \<lparr>dbuf = d @ bs @ r, dp = ap + length d, df = f\<rparr> =
        Inr (Go \<lparr>dbuf = d @ bs' @ r, dp = ap + length d + length bs, df = u (ap + length d) f\<rparr>))"

lemma readsI:
  assumes "length bs' = length bs"
    and "\<And>d r f. ap + length d + length bs \<le> ep \<Longrightarrow> window ap ep (d @ bs @ r) \<Longrightarrow>
        c \<lparr>dbuf = d @ bs @ r, dp = ap + length d, df = f\<rparr> =
        Inr (Go \<lparr>dbuf = d @ bs' @ r, dp = ap + length d + length bs, df = u (ap + length d) f\<rparr>)"
  shows "reads ap ep c bs bs' u"
  using assms by (simp add: reads_def)

lemma readsD:
  assumes "reads ap ep c bs bs' u" "ap + length d + length bs \<le> ep" "window ap ep (d @ bs @ r)"
  shows "c \<lparr>dbuf = d @ bs @ r, dp = ap + length d, df = f\<rparr> =
     Inr (Go \<lparr>dbuf = d @ bs' @ r, dp = ap + length d + length bs, df = u (ap + length d) f\<rparr>)"
  using assms by (simp add: reads_def)

lemma reads_Nil: "reads ap ep (run []) [] [] (\<lambda>p f. f)"
  by (simp add: reads_def)

lemma reads_Cons:
  assumes c: "reads ap ep c a a' u" and cs: "reads ap ep (run cs) b b' v"
  shows "reads ap ep (run (c # cs)) (a @ b) (a' @ b') (\<lambda>p f. v (p + length a) (u p f))"
proof (rule readsI)
  show "length (a' @ b') = length (a @ b)"
    using c cs by (simp add: reads_def)
next
  fix d r :: bytes and f
  assume le: "ap + length d + length (a @ b) \<le> ep" and w: "window ap ep (d @ (a @ b) @ r)"
  have la: "length a' = length a"
    using c by (simp add: reads_def)
  have "c \<lparr>dbuf = d @ a @ (b @ r), dp = ap + length d, df = f\<rparr> =
      Inr (Go \<lparr>dbuf = d @ a' @ (b @ r), dp = ap + length d + length a, df = u (ap + length d) f\<rparr>)"
    by (rule readsD [OF c]) (use le w in simp_all)
  moreover have "run cs \<lparr>dbuf = (d @ a') @ b @ r, dp = ap + length (d @ a'), df = u (ap + length d) f\<rparr> =
      Inr (Go \<lparr>dbuf = (d @ a') @ b' @ r, dp = ap + length (d @ a') + length b,
               df = v (ap + length (d @ a')) (u (ap + length d) f)\<rparr>)"
    by (rule readsD [OF cs]) (use le w la in \<open>simp_all add: window_def\<close>)
  ultimately show "run (c # cs) \<lparr>dbuf = d @ (a @ b) @ r, dp = ap + length d, df = f\<rparr> =
      Inr (Go \<lparr>dbuf = d @ (a' @ b') @ r, dp = ap + length d + length (a @ b),
               df = v (ap + length d + length a) (u (ap + length d) f)\<rparr>)"
    using la by (simp add: add.assoc)
qed

lemma reads_single: "reads ap ep c a a' u \<Longrightarrow> reads ap ep (run [c]) a a' u"
  using reads_Cons [OF _ reads_Nil, of ap ep c a a' u] by simp

lemma reads_need:
  "reads ap ep (run cs) b b' v \<Longrightarrow> n \<le> length b \<Longrightarrow> n < 2 ^ 17 \<Longrightarrow> reads ap ep (run (need ep n # cs)) b b' v"
  unfolding reads_def by (auto simp: need_def padd_small window_def)

lemma rdp_at:
  "length bs = n \<Longrightarrow> rdp ap n \<lparr>dbuf = d @ bs @ r, dp = ap + length d, df = f\<rparr> = Inr bs"
  by (simp add: rdp_def rdbytes_def bslice_def)

lemma reads_get8: "reads ap ep (get8 ap upd) (pbit8 v) (pbit8 v) (\<lambda>p. upd (\<lambda>_. v))"
  by (rule readsI) (auto simp: get8_def rdp_at padd_small window_def)

lemma reads_get16: "reads ap ep (get16 ap upd) (pbit16 v) (pbit16 v) (\<lambda>p. upd (\<lambda>_. v))"
  by (rule readsI) (auto simp: get16_def rdp_at padd_small window_def)

lemma reads_get32: "reads ap ep (get32 ap upd) (pbit32 v) (pbit32 v) (\<lambda>p. upd (\<lambda>_. v))"
  by (rule readsI) (auto simp: get32_def rdp_at padd_small window_def)

lemma reads_get64: "reads ap ep (get64 ap upd) (pbit64 v) (pbit64 v) (\<lambda>p. upd (\<lambda>_. v))"
  by (rule readsI) (auto simp: get64_def rdp_at padd_small window_def)

lemma reads_gqid: "reads ap ep (gqid ap ep upd) (qid_bytes q) (qid_bytes q) (\<lambda>p. upd (\<lambda>_. q))"
proof (rule readsI)
  fix d r :: bytes and f
  assume le: "ap + length d + length (qid_bytes q) \<le> ep" and w: "window ap ep (d @ qid_bytes q @ r)"
  have "gbit64 (drop 5 (qid_bytes q)) = qpath q" "gbit32 (take 4 (drop 1 (qid_bytes q))) = qvers q"
    "gbit8 (qid_bytes q) = qtype q"
    by (simp_all add: qid_bytes_def pbit8_def gbit8_def)
  with le w show "gqid ap ep upd \<lparr>dbuf = d @ qid_bytes q @ r, dp = ap + length d, df = f\<rparr> =
       Inr (Go \<lparr>dbuf = d @ qid_bytes q @ r, dp = ap + length d + length (qid_bytes q), df = upd (\<lambda>_. q) f\<rparr>)"
    by (cases q) (simp add: gqid_def rdp_at padd_small window_def QIDSZ_def)
qed simp

lemma drop_length_Cons: "\<exists>z. drop (length xs) (x # xs) = [z]"
  by (induction xs arbitrary: x) auto

lemma reads_gstring:
  assumes "length s < 2 ^ 16"
  shows "reads ap ep (gstring ap ep upd) (str_bytes s) (ucast (of_nat (length s) :: u16) # s @ [0])
     (\<lambda>p. upd (\<lambda>_. p + 1))"
proof (rule readsI)
  fix d r :: bytes and f
  let ?lo = "ucast (of_nat (length s) :: u16) :: byte"
  let ?hi = "ucast (drop_bit 8 (of_nat (length s) :: u16)) :: byte"
  assume le: "ap + length d + length (str_bytes s) \<le> ep" and w: "window ap ep (d @ str_bytes s @ r)"
  have n: "unat (of_nat (length s) :: u16) = length s"
    using assms by (simp add: unat_of_nat take_bit_nat_eq_self)
  have rd: "rdp ap 2 \<lparr>dbuf = d @ str_bytes s @ r, dp = ap + length d, df = f\<rparr> = Inr (pbit16 (of_nat (length s)))"
    by (simp add: rdp_def rdbytes_def bslice_def str_bytes_def)
  have p1: "padd (ap + length d) 2 = ap + length d + 2" "padd (ap + length d) 1 = ap + length d + 1"
    "padd (ap + length d + 1) (length s + 1) = ap + length d + length s + 2"
    using le w by (simp_all add: padd_small window_def)
  have rs: "rdbytes (length d + 2) (length s) (d @ str_bytes s @ r) = Inr s"
    by (simp add: rdbytes_def bslice_def str_bytes_def)
  have b1: "blit s (length d + 1) (d @ str_bytes s @ r) =
      Inr (d @ ?lo # s @ drop (length d + 1 + length s) (d @ str_bytes s @ r))"
    by (simp add: blit_def str_bytes_def pbit16_def)
  have dr: "drop (length d + 1 + length s) (d @ str_bytes s @ r) = drop (length s) (?hi # s) @ r"
    using drop_append [of "length s" "?hi # s" r]
    by (simp add: str_bytes_def pbit16_def)
  from drop_length_Cons [of s ?hi] obtain z where z: "drop (length s) (?hi # s) = [z]" ..
  have b2: "blit [0] (length d + 1 + length s) (d @ ?lo # s @ [z] @ r) = Inr (d @ ?lo # s @ 0 # r)"
    by (simp add: blit_def)
  show "gstring ap ep upd \<lparr>dbuf = d @ str_bytes s @ r, dp = ap + length d, df = f\<rparr> =
      Inr (Go \<lparr>dbuf = d @ (?lo # s @ [0]) @ r, dp = ap + length d + length (str_bytes s),
               df = upd (\<lambda>_. ap + length d + 1) f\<rparr>)"
    using le b1 b2 rs p1 n rd dr z by (simp add: gstring_def Let_def ac_simps)
qed simp


lemma reads_append:
  "reads ap ep (run xs) a a' u \<Longrightarrow> reads ap ep (run ys) b b' v \<Longrightarrow>
   reads ap ep (run (xs @ ys)) (a @ b) (a' @ b') (\<lambda>p f. v (p + length a) (u p f))"
proof -
  assume "reads ap ep (run xs) a a' u" "reads ap ep (run ys) b b' v"
  then have "reads ap ep (run [run xs, run ys]) (a @ b) (a' @ b') (\<lambda>p f. v (p + length a) (u p f))"
    by (intro reads_Cons reads_single)
  moreover have "run [run xs, run ys] = run (xs @ ys)"
    by (rule ext) (simp add: run_append run_single)
  ultimately show ?thesis by simp
qed

text \<open>A count from the message and the data it counts.\<close>

lemma reads_count_data:
  assumes "length d < 2 ^ 32"
  shows "reads ap ep (run [get32 ap count_update, gdata ep (\<lambda>f. unat (count f)) fdata_update])
     (pbit32 (of_nat (length d)) @ d) (pbit32 (of_nat (length d)) @ d)
     (\<lambda>p f. f\<lparr>count := of_nat (length d), fdata := p + 4\<rparr>)"
  using assms
  by (intro readsI) (auto simp: get32_def rdp_at gdata_def padd_small window_def unat_of_nat take_bit_nat_eq_self)

lemma reads_nstat_data:
  assumes "length d < 2 ^ 16"
  shows "reads ap ep (run [get16 ap nstat_update, gdata ep (\<lambda>f. unat (nstat f)) fstat_update])
     (pbit16 (of_nat (length d)) @ d) (pbit16 (of_nat (length d)) @ d)
     (\<lambda>p f. f\<lparr>nstat := of_nat (length d), fstat := p + 2\<rparr>)"
  using assms
  by (intro readsI) (auto simp: get16_def rdp_at gdata_def padd_small window_def unat_of_nat take_bit_nat_eq_self)


text \<open>The counted lists of \<open>Twalk\<close> and \<open>Rwalk\<close>.\<close>

definition str_nul :: "bytes \<Rightarrow> bytes" where
  "str_nul s = ucast (of_nat (length s) :: u16) # s @ [0]"

fun put_names :: "nat \<Rightarrow> nat \<Rightarrow> bytes list \<Rightarrow> nat Fcall \<Rightarrow> nat Fcall" where
  "put_names i p [] f = f"
| "put_names i p (s # ns) f =
     put_names (Suc i) (p + length (str_bytes s)) ns (wname_at i (\<lambda>_. p + 1) f)"

fun put_qids :: "nat \<Rightarrow> Qid list \<Rightarrow> nat Fcall \<Rightarrow> nat Fcall" where
  "put_qids i [] f = f"
| "put_qids i (q # qs) f = put_qids (Suc i) qs (wqid_at i (\<lambda>_. q) f)"

lemma length_str_nul [simp]: "length (str_nul s) = 2 + length s"
  by (simp add: str_nul_def)

lemma reads_names:
  assumes "list_all wf_str ns"
  shows "reads ap ep (run (map (\<lambda>i. gstring ap ep (wname_at i)) [i..<i + length ns]))
     (concat (map str_bytes ns)) (concat (map str_nul ns)) (\<lambda>p. put_names i p ns)"
  using assms
proof (induction ns arbitrary: i)
  case Nil
  then show ?case by (simp add: reads_def)
next
  case (Cons s ns)
  have g: "reads ap ep (gstring ap ep (wname_at i)) (str_bytes s) (str_nul s) (\<lambda>p. wname_at i (\<lambda>_. p + 1))"
    unfolding str_nul_def by (rule reads_gstring) (use Cons.prems in \<open>simp add: wf_str_def\<close>)
  have "[i..<i + length (s # ns)] = i # [Suc i..<Suc i + length ns]"
    by (subst upt_conv_Cons) simp_all
  then show ?case
    using reads_Cons [OF g Cons.IH [of "Suc i"]] Cons.prems by (simp del: run.simps upt_Suc)
qed

lemma reads_qids:
  "reads ap ep (run (map (\<lambda>i. gqid ap ep (wqid_at i)) [i..<i + length qs]))
     (concat (map qid_bytes qs)) (concat (map qid_bytes qs)) (\<lambda>p. put_qids i qs)"
proof (induction qs arbitrary: i)
  case Nil
  then show ?case by (simp add: reads_def)
next
  case (Cons q qs)
  have "[i..<i + length (q # qs)] = i # [Suc i..<Suc i + length qs]"
    by (subst upt_conv_Cons) simp_all
  then show ?case
    using reads_Cons [OF reads_gqid Cons.IH [of "Suc i"], of "wqid_at i" q]
    by (simp del: run.simps upt_Suc)
qed

lemma put_names_frame [simp]:
  "ftype (put_names i p ns f) = ftype f" "tag (put_names i p ns f) = tag f"
  "fid (put_names i p ns f) = fid f" "newfid (put_names i p ns f) = newfid f"
  "nwname (put_names i p ns f) = nwname f" "length (wname (put_names i p ns f)) = length (wname f)"
  by (induction i p ns f rule: put_names.induct) (simp_all add: wname_at_def)

lemma put_qids_frame [simp]:
  "ftype (put_qids i qs f) = ftype f" "tag (put_qids i qs f) = tag f"
  "nwqid (put_qids i qs f) = nwqid f" "length (wqid (put_qids i qs f)) = length (wqid f)"
  by (induction i qs f rule: put_qids.induct) (simp_all add: wqid_at_def)

lemma put_names_below: "j < i \<Longrightarrow> wname (put_names i p ns f) ! j = wname f ! j"
  by (induction i p ns f rule: put_names.induct) (simp_all add: wname_at_def)

lemma put_qids_below: "j < i \<Longrightarrow> wqid (put_qids i qs f) ! j = wqid f ! j"
  by (induction i qs f rule: put_qids.induct) (simp_all add: wqid_at_def)

lemma put_qids_view:
  "i + length qs \<le> length (wqid f) \<Longrightarrow> take (length qs) (drop i (wqid (put_qids i qs f))) = qs"
proof (induction i qs f rule: put_qids.induct)
  case (2 i q qs f)
  have "wqid (put_qids (Suc i) qs (wqid_at i (\<lambda>_. q) f)) ! i = q"
    using 2 by (simp add: put_qids_below wqid_at_def)
  with 2 show ?case by (simp add: wqid_at_def flip: Cons_nth_drop_Suc)
qed simp

definition view_str :: "nat \<Rightarrow> bytes \<Rightarrow> nat \<Rightarrow> bytes" where
  "view_str ap buf p = cstr (drop (p - ap) buf)"

definition view_dat :: "nat \<Rightarrow> bytes \<Rightarrow> nat \<Rightarrow> nat \<Rightarrow> bytes" where
  "view_dat ap buf p n = bslice (p - ap) n buf"

lemma put_names_view:
  assumes "i + length ns \<le> length (wname f)" "list_all wf_str ns" "p = ap + length d"
  shows "map (view_str ap (d @ concat (map str_nul ns) @ r))
           (take (length ns) (drop i (wname (put_names i p ns f)))) = ns"
  using assms
proof (induction i p ns f arbitrary: d rule: put_names.induct)
  case (2 i p s ns f)
  let ?f = "put_names (Suc i) (p + length (str_bytes s)) ns (wname_at i (\<lambda>_. p + 1) f)"
  have "wname ?f ! i = p + 1"
    using 2 by (simp add: put_names_below wname_at_def)
  moreover have "view_str ap (d @ concat (map str_nul (s # ns)) @ r) (p + 1) = s"
    using 2 by (simp add: view_str_def str_nul_def wf_str_def)
  moreover have "map (view_str ap ((d @ str_nul s) @ concat (map str_nul ns) @ r))
     (take (length ns) (drop (Suc i) (wname ?f))) = ns"
    by (rule "2.IH") (use 2 in \<open>simp_all add: wname_at_def\<close>)
  ultimately show ?case
    using 2 by (simp add: wname_at_def flip: Cons_nth_drop_Suc)
qed simp


lemma reads_nwname:
  assumes "length ns \<le> MAXWELEM" "list_all wf_str ns"
  shows "reads ap ep (run [get16 ap nwname_update, m2s_names ap ep])
     (pbit16 (of_nat (length ns)) @ concat (map str_bytes ns))
     (pbit16 (of_nat (length ns)) @ concat (map str_nul ns))
     (\<lambda>p f. put_names 0 (p + 2) ns (f\<lparr>nwname := of_nat (length ns)\<rparr>))"
proof (rule readsI)
  show "length (pbit16 (of_nat (length ns)) @ concat (map str_nul ns)) =
      length (pbit16 (of_nat (length ns)) @ concat (map str_bytes ns))"
    using reads_names [OF assms(2), of ap ep 0] by (simp add: reads_def)
next
  fix d r :: bytes and f
  let ?n = "of_nat (length ns) :: u16"
  assume le: "ap + length d + length (pbit16 ?n @ concat (map str_bytes ns)) \<le> ep"
    and w: "window ap ep (d @ (pbit16 ?n @ concat (map str_bytes ns)) @ r)"
  have n: "unat ?n = length ns"
    using assms(1) by (simp add: unat_of_nat MAXWELEM_def)
  have "get16 ap nwname_update \<lparr>dbuf = d @ pbit16 ?n @ (concat (map str_bytes ns) @ r), dp = ap + length d, df = f\<rparr>
      = Inr (Go \<lparr>dbuf = d @ pbit16 ?n @ (concat (map str_bytes ns) @ r), dp = ap + length d + length (pbit16 ?n),
                 df = nwname_update (\<lambda>_. ?n) f\<rparr>)"
    by (rule readsD [OF reads_get16]) (use le w in simp_all)
  moreover have "run (map (\<lambda>i. gstring ap ep (wname_at i)) [0..<0 + length ns])
      \<lparr>dbuf = (d @ pbit16 ?n) @ concat (map str_bytes ns) @ r, dp = ap + length (d @ pbit16 ?n), df = nwname_update (\<lambda>_. ?n) f\<rparr>
      = Inr (Go \<lparr>dbuf = (d @ pbit16 ?n) @ concat (map str_nul ns) @ r,
           dp = ap + length (d @ pbit16 ?n) + length (concat (map str_bytes ns)),
           df = put_names 0 (ap + length (d @ pbit16 ?n)) ns (nwname_update (\<lambda>_. ?n) f)\<rparr>)"
    by (rule readsD [OF reads_names [OF assms(2)]]) (use le w in simp_all)
  ultimately show "run [get16 ap nwname_update, m2s_names ap ep]
      \<lparr>dbuf = d @ (pbit16 ?n @ concat (map str_bytes ns)) @ r, dp = ap + length d, df = f\<rparr> =
      Inr (Go \<lparr>dbuf = d @ (pbit16 ?n @ concat (map str_nul ns)) @ r,
          dp = ap + length d + length (pbit16 ?n @ concat (map str_bytes ns)),
          df = put_names 0 (ap + length d + 2) ns (f\<lparr>nwname := ?n\<rparr>)\<rparr>)"
    using assms(1) n by (simp add: m2s_names_eq loop_def add.assoc)
qed

lemma reads_nwqid:
  assumes "length qs \<le> MAXWELEM"
  shows "reads ap ep (run [get16 ap nwqid_update, m2s_qids ap ep])
     (pbit16 (of_nat (length qs)) @ concat (map qid_bytes qs))
     (pbit16 (of_nat (length qs)) @ concat (map qid_bytes qs))
     (\<lambda>p f. put_qids 0 qs (f\<lparr>nwqid := of_nat (length qs)\<rparr>))"
proof (rule readsI)
  fix d r :: bytes and f
  let ?n = "of_nat (length qs) :: u16"
  assume le: "ap + length d + length (pbit16 ?n @ concat (map qid_bytes qs)) \<le> ep"
    and w: "window ap ep (d @ (pbit16 ?n @ concat (map qid_bytes qs)) @ r)"
  have n: "unat ?n = length qs"
    using assms(1) by (simp add: unat_of_nat MAXWELEM_def)
  have "get16 ap nwqid_update \<lparr>dbuf = d @ pbit16 ?n @ (concat (map qid_bytes qs) @ r), dp = ap + length d, df = f\<rparr>
      = Inr (Go \<lparr>dbuf = d @ pbit16 ?n @ (concat (map qid_bytes qs) @ r), dp = ap + length d + length (pbit16 ?n),
                 df = nwqid_update (\<lambda>_. ?n) f\<rparr>)"
    by (rule readsD [OF reads_get16]) (use le w in simp_all)
  moreover have "run (map (\<lambda>i. gqid ap ep (wqid_at i)) [0..<0 + length qs])
      \<lparr>dbuf = (d @ pbit16 ?n) @ concat (map qid_bytes qs) @ r, dp = ap + length (d @ pbit16 ?n), df = nwqid_update (\<lambda>_. ?n) f\<rparr>
      = Inr (Go \<lparr>dbuf = (d @ pbit16 ?n) @ concat (map qid_bytes qs) @ r,
           dp = ap + length (d @ pbit16 ?n) + length (concat (map qid_bytes qs)),
           df = put_qids 0 qs (nwqid_update (\<lambda>_. ?n) f)\<rparr>)"
    by (rule readsD [OF reads_qids]) (use le w in simp_all)
  ultimately show "run [get16 ap nwqid_update, m2s_qids ap ep]
      \<lparr>dbuf = d @ (pbit16 ?n @ concat (map qid_bytes qs)) @ r, dp = ap + length d, df = f\<rparr> =
      Inr (Go \<lparr>dbuf = d @ (pbit16 ?n @ concat (map qid_bytes qs)) @ r,
          dp = ap + length d + length (pbit16 ?n @ concat (map qid_bytes qs)),
          df = put_qids 0 qs (f\<lparr>nwqid := ?n\<rparr>)\<rparr>)"
    using assms(1) n by (simp add: m2s_qids_eq loop_def add.assoc)
qed simp

subsection \<open>The decoder inverts the wire format\<close>

definition m2s_stmts :: "nat \<Rightarrow> nat \<Rightarrow> byte \<Rightarrow> dst stmt list option" where
  "m2s_stmts ap ep t = (case m2s_T ap ep t of Some cs \<Rightarrow> Some cs | None \<Rightarrow> m2s_R ap ep t)"

lemma m2s_switch_stmts:
  "m2s_stmts ap ep (ftype (df s)) = Some cs \<Longrightarrow> m2s_switch ap ep s = run cs s"
  by (auto simp: m2s_stmts_def m2s_switch_def split: option.splits)

lemmas reads_stmts = reads_Nil reads_count_data reads_nstat_data reads_nwname reads_nwqid reads_need
  reads_single reads_Cons reads_get8 reads_get16 reads_get32 reads_get64 reads_gqid reads_gstring

definition decoded :: "nat \<Rightarrow> msg \<Rightarrow> bytes \<Rightarrow> (nat \<Rightarrow> nat Fcall \<Rightarrow> nat Fcall) \<Rightarrow> bool" where
  "decoded ap m b u \<longleftrightarrow> (\<forall>d r f. length (wname f) = MAXWELEM \<longrightarrow> length (wqid f) = MAXWELEM \<longrightarrow>
     ftype f = msg_type m \<longrightarrow>
     msg_of (view_str ap (d @ b @ r)) (view_dat ap (d @ b @ r)) (u (ap + length d) f) = Some m
     \<and> tag (u (ap + length d) f) = tag f)"

lemma cstr_drop_middle:
  "0 \<notin> set s \<Longrightarrow> length xs = n \<Longrightarrow> cstr (drop n (xs @ s @ 0 # r)) = s"
  by simp

lemma decoded_walk:
  assumes "list_all wf_str ns" "length ns \<le> MAXWELEM" "length (wname f) = MAXWELEM"
  shows "map (view_str ap (d @ pbit32 x @ pbit32 y @ pbit16 z @ concat (map str_nul ns) @ r))
    (take (length ns) (wname (put_names 0 (10 + (ap + length d)) ns f))) = ns"
  using put_names_view [of 0 ns f "10 + (ap + length d)" ap "d @ pbit32 x @ pbit32 y @ pbit16 z" r] assms
  by (simp add: add_ac)

lemma second_str:
  "0 \<notin> set t \<Longrightarrow> cstr (drop (3 + length s) (c # s @ 0 # c' # t @ 0 # r)) = t"
  using cstr_drop_middle [of t "c # s @ [0, c']" "3 + length s" r] by simp

lemma decoded_qids:
  "length qs \<le> MAXWELEM \<Longrightarrow> length (wqid f) = MAXWELEM \<Longrightarrow> take (length qs) (wqid (put_qids 0 qs f)) = qs"
  using put_qids_view [of 0 qs f] by simp

lemma m2s_reads:
  assumes "wf_msg m"
  shows "\<exists>cs b u. m2s_stmts ap ep (msg_type m) = Some cs \<and> reads ap ep (run cs) (msg_body m) b u
     \<and> decoded ap m b u"
  apply (insert assms, cases m;
      clarsimp simp: wf_msg_def m2s_stmts_def m2s_T_def m2s_R_def simp del: run.simps;
      ((rule exI)+, rule conjI, ((rule reads_stmts | (simp add: wf_str_def; fail))+)[1]))
  apply (simp_all add: decoded_def msg_of_def view_dat_def Let_def MAXWELEM_def
     decoded_walk [unfolded MAXWELEM_def] decoded_qids [unfolded MAXWELEM_def])
  apply (simp_all add: view_str_def wf_str_def cstr_drop_middle bslice_def)
  apply (simp_all add: second_str)
  done

lemma reads_header:
  "reads ap ep (run [get8 ap ftype_update, get16 ap tag_update]) (pbit8 ty @ pbit16 t) (pbit8 ty @ pbit16 t)
     (\<lambda>p f. f\<lparr>ftype := ty, tag := t\<rparr>)"
  using reads_Cons [OF reads_get8 [of ap ep ftype_update ty] reads_single [OF reads_get16 [of ap ep tag_update t]]]
  by simp

lemma convM2S_header:
  assumes "wf_msg m" "length (frame t m) \<le> unat nap" "unat nap \<le> length (frame t m @ r)"
    and "ap + unat nap + 2 ^ 17 < 2 ^ 32"
  shows "convM2S ap (frame t m @ r) nap f =
     andthen (m2s_switch ap (ap + unat nap) \<lparr>dbuf = frame t m @ r, dp = ap + 7, df = f\<lparr>ftype := msg_type m, tag := t\<rparr>\<rparr>)
       (\<lambda>x. case x of Stop s \<Rightarrow> Inr (0, df s, dbuf s)
          | Go s \<Rightarrow> if dp s > ap + unat nap then Inr (0, df s, dbuf s)
                    else if ap + length (frame t m) = dp s then Inr (length (frame t m), df s, dbuf s)
                    else Inr (0, df s, dbuf s))"
proof -
  let ?ep = "ap + unat nap" and ?n = "7 + length (msg_body m)"
  have n: "unat (of_nat ?n :: u32) = ?n"
    using assms by (intro unat_len) (simp add: wf_msg_def)
  have hd: "run [get8 ap ftype_update, get16 ap tag_update]
      \<lparr>dbuf = frame t m @ r, dp = ap + 4, df = f\<rparr> =
      Inr (Go \<lparr>dbuf = frame t m @ r, dp = ap + 7, df = f\<lparr>ftype := msg_type m, tag := t\<rparr>\<rparr>)"
    using readsD [OF reads_header [of ap ?ep "msg_type m" t], of "pbit32 (of_nat ?n)" "msg_body m @ r" f] assms
    by (simp add: window_def frame_def del: run.simps)
  have "rdbytes 0 4 (frame t m @ r) = Inr (pbit32 (of_nat ?n))"
    by (subst rdbytes_Inr) (simp_all add: frame_def bslice_def)
  with n hd assms show ?thesis
    using run_append [of "[get8 ap ftype_update, get16 ap tag_update]" "[m2s_switch ap ?ep]"]
    by (simp add: convM2S_def Let_def padd_small length_frame run_single
        cong: if_cong flow.case_cong del: run.simps)
qed

lemma convM2S_reads:
  assumes wf: "wf_msg m" and nap: "length (frame t m) \<le> unat nap" "unat nap \<le> length (frame t m @ r)"
    and space: "ap + unat nap + 2 ^ 17 < 2 ^ 32"
    and arrays: "length (wname f) = MAXWELEM" "length (wqid f) = MAXWELEM"
  shows "\<exists>f' b. convM2S ap (frame t m @ r) nap f = Inr (length (frame t m), f', b @ r)
     \<and> length b = length (frame t m) \<and> tag f' = t
     \<and> msg_of (view_str ap (b @ r)) (view_dat ap (b @ r)) f' = Some m"
proof -
  let ?ep = "ap + unat nap" and ?hd = "pbit32 (of_nat (7 + length (msg_body m))) @ pbit8 (msg_type m) @ pbit16 t"
  let ?f = "f\<lparr>ftype := msg_type m, tag := t\<rparr>"
  from m2s_reads [OF wf] obtain cs b u where cs: "m2s_stmts ap ?ep (msg_type m) = Some cs"
    and rd: "reads ap ?ep (run cs) (msg_body m) b u" and dec: "decoded ap m b u"
    by blast
  have lb: "length b = length (msg_body m)"
    using rd by (simp add: reads_def)
  have "run cs \<lparr>dbuf = ?hd @ msg_body m @ r, dp = ap + length ?hd, df = ?f\<rparr> =
      Inr (Go \<lparr>dbuf = ?hd @ b @ r, dp = ap + length ?hd + length (msg_body m), df = u (ap + length ?hd) ?f\<rparr>)"
    by (rule readsD [OF rd]) (use nap space in \<open>simp_all add: window_def frame_def\<close>)
  then have "convM2S ap (frame t m @ r) nap f = Inr (length (frame t m), u (ap + length ?hd) ?f, (?hd @ b) @ r)"
    using nap space cs unfolding convM2S_header [OF wf nap space]
    by (simp add: m2s_switch_stmts frame_def del: run.simps)
  moreover have "msg_of (view_str ap ((?hd @ b) @ r)) (view_dat ap ((?hd @ b) @ r)) (u (ap + length ?hd) ?f) = Some m"
    "tag (u (ap + length ?hd) ?f) = t"
    using dec [unfolded decoded_def, rule_format, of ?f ?hd r] arrays by simp_all
  ultimately show ?thesis
    using lb by (auto simp: length_frame)
qed

subsection \<open>The decoder stays in its buffer\<close>

text \<open>\<open>keeps ap ep w k j c\<close>: with \<open>k\<close> more bytes before \<open>ep\<close>, the statement \<open>c\<close> does not
  fault, keeps the size of the buffer, and if it goes on then (unless \<open>w\<close> allows the pointer to
  have wrapped) \<open>j\<close> bytes are left.\<close>

definition keeps :: "nat \<Rightarrow> nat \<Rightarrow> bool \<Rightarrow> nat \<Rightarrow> nat \<Rightarrow> dst stmt \<Rightarrow> bool" where
  "keeps ap ep w k j c \<longleftrightarrow> (\<forall>s. window ap ep (dbuf s) \<longrightarrow> ap \<le> dp s \<longrightarrow> dp s + k \<le> ep \<longrightarrow>
     (\<exists>r. c s = Inr r \<and> length (dbuf (flow_state r)) = length (dbuf s)
        \<and> (\<forall>s'. r = Go s' \<longrightarrow> w \<or> (ap \<le> dp s' \<and> dp s' + j \<le> ep))))"

lemma keepsI:
  assumes "\<And>s. window ap ep (dbuf s) \<Longrightarrow> ap \<le> dp s \<Longrightarrow> dp s + k \<le> ep \<Longrightarrow>
     \<exists>r. c s = Inr r \<and> length (dbuf (flow_state r)) = length (dbuf s)
        \<and> (\<forall>s'. r = Go s' \<longrightarrow> w \<or> (ap \<le> dp s' \<and> dp s' + j \<le> ep))"
  shows "keeps ap ep w k j c"
  using assms by (simp add: keeps_def)

lemma keepsD:
  assumes "keeps ap ep w k j c" "window ap ep (dbuf s)" "ap \<le> dp s" "dp s + k \<le> ep"
  obtains s' where "c s = Inr (Stop s')" "length (dbuf s') = length (dbuf s)"
  | s' where "c s = Inr (Go s')" "length (dbuf s') = length (dbuf s)" "w \<or> (ap \<le> dp s' \<and> dp s' + j \<le> ep)"
proof -
  from assms obtain r where "c s = Inr r" "length (dbuf (flow_state r)) = length (dbuf s)"
     "\<forall>s'. r = Go s' \<longrightarrow> w \<or> (ap \<le> dp s' \<and> dp s' + j \<le> ep)"
    by (auto simp: keeps_def)
  then show thesis
    by (cases r) (auto intro: that)
qed

lemma keeps_Nil: "keeps ap ep w k 0 (run [])"
  by (rule keepsI) auto

lemma keeps_Cons:
  assumes "keeps ap ep False k j c" "keeps ap ep w j l (run cs)"
  shows "keeps ap ep w k l (run (c # cs))"
proof (rule keepsI)
  fix s :: dst assume s: "window ap ep (dbuf s)" "ap \<le> dp s" "dp s + k \<le> ep"
  from assms(1) s show "\<exists>r. run (c # cs) s = Inr r \<and> length (dbuf (flow_state r)) = length (dbuf s)
        \<and> (\<forall>s'. r = Go s' \<longrightarrow> w \<or> (ap \<le> dp s' \<and> dp s' + l \<le> ep))"
  proof (cases rule: keepsD)
    case (2 s')
    with s assms(2) have "window ap ep (dbuf s')" "ap \<le> dp s'" "dp s' + j \<le> ep"
      by (auto simp: window_def)
    with assms(2) show ?thesis
      by (cases rule: keepsD) (use 2 in auto)
  qed auto
qed

lemma keeps_weaken: "keeps ap ep w 0 j c \<Longrightarrow> keeps ap ep w k j c"
  by (simp add: keeps_def)

lemma keeps_run: "(\<And>c. c \<in> set cs \<Longrightarrow> keeps ap ep False 0 0 c) \<Longrightarrow> keeps ap ep False k 0 (run cs)"
proof (induction cs arbitrary: k)
  case Nil
  show ?case by (rule keeps_Nil)
next
  case (Cons c cs)
  then have "keeps ap ep False k 0 c" "keeps ap ep False 0 0 (run cs)"
    by (simp_all add: keeps_weaken)
  then show ?case by (rule keeps_Cons)
qed

lemma keeps_need: "n < 2 ^ 17 \<Longrightarrow> keeps ap ep False k n (need ep n)"
  by (rule keepsI) (auto simp: need_def padd_small window_def)

lemma rdp_ok: "window ap ep (dbuf s) \<Longrightarrow> ap \<le> dp s \<Longrightarrow> dp s + n \<le> ep \<Longrightarrow> \<exists>bs. rdp ap n s = Inr bs"
  by (auto simp: rdp_def rdbytes_def window_def)

lemma keeps_get:
  "1 \<le> k \<Longrightarrow> keeps ap ep False k (k - 1) (get8 ap u8)"
  "2 \<le> k \<Longrightarrow> keeps ap ep False k (k - 2) (get16 ap u16)"
  "4 \<le> k \<Longrightarrow> keeps ap ep False k (k - 4) (get32 ap u32)"
  "8 \<le> k \<Longrightarrow> keeps ap ep False k (k - 8) (get64 ap u64)"
  by (rule keepsI, auto simp: get8_def get16_def get32_def get64_def rdp_def rdbytes_def window_def padd_small)+

lemma keeps_gqid: "keeps ap ep False k 0 (gqid ap ep upd)"
  by (rule keepsI) (auto simp: gqid_def rdp_def rdbytes_def window_def padd_small QIDSZ_def)

lemma keeps_gstring: "keeps ap ep False k 0 (gstring ap ep upd)"
proof (rule keepsI)
  fix s :: dst assume s: "window ap ep (dbuf s)" "ap \<le> dp s" "dp s + k \<le> ep"
  show "\<exists>r. gstring ap ep upd s = Inr r \<and> length (dbuf (flow_state r)) = length (dbuf s)
        \<and> (\<forall>s'. r = Go s' \<longrightarrow> False \<or> (ap \<le> dp s' \<and> dp s' + 0 \<le> ep))"
  proof (cases "dp s + 2 \<le> ep")
    case True
    with s obtain bs where bs: "rdp ap 2 s = Inr bs"
      using rdp_ok by blast
    let ?n = "unat (gbit16 bs)"
    have n: "?n < 2 ^ 16"
      by (rule unat_u16_less)
    have p: "padd (dp s) 2 = dp s + 2" "padd (dp s) 1 = dp s + 1" "padd (dp s + 1) (?n + 1) = dp s + ?n + 2"
      using s n by (simp_all add: padd_small window_def)
    show ?thesis
      using True s bs p by (auto simp: gstring_def Let_def rdbytes_def blit_def window_def)
  qed (use s in \<open>simp add: gstring_def padd_small window_def\<close>)
qed

lemma keeps_nstat: "keeps ap ep False k 0 (gdata ep (\<lambda>f. unat (nstat f)) upd)"
proof (rule keepsI)
  fix s :: dst assume s: "window ap ep (dbuf s)" "ap \<le> dp s" "dp s + k \<le> ep"
  have "unat (nstat (df s)) < 2 ^ 16"
    by (rule unat_u16_less)
  with s show "\<exists>r. gdata ep (\<lambda>f. unat (nstat f)) upd s = Inr r \<and> length (dbuf (flow_state r)) = length (dbuf s)
        \<and> (\<forall>s'. r = Go s' \<longrightarrow> False \<or> (ap \<le> dp s' \<and> dp s' + 0 \<le> ep))"
    by (auto simp: gdata_def padd_small window_def)
qed

lemma keeps_gdata: "keeps ap ep True k 0 (gdata ep n upd)"
  by (rule keepsI) (auto simp: gdata_def)

lemma keeps_names: "keeps ap ep False k 0 (m2s_names ap ep)"
proof (rule keepsI)
  fix s :: dst assume s: "window ap ep (dbuf s)" "ap \<le> dp s" "dp s + k \<le> ep"
  have "keeps ap ep False k 0 (loop (unat (nwname (df s))) (\<lambda>i. gstring ap ep (wname_at i)))"
    unfolding loop_def by (rule keeps_run) (auto simp: keeps_gstring)
  with s show "\<exists>r. m2s_names ap ep s = Inr r \<and> length (dbuf (flow_state r)) = length (dbuf s)
        \<and> (\<forall>s'. r = Go s' \<longrightarrow> False \<or> (ap \<le> dp s' \<and> dp s' + 0 \<le> ep))"
    unfolding m2s_names_eq by (simp add: keeps_def)
qed

lemma keeps_qids: "keeps ap ep False k 0 (m2s_qids ap ep)"
proof (rule keepsI)
  fix s :: dst assume s: "window ap ep (dbuf s)" "ap \<le> dp s" "dp s + k \<le> ep"
  have "keeps ap ep False k 0 (loop (unat (nwqid (df s))) (\<lambda>i. gqid ap ep (wqid_at i)))"
    unfolding loop_def by (rule keeps_run) (auto simp: keeps_gqid)
  with s show "\<exists>r. m2s_qids ap ep s = Inr r \<and> length (dbuf (flow_state r)) = length (dbuf s)
        \<and> (\<forall>s'. r = Go s' \<longrightarrow> False \<or> (ap \<le> dp s' \<and> dp s' + 0 \<le> ep))"
    unfolding m2s_qids_eq by (simp add: keeps_def)
qed

lemma keeps_count: "keeps ap ep True k 0 (run [gdata ep n upd])"
  by (simp add: run_single keeps_gdata del: run.simps)

lemmas keeps_stmts = keeps_Nil keeps_count keeps_Cons keeps_need keeps_get keeps_gqid keeps_gstring
  keeps_nstat keeps_names keeps_qids

lemma m2s_stmts_type: "m2s_stmts ap ep t = Some cs \<Longrightarrow> t \<in> set msg_types"
  by (auto simp: m2s_stmts_def m2s_T_def m2s_R_def msg_types_def split: if_splits option.splits)

lemma keeps_m2s:
  assumes "m2s_stmts ap ep t = Some cs"
  shows "keeps ap ep (t = Twrite \<or> t = Rread) 0 0 (run cs)"
  by (insert m2s_stmts_type [OF assms] assms, simp add: msg_types_def, elim disjE; clarsimp simp: m2s_stmts_def m2s_T_def m2s_R_def simp del: run.simps;
    ((rule keeps_stmts | (simp; fail))+)[1])

lemma m2s_switch_none: "m2s_stmts ap ep (ftype (df s)) = None \<Longrightarrow> m2s_switch ap ep s = Inr (Stop s)"
  by (auto simp: m2s_stmts_def m2s_switch_def split: option.splits)

lemma keeps_switch: 
  "keeps ap ep True 0 0 (m2s_switch ap ep)"
proof (rule keepsI)
  fix s :: dst assume s: "window ap ep (dbuf s)" "ap \<le> dp s" "dp s + 0 \<le> ep"
  show "\<exists>r. m2s_switch ap ep s = Inr r \<and> length (dbuf (flow_state r)) = length (dbuf s)
        \<and> (\<forall>s'. r = Go s' \<longrightarrow> True \<or> (ap \<le> dp s' \<and> dp s' + 0 \<le> ep))"
  proof (cases "m2s_stmts ap ep (ftype (df s))")
    case (Some cs)
    from keepsD [OF keeps_m2s [OF Some] s] show ?thesis
      by cases (simp_all add: m2s_switch_stmts [OF Some] del: run.simps)
  qed (simp add: m2s_switch_none)
qed

lemma m2s_switch_cases:
  assumes "window ap ep (dbuf s)" "ap \<le> dp s" "dp s \<le> ep"
  obtains s' where "m2s_switch ap ep s = Inr (Stop s')" "length (dbuf s') = length (dbuf s)"
  | s' where "m2s_switch ap ep s = Inr (Go s')" "length (dbuf s') = length (dbuf s)"
      "ftype (df s) = Twrite \<or> ftype (df s) = Rread \<or> ap \<le> dp s'"
proof (cases "m2s_stmts ap ep (ftype (df s))")
  case (Some cs)
  have "dp s + 0 \<le> ep"
    using assms by simp
  from keepsD [OF keeps_m2s [OF Some] assms(1,2) this] show thesis
    by cases (use that in \<open>auto simp: m2s_switch_stmts [OF Some] simp del: run.simps\<close>)
qed (use that in \<open>simp add: m2s_switch_none\<close>)

lemma convM2S_run:
  assumes "ap + unat nap + 2 ^ 17 < 2 ^ 32" "unat nap \<le> length buf" "7 \<le> unat nap"
  shows "\<exists>t. run [get8 ap ftype_update, get16 ap tag_update, m2s_switch ap ep] \<lparr>dbuf = buf, dp = ap + 4, df = f\<rparr>
    = m2s_switch ap ep \<lparr>dbuf = buf, dp = ap + 7, df = f\<lparr>ftype := buf ! 4, tag := t\<rparr>\<rparr>"
proof -
  have "run [get8 ap ftype_update, get16 ap tag_update] \<lparr>dbuf = buf, dp = ap + 4, df = f\<rparr> =
      Inr (Go \<lparr>dbuf = buf, dp = ap + 7, df = f\<lparr>ftype := buf ! 4, tag := gbit16 (take 2 (drop 5 buf))\<rparr>\<rparr>)"
    using assms by (simp add: get8_def get16_def rdp_def rdbytes_def padd_small bslice_def gbit8_def)
  then show ?thesis
    using run_append [of "[get8 ap ftype_update, get16 ap tag_update]" "[m2s_switch ap ep]"]
    by (auto simp: run_single simp del: run.simps)
qed

text \<open>C2: whatever the bytes of the buffer are, the decoder never reads or writes outside the buffer. A
  non-zero result is the size field of the message, at least 7; it is at most \<open>nap\<close>, except for a
  \<open>Twrite\<close> or \<open>Rread\<close> whose count takes the data pointer past the end of the address space.\<close>

theorem convM2S_safe:
  assumes space: "ap + unat nap + 2 ^ 17 < 2 ^ 32" and nap: "unat nap \<le> length buf"
  shows "\<exists>n f' buf'. convM2S ap buf nap f = Inr (n, f', buf') \<and> length buf' = length buf
     \<and> (n \<noteq> 0 \<longrightarrow> 7 \<le> n \<and> n = unat (gbit32 (take 4 buf))
           \<and> (n \<le> unat nap \<or> (buf ! 4 \<in> {Twrite, Rread} \<and> 2 ^ 32 \<le> ap + n)))"
proof -
  let ?ep = "ap + unat nap" and ?n = "unat (gbit32 (take 4 buf))"
  have ep: "padd ap (unat nap) = ?ep" "padd ap 7 = ap + 7" "padd ap 4 = ap + 4"
    using space by (simp_all add: padd_small)
  have n: "?n < 2 ^ 32"
    by (rule unat_u32_less)
  show ?thesis
  proof (cases "7 \<le> unat nap \<and> 7 \<le> ?n")
    case True
    then obtain t where run: "run [get8 ap ftype_update, get16 ap tag_update, m2s_switch ap ?ep] \<lparr>dbuf = buf, dp = ap + 4, df = f\<rparr>
    = m2s_switch ap ?ep \<lparr>dbuf = buf, dp = ap + 7, df = f\<lparr>ftype := buf ! 4, tag := t\<rparr>\<rparr>"
      using convM2S_run [OF space nap] by blast
    let ?s = "\<lparr>dbuf = buf, dp = ap + 7, df = f\<lparr>ftype := buf ! 4, tag := t\<rparr>\<rparr>"
    have rd: "rdbytes 0 4 buf = Inr (take 4 buf)"
      using True nap by (simp add: rdbytes_def bslice_def)
    have "window ap ?ep (dbuf ?s)" "ap \<le> dp ?s" "dp ?s \<le> ?ep"
      using True space nap by (simp_all add: window_def)
    then show ?thesis
    proof (cases rule: m2s_switch_cases)
      case (1 s')
      with True rd run ep show ?thesis
        by (simp add: convM2S_def del: run.simps)
    next
      case (2 s')
      have "padd ap ?n = dp s' \<Longrightarrow> if ap + ?n < 2 ^ 32 then dp s' = ap + ?n else dp s' < ap"
        using n space by (simp add: padd_def mod_if split: if_splits)
      with 2 True rd run ep n show ?thesis
        by (auto simp: convM2S_def Let_def padd_small simp del: run.simps split: if_splits)
    qed
  next
    case False
    have "rdbytes 0 4 buf = Inr (take 4 buf)" if "7 \<le> unat nap"
      using that nap by (simp add: rdbytes_def bslice_def)
    then have "convM2S ap buf nap f = Inr (0, f, buf)"
      using False ep by (cases "7 \<le> unat nap") (simp_all add: convM2S_def)
    then show ?thesis
      by simp
  qed
qed

theorem convM2S_safe_witness:
  "\<exists>n f' buf'. convM2S 4096 (replicate 20 255) 20 (blank_fcall 0) = Inr (n, f', buf') \<and> length buf' = 20"
  using convM2S_safe [of 4096 20 "replicate 20 255" "blank_fcall 0"] by auto

text \<open>C4: the test \<open>p+f->count > ep\<close> wraps: an \<open>Rread\<close> whose count takes the pointer past the end of the
  32-bit address space is accepted although the buffer does not hold its data, and the size returned
  is larger than the buffer.\<close>

theorem convM2S_wraps:
  assumes "ap + 11 + c \<ge> 2 ^ 32" "11 + c < 2 ^ 32" "11 \<le> unat nap" 
    "ap + unat nap + 2 ^ 17 < 2 ^ 32" 
    and buf: "buf = pbit32 (of_nat (11 + c)) @ pbit8 Rread @ pbit16 t @ pbit32 (of_nat c) @ r"
  shows "convM2S ap buf nap f = Inr (11 + c, f\<lparr>ftype := Rread, tag := t, count := of_nat c, fdata := ap + 11\<rparr>, buf)"
proof -
  let ?s = "\<lparr>dbuf = buf, dp = ap + 7, df = f\<lparr>ftype := Rread, tag := t\<rparr>\<rparr>"
  have c: "unat (of_nat c :: u32) = c" "unat (of_nat (11 + c) :: u32) = 11 + c"
    using assms by (intro unat_len; simp)+
  have p: "padd (11 + ap) c = ap + 11 + c - 2 ^ 32" "padd ap (11 + c) = ap + 11 + c - 2 ^ 32"
    using assms by (simp_all add: padd_def mod_if)
  have nap: "ap + 11 \<le> ap + unat nap" "ap + unat nap < 2 ^ 32 - 2 ^ 17"
    using assms by simp_all
  have rd: "rdbytes 0 4 buf = Inr (pbit32 (of_nat (11 + c)))" "rdp ap 4 ?s = Inr (pbit32 (of_nat c))"
    unfolding buf by (simp_all add: rdp_def rdbytes_def bslice_def)
  have hd: "run [get8 ap ftype_update, get16 ap tag_update] \<lparr>dbuf = buf, dp = ap + 4, df = f\<rparr> = Inr (Go ?s)"
    using nap unfolding buf
    by (simp add: get8_def get16_def rdp_def rdbytes_def padd_small bslice_def)
  have sw: "m2s_switch ap (ap + unat nap) ?s =
      Inr (Go \<lparr>dbuf = buf, dp = ap + 11 + c - 2 ^ 32, df = f\<lparr>ftype := Rread, tag := t, count := of_nat c, fdata := ap + 11\<rparr>\<rparr>)"
    using nap assms p c rd by (simp add: m2s_switch_def m2s_T_def m2s_R_def need_def padd_small get32_def gdata_def)
  show ?thesis
    using nap assms p c rd hd sw run_append [of "[get8 ap ftype_update, get16 ap tag_update]" "[m2s_switch ap (ap + unat nap)]"]
    by (simp add: convM2S_def Let_def padd_small run_single del: run.simps)
qed

theorem convM2S_wraps_witness:
  "\<exists>f' buf. length buf = 11 \<and> convM2S 4096 buf 11 (blank_fcall 0) = Inr (4294967211, f', buf)"
  using convM2S_wraps [of 4096 4294967200 11 _ 1 "[]" "blank_fcall 0", OF _ _ _ _ refl]
  by (intro exI conjI) (simp_all del: One_nat_def)

text \<open>C1: encoding a message and decoding the bytes gives the message back: the decoder returns the size
  the encoder returned, and the \<open>Fcall\<close> it fills in stands, through the pointers it stored into the
  buffer, for the same message with the same tag.\<close>

theorem convS2M_convM2S:
  assumes m: "msg_of estr edat f = Some m" and ok: "fcall_ok f" and wf: "wf_msg m"
    and nap: "length (frame (tag f) m) \<le> unat nap" "unat nap \<le> length buf"
    and space: "ap + unat nap + 2 ^ 17 < 2 ^ 32"
    and arrays: "length (wname g) = MAXWELEM" "length (wqid g) = MAXWELEM"
  shows "\<exists>buf1 n buf2 g'. convS2M f buf nap = Inr (buf1, n) \<and> convM2S ap buf1 n g = Inr (unat n, g', buf2)
     \<and> n \<noteq> 0 \<and> tag g' = tag f \<and> msg_of (view_str ap buf2) (view_dat ap buf2) g' = Some m"
proof -
  let ?fr = "frame (tag f) m" and ?n = "of_nat (length (frame (tag f) m)) :: u32"
  have small: "length ?fr < 2 ^ 32"
    using wf by (simp add: wf_msg_def length_frame)
  then have n: "unat ?n = length ?fr"
    by simp
  then have "?n \<noteq> 0"
    by (auto simp: length_frame)
  moreover have "convS2M f buf nap = Inr (?fr @ drop (length ?fr) buf, ?n)"
    using convS2M_writes [OF m ok small nap(2)] nap by simp
  moreover have "ap + unat ?n + 2 ^ 17 < 2 ^ 32"
    using space nap n by simp
  from convM2S_reads [OF wf _ _ this arrays, of "tag f" "drop (length ?fr) buf"] n
  have "\<exists>g' b. convM2S ap (?fr @ drop (length ?fr) buf) ?n g = Inr (length ?fr, g', b @ drop (length ?fr) buf)
      \<and> tag g' = tag f \<and> msg_of (view_str ap (b @ drop (length ?fr) buf)) (view_dat ap (b @ drop (length ?fr) buf)) g' = Some m"
    by auto
  ultimately show ?thesis
    using n by metis
qed

theorem convS2M_convM2S_witness:
  "let f = (blank_fcall None)\<lparr>ftype := Tcreate, tag := 3, fid := 9, fname := Some [102, 111, 111, 0], perm := 438\<rparr> in
   \<exists>buf1 n buf2 g'. convS2M f (replicate 64 0) 64 = Inr (buf1, n)
     \<and> convM2S 4096 buf1 n (blank_fcall 0) = Inr (unat n, g', buf2) \<and> n \<noteq> 0 \<and> tag g' = 3
     \<and> msg_of (view_str 4096 buf2) (view_dat 4096 buf2) g' = Some (MTcreate 9 [102, 111, 111] 438 0)"
proof -
  let ?f = "(blank_fcall None)\<lparr>ftype := Tcreate, tag := 3, fid := 9, fname := Some [102, 111, 111, 0], perm := 438\<rparr>"
  have "msg_of estr edat ?f = Some (MTcreate 9 [102, 111, 111] 438 0)" "fcall_ok ?f"
    "wf_msg (MTcreate 9 [102, 111, 111] 438 0)"
    by (simp_all add: msg_of_def blank_fcall_def estr_def cstr_def fcall_ok_def MAXWELEM_def wf_msg_def wf_str_def)
  from convS2M_convM2S [OF this, of 64 "replicate 64 0" 4096 "blank_fcall 0"] show ?thesis
    by (simp add: length_frame blank_fcall_def MAXWELEM_def)
qed

end
