(* ===== verification/ConvDir.thy ===== *)
theory ConvDir
  imports ConvM2S
begin

text \<open>
  Directory entries on the wire: \<open>libc/9sys/convD2M.c\<close> (\<open>sizeD2M\<close>, \<open>convD2M\<close>) and
  \<open>libc/9sys/convM2D.c\<close> (\<open>statcheck\<close>, \<open>convM2D\<close>). Positions are offsets from the start of the
  buffer; counts on the wire are below 64K, so no pointer sum wraps for a buffer that ends 128K below
  the top of the address space. The buffer \<open>strs\<close> of \<open>convM2D\<close> is an object of its own.

  Main results: \<open>convD2M\<close> writes the wire format of a \<open>Dir\<close> and \<open>convM2D\<close> reads it back;
  \<open>statcheck\<close> accepts exactly the wire format; after \<open>statcheck\<close>, \<open>convM2D\<close> succeeds and needs
  no more room for its strings than the message is long.
\<close>

subsection \<open>Definitions\<close>

record 'p Dir =
  dtype :: u16
  ddev :: u32
  dqid :: Qid
  dmode :: u32
  datime :: u32
  dmtime :: u32
  dlength :: u64
  dname :: 'p
  duid :: 'p
  dgid :: 'p
  dmuid :: 'p

definition STATFIXLEN :: nat where
  "STATFIXLEN = 49"

definition dir_sv :: "'p Dir \<Rightarrow> 'p list" where
  "dir_sv d = [dname d, duid d, dgid d, dmuid d]"

definition nsv :: "cptr \<Rightarrow> nat" where
  "nsv s = (case s of None \<Rightarrow> 0 | Some s \<Rightarrow> strlen s)"

definition sizeD2M :: "cptr Dir \<Rightarrow> u32" where
  "sizeD2M d = of_nat STATFIXLEN + of_nat (sum_list (map nsv (dir_sv d)))"

text \<open>One round of the loop over \<open>sv[i]\<close>; \<open>Stop\<close> is \<open>return 0\<close>.\<close>

definition d2m_str :: "nat \<Rightarrow> cptr \<Rightarrow> wst stmt" where
  "d2m_str nbuf s = (\<lambda>(buf, p).
     if p + nsv s + 2 > nbuf then Inr (Stop (buf, p))
     else run [emit (pbit16 (of_nat (nsv s))), pmem s (nsv s)] (buf, p))"

definition d2m_fields :: "cptr Dir \<Rightarrow> wst stmt list" where
  "d2m_fields d =
     [emit (pbit16 (dtype d)), emit (pbit32 (ddev d)), emit (pbit8 (qtype (dqid d))),
      emit (pbit32 (qvers (dqid d))), emit (pbit64 (qpath (dqid d))), emit (pbit32 (dmode d)),
      emit (pbit32 (datime d)), emit (pbit32 (dmtime d)), emit (pbit64 (dlength d))]"

definition convD2M :: "cptr Dir \<Rightarrow> bytes \<Rightarrow> u32 \<Rightarrow> (bytes \<times> u32) outcome" where
  "convD2M d buf nbuf =
    (if nbuf < 2 then Inr (buf, 0)
     else let ss = of_nat STATFIXLEN + of_nat (sum_list (map nsv (dir_sv d))) :: u32 in
       andthen (blit (pbit16 (ucast (ss - 2))) 0 buf) (\<lambda>buf1.
         if ss > nbuf then Inr (buf1, 2)
         else andthen (run (d2m_fields d @ map (d2m_str (unat nbuf)) (dir_sv d)) (buf1, 2))
           (\<lambda>r. case r of
              Stop (buf2, p) \<Rightarrow> Inr (buf2, 0)
            | Go (buf2, p) \<Rightarrow> if ss \<noteq> of_nat p then Inr (buf2, 0) else Inr (buf2, of_nat p))))"

text \<open>\<open>statcheck\<close>: the loop advances over four counted strings.\<close>

fun statcheck_loop :: "nat \<Rightarrow> bytes \<Rightarrow> nat \<Rightarrow> nat \<Rightarrow> nat option outcome" where
  "statcheck_loop 0 buf nbuf p = Inr (Some p)"
| "statcheck_loop (Suc i) buf nbuf p =
     (if p + 2 > nbuf then Inr None
      else andthen (rdbytes p 2 buf) (\<lambda>bs. statcheck_loop i buf nbuf (p + (2 + unat (gbit16 bs)))))"

definition statcheck :: "bytes \<Rightarrow> u32 \<Rightarrow> int outcome" where
  "statcheck buf nbuf =
    (if unat nbuf < STATFIXLEN then Inr (- 1)
     else andthen (rdbytes 0 2 buf) (\<lambda>bs.
       if unat nbuf \<noteq> 2 + unat (gbit16 bs) then Inr (- 1)
       else andthen (statcheck_loop 4 buf (unat nbuf) (STATFIXLEN - 4 * 2)) (\<lambda>r.
         case r of None \<Rightarrow> Inr (- 1)
         | Some p \<Rightarrow> if p \<noteq> unat nbuf then Inr (- 1) else Inr 0)))"

text \<open>\<open>convM2D\<close>: the position in the message, the string buffer (\<open>None\<close> for a nil \<open>strs\<close>), the
  position in it and the array \<open>sv\<close>. Decoded pointers are offsets into \<open>strs\<close>, \<open>None\<close> stands for
  \<open>nullstring\<close>.\<close>

record mst =
  mp :: nat
  mstrs :: "bytes option"
  msp :: nat
  msv :: "nat list"

definition m2d_str :: "bytes \<Rightarrow> nat \<Rightarrow> mst stmt" where
  "m2d_str buf nbuf s =
    (if mp s + 2 > nbuf then Inr (Stop s)
     else andthen (rdbytes (mp s) 2 buf) (\<lambda>bs.
       let ns = unat (gbit16 bs); p = mp s + 2 in
       if p + ns > nbuf then Inr (Stop (s\<lparr>mp := p\<rparr>))
       else case mstrs s of
         None \<Rightarrow> Inr (Go (s\<lparr>mp := p + ns\<rparr>))
       | Some strs \<Rightarrow>
           andthen (rdbytes p ns buf) (\<lambda>str.
           andthen (blit str (msp s) strs) (\<lambda>strs1.
           andthen (blit [0] (msp s + ns) strs1) (\<lambda>strs2.
             Inr (Go (s\<lparr>mp := p + ns, mstrs := Some strs2, msp := msp s + ns + 1,
                         msv := msv s @ [msp s]\<rparr>)))))))"

definition m2d_fixed :: "bytes \<Rightarrow> 'p Dir \<Rightarrow> 'p Dir" where
  "m2d_fixed b d = d\<lparr>
     dtype := gbit16 (bslice 2 2 b),
     ddev := gbit32 (bslice 4 4 b),
     dqid := \<lparr>qpath = gbit64 (bslice 13 8 b), qvers = gbit32 (bslice 9 4 b), qtype = gbit8 (bslice 8 1 b)\<rparr>,
     dmode := gbit32 (bslice 21 4 b),
     datime := gbit32 (bslice 25 4 b),
     dmtime := gbit32 (bslice 29 4 b),
     dlength := gbit64 (bslice 33 8 b)\<rparr>"

definition convM2D ::
  "bytes \<Rightarrow> u32 \<Rightarrow> nat option Dir \<Rightarrow> bytes option \<Rightarrow> (nat \<times> nat option Dir \<times> bytes option) outcome" where
  "convM2D buf nbuf d strs =
    (if unat nbuf < STATFIXLEN then Inr (0, d, strs)
     else andthen (rdbytes 0 41 buf) (\<lambda>b.
       let d1 = m2d_fixed b d in
       andthen (run (replicate 4 (m2d_str buf (unat nbuf))) \<lparr>mp = 41, mstrs = strs, msp = 0, msv = []\<rparr>)
         (\<lambda>r. case r of
            Stop s \<Rightarrow> Inr (0, d1, mstrs s)
          | Go s \<Rightarrow>
              (let sv = (case mstrs s of None \<Rightarrow> replicate 4 None | Some _ \<Rightarrow> map Some (msv s)) in
               Inr (mp s, d1\<lparr>dname := sv ! 0, duid := sv ! 1, dgid := sv ! 2, dmuid := sv ! 3\<rparr>, mstrs s)))))"


subsection \<open>The wire format of a directory entry\<close>

definition stat_fields :: "bytes Dir \<Rightarrow> bytes" where
  "stat_fields d = pbit16 (dtype d) @ pbit32 (ddev d) @ qid_bytes (dqid d) @ pbit32 (dmode d)
     @ pbit32 (datime d) @ pbit32 (dmtime d) @ pbit64 (dlength d)"

definition stat_body :: "bytes Dir \<Rightarrow> bytes" where
  "stat_body d = stat_fields d @ concat (map str_bytes (dir_sv d))"

definition stat_bytes :: "bytes Dir \<Rightarrow> bytes" where
  "stat_bytes d = pbit16 (of_nat (length (stat_body d))) @ stat_body d"

definition map_Dir :: "('p \<Rightarrow> 'q) \<Rightarrow> 'p Dir \<Rightarrow> 'q Dir" where
  "map_Dir g d = \<lparr>dtype = dtype d, ddev = ddev d, dqid = dqid d, dmode = dmode d, datime = datime d,
     dmtime = dmtime d, dlength = dlength d, dname = g (dname d), duid = g (duid d),
     dgid = g (dgid d), dmuid = g (dmuid d)\<rparr>"

lemma dir_sv_map [simp]: "dir_sv (map_Dir g d) = map g (dir_sv d)"
  by (simp add: dir_sv_def map_Dir_def)

lemma length_dir_sv [simp]: "length (dir_sv d) = 4"
  by (simp add: dir_sv_def)

lemma length_stat_fields [simp]: "length (stat_fields d) = 39"
  by (simp add: stat_fields_def)

lemma length_stat_body: "length (stat_body d) = 47 + sum_list (map length (dir_sv d))"
  by (simp add: stat_body_def dir_sv_def)

lemma length_stat_bytes: "length (stat_bytes d) = STATFIXLEN + sum_list (map length (dir_sv d))"
  by (simp add: stat_bytes_def length_stat_body STATFIXLEN_def)


subsection \<open>\<open>convD2M\<close> writes the wire format\<close>

lemma nsv_estr: "nsv s = length (estr s)"
  by (simp add: nsv_def estr_def strlen_def split: option.splits)

lemma sum_nsv: "sum_list (map nsv (dir_sv d)) = sum_list (map length (dir_sv (map_Dir estr d)))"
  by (simp add: nsv_estr [abs_def] o_def)

lemma sizeD2M_length:
  "sizeD2M d = of_nat (length (stat_bytes (map_Dir estr d)))"
  by (simp only: sizeD2M_def length_stat_bytes sum_nsv of_nat_add)

lemma d2m_str_fits: "p + nsv s + 2 \<le> nbuf \<Longrightarrow> d2m_str nbuf s (buf, p) = pstring s (buf, p)"
  by (auto simp: d2m_str_def pstring_def nsv_def pmem_def emit_def blit_def Let_def strlen_le
      split: option.splits)

lemma run_d2m_strs:
  assumes "p + length (concat (map (str_bytes \<circ> estr) ss)) \<le> nbuf" "p \<le> length buf"
  shows "run (map (d2m_str nbuf) ss) (buf, p) = run (map pstring ss) (buf, p)"
  using assms
proof (induction ss arbitrary: buf p)
  case (Cons s ss)
  have "d2m_str nbuf s (buf, p) = pstring s (buf, p)"
    using Cons.prems by (intro d2m_str_fits) (simp add: nsv_estr)
  moreover have "p + length (str_bytes (estr s)) \<le> length buf \<Longrightarrow> pstring s (buf, p) = Inr (Go (take p buf @ str_bytes (estr s) @ drop (p + length (str_bytes (estr s))) buf, p + length (str_bytes (estr s))))"
    "\<not> p + length (str_bytes (estr s)) \<le> length buf \<Longrightarrow> pstring s (buf, p) = Inl Efault"
    using emits_pstring [of s] Cons.prems by (simp_all add: emits_def)
  ultimately show ?case
    using Cons by (cases "p + length (str_bytes (estr s)) \<le> length buf") (auto simp: o_def add.assoc)
qed simp

lemma emits_d2m_fields: "emits (run (d2m_fields d)) (stat_fields (map_Dir g d))"
proof -
  have "emits (run (d2m_fields d)) (pbit16 (dtype d) @ pbit32 (ddev d) @ pbit8 (qtype (dqid d)) @ pbit32 (qvers (dqid d))
     @ pbit64 (qpath (dqid d)) @ pbit32 (dmode d) @ pbit32 (datime d) @ pbit32 (dmtime d) @ pbit64 (dlength d))"
    unfolding d2m_fields_def by (intro emits_stmts)
  then show ?thesis
    by (simp add: stat_fields_def map_Dir_def qid_bytes_def)
qed

lemma emits_pstrings: "emits (run (map pstring ss)) (concat (map (str_bytes \<circ> estr) ss))"
  by (rule emits_run) (simp add: list_all2_conv_all_nth emits_pstring)

lemma run_d2m_body:
  assumes "2 + length (stat_body (map_Dir estr d)) \<le> nbuf" "nbuf \<le> length buf"
  shows "run (d2m_fields d @ map (d2m_str nbuf) (dir_sv d)) (buf, 2) =
    Inr (Go (take 2 buf @ stat_body (map_Dir estr d) @ drop (2 + length (stat_body (map_Dir estr d))) buf,
             2 + length (stat_body (map_Dir estr d))))"
proof -
  let ?F = "stat_fields (map_Dir estr d)" and ?S = "concat (map (str_bytes \<circ> estr) (dir_sv d))"
  let ?buf = "take 2 buf @ ?F @ drop 41 buf"
  have len: "41 + length ?S \<le> nbuf" "2 \<le> length buf" "41 \<le> length buf"
    using assms by (simp_all add: stat_body_def)
  have "run (d2m_fields d) (buf, 2) = Inr (Go (?buf, 41))"
    using emits_d2m_fields [of d estr] len by (simp add: emits_def)
  moreover have "run (map (d2m_str nbuf) (dir_sv d)) (?buf, 41) = run (map pstring (dir_sv d)) (?buf, 41)"
    by (rule run_d2m_strs) (use len in simp_all)
  moreover have "run (map pstring (dir_sv d)) (?buf, 41) =
      Inr (Go (take 41 ?buf @ ?S @ drop (41 + length ?S) ?buf, 41 + length ?S))"
    using emits_pstrings [of "dir_sv d"] len assms(2) by (simp add: emits_def)
  ultimately show ?thesis
    using len by (simp add: run_append stat_body_def o_def add.commute)
qed

lemma convD2M_writes:
  assumes small: "length (stat_bytes (map_Dir estr d)) < 2 ^ 16" and nbuf: "unat nbuf \<le> length buf"
  shows "convD2M d buf nbuf =
    (let st = stat_bytes (map_Dir estr d) in
     if unat nbuf < 2 then Inr (buf, 0)
     else if unat nbuf < length st then Inr (take 2 st @ drop 2 buf, 2)
     else Inr (st @ drop (length st) buf, of_nat (length st)))"
proof -
  let ?d = "map_Dir estr d"
  let ?n = "length (stat_body ?d)"
  let ?ss = "of_nat STATFIXLEN + of_nat (sum_list (map nsv (dir_sv d))) :: u32"
  have ss: "?ss = of_nat (2 + ?n)"
    by (simp add: sum_nsv length_stat_body STATFIXLEN_def)
  have n: "2 + ?n < 2 ^ 16" "length (stat_bytes ?d) = 2 + ?n"
    using small by (simp_all add: stat_bytes_def)
  have u: "unat ?ss = 2 + ?n"
    unfolding ss using n by (intro unat_len) simp
  have lo: "(ucast (?ss - 2) :: u16) = of_nat ?n"
    unfolding ss using n by (simp add: unsigned_of_nat take_bit_nat_eq_self)
  have bl: "2 \<le> unat nbuf \<Longrightarrow> blit (pbit16 (of_nat ?n)) 0 buf = Inr (pbit16 (of_nat ?n) @ drop 2 buf)"
    using nbuf by (simp add: blit_def numeral_2_eq_2)
  have bd: "run (d2m_fields d @ map (d2m_str (unat nbuf)) (dir_sv d)) (pbit16 (of_nat ?n) @ drop 2 buf, 2) =
      Inr (Go (pbit16 (of_nat ?n) @ stat_body ?d @ drop (2 + ?n) buf, 2 + ?n))" if "2 + ?n \<le> unat nbuf"
    using run_d2m_body [of d "unat nbuf" "pbit16 (of_nat ?n) @ drop 2 buf"] that nbuf by (simp add: add.commute)
  have lt: "(nbuf < 2) = (unat nbuf < 2)" "(nbuf < ?ss) = (unat nbuf < 2 + ?n)"
    using u by (simp_all add: word_less_nat_alt)
  show ?thesis
    using bl bd n lo unfolding convD2M_def Let_def lt
    by (simp add: ss stat_bytes_def)
qed


subsection \<open>\<open>convM2D\<close> reads the wire format\<close>

fun str_offs :: "nat \<Rightarrow> bytes list \<Rightarrow> nat list" where
  "str_offs n [] = []"
| "str_offs n (s # ss) = n # str_offs (n + length s + 1) ss"

definition nul_strs :: "bytes list \<Rightarrow> bytes" where
  "nul_strs ss = concat (map (\<lambda>s. s @ [0]) ss)"

lemma nul_strs_simps [simp]:
  "nul_strs [] = []" "nul_strs (s # ss) = s @ 0 # nul_strs ss"
  by (simp_all add: nul_strs_def)

lemma rd_str:
  assumes "length s < 2 ^ 16"
  shows "rdbytes (length x) 2 (x @ str_bytes s @ y) = Inr (pbit16 (of_nat (length s)))"
    "rdbytes (length x + 2) (length s) (x @ str_bytes s @ y) = Inr s"
  using assms by (simp_all add: rdbytes_def bslice_def str_bytes_def)

lemma m2d_str_some:
  assumes "length s < 2 ^ 16" "length x + 2 + length s \<le> nbuf" "length s < length z"
  shows "m2d_str (x @ str_bytes s @ y) nbuf \<lparr>mp = length x, mstrs = Some (w @ z), msp = length w, msv = sv\<rparr> =
    Inr (Go \<lparr>mp = length x + 2 + length s, mstrs = Some (w @ s @ 0 # drop (length s + 1) z),
             msp = length w + length s + 1, msv = sv @ [length w]\<rparr>)"
proof -
  have "blit s (length w) (w @ z) = Inr ((w @ s) @ drop (length s) z)"
    using assms by (simp add: blit_def)
  moreover have "blit [0] (length w + length s) ((w @ s) @ drop (length s) z) = Inr (w @ s @ 0 # drop (length s + 1) z)"
    using assms by (simp add: blit_def add.commute)
  ultimately show ?thesis
    using assms rd_str [OF assms(1), of x y] by (simp add: m2d_str_def Let_def)
qed

lemma m2d_str_none:
  assumes "length s < 2 ^ 16" "length x + 2 + length s \<le> nbuf"
  shows "m2d_str (x @ str_bytes s @ y) nbuf \<lparr>mp = length x, mstrs = None, msp = n, msv = sv\<rparr> =
    Inr (Go \<lparr>mp = length x + 2 + length s, mstrs = None, msp = n, msv = sv\<rparr>)"
  using assms by (simp add: m2d_str_def rd_str Let_def)

lemma run_m2d_some:
  assumes "\<And>s. s \<in> set ss \<Longrightarrow> length s < 2 ^ 16" "length x + length (concat (map str_bytes ss)) \<le> nbuf"
    "length (nul_strs ss) \<le> length z"
  shows "run (replicate (length ss) (m2d_str (x @ concat (map str_bytes ss) @ y) nbuf))
      \<lparr>mp = length x, mstrs = Some (w @ z), msp = length w, msv = sv\<rparr> =
    Inr (Go \<lparr>mp = length x + length (concat (map str_bytes ss)),
             mstrs = Some (w @ nul_strs ss @ drop (length (nul_strs ss)) z),
             msp = length w + length (nul_strs ss), msv = sv @ str_offs (length w) ss\<rparr>)"
  using assms
proof (induction ss arbitrary: x w z sv)
  case (Cons s ss)
  have 1: "m2d_str (x @ str_bytes s @ concat (map str_bytes ss) @ y) nbuf
       \<lparr>mp = length x, mstrs = Some (w @ z), msp = length w, msv = sv\<rparr> =
    Inr (Go \<lparr>mp = length x + 2 + length s, mstrs = Some (w @ s @ 0 # drop (length s + 1) z),
             msp = length w + length s + 1, msv = sv @ [length w]\<rparr>)"
    using Cons.prems by (intro m2d_str_some) auto
  have 2: "run (replicate (length ss) (m2d_str ((x @ str_bytes s) @ concat (map str_bytes ss) @ y) nbuf))
      \<lparr>mp = length (x @ str_bytes s), mstrs = Some ((w @ s @ [0]) @ drop (length s + 1) z),
       msp = length (w @ s @ [0]), msv = sv @ [length w]\<rparr> =
    Inr (Go \<lparr>mp = length (x @ str_bytes s) + length (concat (map str_bytes ss)),
       mstrs = Some ((w @ s @ [0]) @ nul_strs ss @ drop (length (nul_strs ss)) (drop (length s + 1) z)),
       msp = length (w @ s @ [0]) + length (nul_strs ss),
       msv = (sv @ [length w]) @ str_offs (length (w @ s @ [0])) ss\<rparr>)"
    using Cons.prems by (intro Cons.IH) auto
  show ?case
    using 1 2 by (simp add: add.assoc add.commute add.left_commute)
qed simp

definition view_nul :: "bytes option \<Rightarrow> nat option \<Rightarrow> bytes" where
  "view_nul strs p = (case (strs, p) of (Some st, Some off) \<Rightarrow> cstr (drop off st) | _ \<Rightarrow> [])"

lemma view_str_offs:
  assumes "\<And>s. s \<in> set ss \<Longrightarrow> 0 \<notin> set s"
  shows "map (\<lambda>off. cstr (drop off (w @ nul_strs ss @ z))) (str_offs (length w) ss) = ss"
  using assms
proof (induction ss arbitrary: w)
  case (Cons s ss)
  have "map (\<lambda>off. cstr (drop off ((w @ s @ [0]) @ nul_strs ss @ z))) (str_offs (length (w @ s @ [0])) ss) = ss"
    by (rule Cons.IH) (simp add: Cons.prems)
  then show ?case
    using Cons.prems by (simp add: add.assoc)
qed simp

lemma length_str_offs [simp]: "length (str_offs n ss) = length ss"
  by (induction ss arbitrary: n) auto

lemma m2d_fixed_stat:
  "m2d_fixed (bslice 0 41 (stat_bytes d @ r)) e =
    e\<lparr>dtype := dtype d, ddev := ddev d, dqid := dqid d, dmode := dmode d, datime := datime d,
      dmtime := dmtime d, dlength := dlength d\<rparr>"
proof -
  have "bslice 0 41 (stat_bytes d @ r) = pbit16 (of_nat (length (stat_body d))) @ stat_fields d"
    by (simp add: bslice_def stat_bytes_def stat_body_def)
  then show ?thesis
    by (cases "dqid d") (simp add: m2d_fixed_def bslice_def stat_fields_def qid_bytes_def)
qed

lemma convM2D_reads:
  assumes short: "\<And>s. s \<in> set (dir_sv d) \<Longrightarrow> length s < 2 ^ 16"
    and nbuf: "length (stat_bytes d) \<le> unat nbuf" and buf: "unat nbuf \<le> length (stat_bytes d @ r)"
    and st: "length (nul_strs (dir_sv d)) \<le> length st"
  shows "\<exists>e' st'. convM2D (stat_bytes d @ r) nbuf e (Some st) = Inr (length (stat_bytes d), e', Some st')
    \<and> length st' = length st
    \<and> ((\<forall>s \<in> set (dir_sv d). 0 \<notin> set s) \<longrightarrow> map_Dir (view_nul (Some st')) e' = d)"
proof -
  let ?x = "pbit16 (of_nat (length (stat_body d))) @ stat_fields d" and ?ss = "dir_sv d"
  let ?st = "nul_strs ?ss @ drop (length (nul_strs ?ss)) st"
  let ?o = "str_offs 0 ?ss"
  have four: "length ?ss = 4"
    by (simp add: dir_sv_def)
  have sb: "stat_bytes d @ r = ?x @ concat (map str_bytes ?ss) @ r"
    by (simp add: stat_bytes_def stat_body_def)
  have len: "length (stat_bytes d) = 41 + length (concat (map str_bytes ?ss))"
    by (simp add: stat_bytes_def stat_body_def)
  have "run (replicate (length ?ss) (m2d_str (?x @ concat (map str_bytes ?ss) @ r) (unat nbuf)))
      \<lparr>mp = length ?x, mstrs = Some ([] @ st), msp = length ([] :: bytes), msv = []\<rparr> =
    Inr (Go \<lparr>mp = length ?x + length (concat (map str_bytes ?ss)), mstrs = Some ([] @ ?st),
             msp = length ([] :: bytes) + length (nul_strs ?ss), msv = [] @ str_offs (length ([] :: bytes)) ?ss\<rparr>)"
    using nbuf st by (intro run_m2d_some short) (simp_all add: len)
  then have run: "run (replicate 4 (m2d_str (stat_bytes d @ r) (unat nbuf))) \<lparr>mp = 41, mstrs = Some st, msp = 0, msv = []\<rparr> =
    Inr (Go \<lparr>mp = length (stat_bytes d), mstrs = Some ?st, msp = length (nul_strs ?ss), msv = ?o\<rparr>)"
    unfolding four sb by (simp add: len del: run.simps replicate.simps)
  let ?e = "e\<lparr>dtype := dtype d, ddev := ddev d, dqid := dqid d, dmode := dmode d, datime := datime d,
      dmtime := dmtime d, dlength := dlength d, dname := Some (?o ! 0), duid := Some (?o ! 1),
      dgid := Some (?o ! 2), dmuid := Some (?o ! 3)\<rparr>"
  have rd: "rdbytes 0 41 (stat_bytes d @ r) = Inr (bslice 0 41 (stat_bytes d @ r))"
    by (rule rdbytes_Inr) (simp add: len)
  have "length ?o = 4"
    by (simp add: four)
  then have "convM2D (stat_bytes d @ r) nbuf e (Some st) = Inr (length (stat_bytes d), ?e, Some ?st)"
    using nbuf run rd m2d_fixed_stat [of d r e]
    by (simp add: convM2D_def Let_def length_stat_bytes del: run.simps str_offs.simps)
  moreover have "map_Dir (view_nul (Some ?st)) ?e = d" if "\<forall>s \<in> set ?ss. 0 \<notin> set s"
  proof -
    have "map (\<lambda>off. cstr (drop off ?st)) ?o = ?ss"
      using view_str_offs [of ?ss "[]" "drop (length (nul_strs ?ss)) st"] that by simp
    then show ?thesis
      by (cases d) (simp add: map_Dir_def view_nul_def dir_sv_def)
  qed
  ultimately show ?thesis
    using st by auto
qed

lemma statcheck_loop_accepts:
  assumes "\<And>s. s \<in> set ss \<Longrightarrow> length s < 2 ^ 16" "length x + length (concat (map str_bytes ss)) \<le> nbuf"
  shows "statcheck_loop (length ss) (x @ concat (map str_bytes ss) @ y) nbuf (length x) =
    Inr (Some (length x + length (concat (map str_bytes ss))))"
  using assms
proof (induction ss arbitrary: x)
  case (Cons s ss)
  have "statcheck_loop (length ss) ((x @ str_bytes s) @ concat (map str_bytes ss) @ y) nbuf (length (x @ str_bytes s)) =
    Inr (Some (length (x @ str_bytes s) + length (concat (map str_bytes ss))))"
    using Cons.prems by (intro Cons.IH) auto
  then show ?case
    using Cons.prems rd_str [of s x "concat (map str_bytes ss) @ y"] by (simp add: ac_simps)
qed simp

lemma statcheck_loop_total: "nbuf \<le> length buf \<Longrightarrow> \<exists>r. statcheck_loop i buf nbuf p = Inr r"
  by (induction i arbitrary: p) (auto simp: rdbytes_def)

lemma statcheck_loop_strings:
  assumes "statcheck_loop i buf nbuf p = Inr (Some q)" "q \<le> nbuf" "nbuf \<le> length buf" 
  shows "\<exists>ss. length ss = i \<and> p + length (concat (map str_bytes ss)) = q \<and> bslice p (q - p) buf = concat (map str_bytes ss)
      \<and> (\<forall>s \<in> set ss. length s < 2 ^ 16)"
  using assms
proof (induction i arbitrary: p)
  case (Suc i)
  let ?c = "bslice p 2 buf"
  let ?n = "unat (gbit16 ?c)"
  from Suc.prems have p: "p + 2 \<le> nbuf" and rec: "statcheck_loop i buf nbuf (p + (2 + ?n)) = Inr (Some q)"
    by (auto simp: rdbytes_def split: if_splits)
  from Suc.IH [OF rec Suc.prems(2,3)] obtain ss where ss: "length ss = i"
    "p + (2 + ?n) + length (concat (map str_bytes ss)) = q"
    "bslice (p + (2 + ?n)) (q - (p + (2 + ?n))) buf = concat (map str_bytes ss)" "\<forall>s \<in> set ss. length s < 2 ^ 16"
    by blast
  let ?s = "bslice (p + 2) ?n buf"
  have n: "?n < 2 ^ 16"
    by (rule unat_u16_less)
  have ls: "length ?s = ?n"
    using ss(2) Suc.prems by (intro length_bslice) auto
  have lc: "length ?c = 2"
    using p Suc.prems(3) by (intro length_bslice) simp
  have "str_bytes ?s = ?c @ ?s"
    unfolding str_bytes_def ls using p Suc.prems(3) by (simp add: pbit16_gbit16)
  moreover have "bslice p (q - p) buf = ?c @ ?s @ bslice (p + (2 + ?n)) (q - (p + (2 + ?n))) buf"
  proof -
    have "q - p = 2 + (?n + (q - (p + (2 + ?n))))"
      using ss(2) by simp
    then show ?thesis
      by (simp only: bslice_def take_add drop_drop) (simp add: ac_simps)
  qed
  ultimately show ?case
    using ss n ls lc by (intro exI [of _ "?s # ss"]) auto
qed auto


subsection \<open>\<open>statcheck\<close> accepts exactly the wire format\<close>

lemma bslice_join: "c = a + m \<Longrightarrow> bslice a m b @ bslice c n b = bslice a (m + n) b"
  by (simp add: bslice_def take_add add.commute)

lemma stat_fields_m2d_fixed:
  assumes "length b = 41"
  shows "stat_fields (m2d_fixed b e) = bslice 2 39 b"
  using assms
  by (simp add: stat_fields_def m2d_fixed_def qid_bytes_def pbit8_gbit8 pbit16_gbit16 pbit32_gbit32
      pbit64_gbit64 bslice_join)

lemma stat_bytes_surj:
  assumes "length b = 41" "length ss = 4" "\<forall>s \<in> set ss. length s < 2 ^ 16"
    "unat (gbit16 (bslice 0 2 b)) = 39 + length (concat (map str_bytes ss))"
  shows "\<exists>d. stat_bytes d = b @ concat (map str_bytes ss) \<and> dir_sv d = ss"
proof -
  let ?d = "m2d_fixed b \<lparr>dtype = 0, ddev = 0, dqid = zero_qid, dmode = 0, datime = 0, dmtime = 0, dlength = 0,
     dname = ss ! 0, duid = ss ! 1, dgid = ss ! 2, dmuid = ss ! 3\<rparr>"
  have sv: "dir_sv ?d = ss"
    using assms(2) by (auto simp: dir_sv_def m2d_fixed_def numeral_eq_Suc length_Suc_conv)
  have "length (stat_body ?d) = unat (gbit16 (bslice 0 2 b))"
    unfolding stat_body_def sv using assms(4) by simp
  then have "stat_bytes ?d = bslice 0 2 b @ bslice 2 39 b @ concat (map str_bytes ss)"
    unfolding stat_bytes_def using assms(1)
    by (simp only: stat_body_def sv) (simp add: stat_fields_m2d_fixed pbit16_gbit16)
  also have "\<dots> = b @ concat (map str_bytes ss)"
    using assms(1) by (simp add: bslice_def flip: append_assoc)
  finally show ?thesis
    using sv by blast
qed

lemma statcheck_accepts:
  assumes d: "stat_bytes d = take (unat nbuf) buf" "length (stat_body d) < 2 ^ 16"
    and nbuf: "unat nbuf \<le> length buf"
  shows "statcheck buf nbuf = Inr 0"
proof -
  let ?x = "pbit16 (of_nat (length (stat_body d))) @ stat_fields d" and ?y = "drop (unat nbuf) buf"
  have n: "unat nbuf = length (stat_bytes d)"
    using d nbuf by simp
  then have b: "buf = ?x @ concat (map str_bytes (dir_sv d)) @ ?y"
    using d by (metis append_assoc append_take_drop_id stat_body_def stat_bytes_def)
  have len: "length (stat_bytes d) = 2 + length (stat_body d)" "length (stat_body d) = 39 + length (concat (map str_bytes (dir_sv d)))"
    by (simp_all add: stat_bytes_def stat_body_def)
  have ge: "47 \<le> length (stat_body d)"
    by (simp add: length_stat_body)
  have short: "length s < 2 ^ 16" if "s \<in> set (dir_sv d)" for s
    using that d(2) unfolding length_stat_body by (auto simp: dir_sv_def)
  have "statcheck_loop (length (dir_sv d)) (?x @ concat (map str_bytes (dir_sv d)) @ ?y) (unat nbuf) (length ?x) =
     Inr (Some (length ?x + length (concat (map str_bytes (dir_sv d)))))"
    by (rule statcheck_loop_accepts) (use n len short in simp_all)
  then have loop: "statcheck_loop 4 buf (unat nbuf) 41 = Inr (Some (unat nbuf))"
    using n len b [symmetric] by (simp del: statcheck_loop.simps)
  have "bslice 0 2 buf = pbit16 (of_nat (length (stat_body d)))"
    by (subst b) (simp add: bslice_def)
  then have "rdbytes 0 2 buf = Inr (pbit16 (of_nat (length (stat_body d))))"
    using nbuf n len by (simp add: rdbytes_Inr)
  then show ?thesis
    using loop n len(1) d(2) ge by (simp add: statcheck_def STATFIXLEN_def del: statcheck_loop.simps)
qed

lemma statcheck_rejects:
  assumes ok: "statcheck buf nbuf = Inr 0" and nbuf: "unat nbuf \<le> length buf"
  shows "\<exists>d. stat_bytes d = take (unat nbuf) buf \<and> length (stat_body d) < 2 ^ 16"
proof -
  let ?n = "unat nbuf" and ?b = "bslice 0 41 buf"
  have n: "49 \<le> ?n" "?n = 2 + unat (gbit16 (bslice 0 2 buf))" and loop: "statcheck_loop 4 buf ?n 41 = Inr (Some ?n)"
    using ok by (auto simp: statcheck_def rdbytes_def STATFIXLEN_def andthen_def split: if_splits option.splits sum.splits)
  from statcheck_loop_strings [OF loop le_refl nbuf] obtain ss where ss: "length ss = 4"
    "41 + length (concat (map str_bytes ss)) = ?n" "bslice 41 (?n - 41) buf = concat (map str_bytes ss)"
    "\<forall>s \<in> set ss. length s < 2 ^ 16"
    by blast
  have b: "bslice 0 2 ?b = bslice 0 2 buf" "length ?b = 41"
    using n nbuf by (simp_all add: bslice_def)
  obtain d where d: "stat_bytes d = ?b @ concat (map str_bytes ss)"
    using stat_bytes_surj [OF b(2) ss(1,4)] n ss(2) by (auto simp: b)
  have "?b @ concat (map str_bytes ss) = take ?n buf"
    using n by (simp add: ss(3) [symmetric] bslice_join) (simp add: bslice_def)
  with d have "stat_bytes d = take ?n buf"
    by simp
  moreover have "2 + length (stat_body d) = ?n"
    using arg_cong [OF d, of length] ss b by (simp add: stat_bytes_def)
  ultimately show ?thesis
    using n unat_u16_less [of "gbit16 (bslice 0 2 buf)"] by auto
qed

text \<open>C7: \<open>statcheck\<close> accepts exactly the buffers that are the wire format of a directory entry: size
  field, fixed fields and four counted strings that fill the buffer. It never reads beyond the
  buffer.\<close>

theorem statcheck_iff:
  assumes nbuf: "unat nbuf \<le> length buf"
  shows "statcheck buf nbuf = Inr (if \<exists>d. stat_bytes d = take (unat nbuf) buf \<and> length (stat_body d) < 2 ^ 16
     then 0 else - 1)"
proof -
  have "statcheck buf nbuf = Inr 0 \<or> statcheck buf nbuf = Inr (- 1)"
    using nbuf statcheck_loop_total [OF nbuf, of 4 "STATFIXLEN - 4 * 2"]
    by (auto simp: statcheck_def rdbytes_def STATFIXLEN_def split: option.splits)
  then show ?thesis
    using statcheck_accepts [OF _ _ nbuf] statcheck_rejects [OF _ nbuf] by auto
qed

definition sample_dir :: "cptr Dir" where
  "sample_dir = \<lparr>dtype = 77, ddev = 1, dqid = zero_qid, dmode = 420, datime = 5, dmtime = 6, dlength = 3,
     dname = Some [102, 0], duid = Some [117, 0], dgid = None, dmuid = Some [109, 109, 0]\<rparr>"

lemma sample_dir_stat:
  "dir_sv (map_Dir estr sample_dir) = [[102], [117], [], [109, 109]]"
  by (simp add: sample_dir_def dir_sv_def map_Dir_def estr_def cstr_def)

lemma sample_dir_length:
  "length (stat_bytes (map_Dir estr sample_dir)) = 53" "length (stat_body (map_Dir estr sample_dir)) = 51"
  by (simp_all add: length_stat_bytes length_stat_body sample_dir_stat STATFIXLEN_def del: dir_sv_map)

theorem statcheck_iff_witness:
  "statcheck (stat_bytes (map_Dir estr sample_dir)) 53 = Inr 0"
proof -
  note n = sample_dir_length
  then show ?thesis
    using statcheck_iff [of 53 "stat_bytes (map_Dir estr sample_dir)"] by auto
qed

text \<open>C8: \<open>convD2M\<close> writes the wire format of the entry and returns its length. If the buffer is too small it
  writes only the size field, so that the caller knows how much is needed, and returns
  \<open>BIT16SZ\<close>; without room for the size field it returns 0.\<close>

theorem convD2M_stat:
  assumes "length (stat_bytes (map_Dir estr d)) < 2 ^ 16" "unat nbuf \<le> length buf"
  shows "convD2M d buf nbuf =
    (let st = stat_bytes (map_Dir estr d) in
     if unat nbuf < 2 then Inr (buf, 0)
     else if unat nbuf < length st then Inr (take 2 st @ drop 2 buf, 2)
     else Inr (st @ drop (length st) buf, of_nat (length st)))"
  using assms by (rule convD2M_writes)

theorem convD2M_stat_witness:
  "convD2M sample_dir (replicate 60 0) 60 = Inr (stat_bytes (map_Dir estr sample_dir) @ replicate 7 0, 53)
   \<and> convD2M sample_dir (replicate 60 0) 50 = Inr (pbit16 51 @ replicate 58 0, 2)"
proof -
  note n = sample_dir_length
  then have "take 2 (stat_bytes (map_Dir estr sample_dir)) = pbit16 51"
    by (simp add: stat_bytes_def)
  with n show ?thesis
    using convD2M_stat [of sample_dir 60 "replicate 60 0"] convD2M_stat [of sample_dir 50 "replicate 60 0"]
    by (simp add: Let_def)
qed

text \<open>C9: an entry that \<open>convD2M\<close> encoded and \<open>convM2D\<close> decoded, with a string buffer as long as the message,
  is the entry again, and both return the length of the message.\<close>

theorem convD2M_convM2D:
  assumes small: "length (stat_bytes (map_Dir estr d)) < 2 ^ 16"
    and n: "length (stat_bytes (map_Dir estr d)) \<le> unat nbuf" "unat nbuf \<le> length buf"
    and st: "length (stat_bytes (map_Dir estr d)) \<le> length st"
  shows "\<exists>buf' k e' st'. convD2M d buf nbuf = Inr (buf', k) \<and> convM2D buf' nbuf e (Some st) = Inr (unat k, e', Some st')
     \<and> k \<noteq> 0 \<and> map_Dir (view_nul (Some st')) e' = map_Dir estr d"
proof -
  let ?d = "map_Dir estr d" and ?r = "drop (length (stat_bytes (map_Dir estr d))) buf"
  let ?k = "of_nat (length (stat_bytes (map_Dir estr d))) :: u32"
  have len: "length (stat_bytes ?d) = 49 + sum_list (map length (dir_sv ?d))"
    by (simp only: length_stat_bytes STATFIXLEN_def)
  have k: "unat ?k = length (stat_bytes ?d)"
    using small by simp
  have enc: "convD2M d buf nbuf = Inr (stat_bytes ?d @ ?r, ?k)"
    using convD2M_writes [OF small n(2)] n(1) len by (simp add: Let_def)
  have short: "length s < 2 ^ 16" if "s \<in> set (dir_sv ?d)" for s
    using that small len by (auto simp: dir_sv_def map_Dir_def)
  have nul: "length (nul_strs (dir_sv ?d)) \<le> length st"
    using st len by (simp add: dir_sv_def map_Dir_def)
  have "\<forall>s \<in> set (dir_sv ?d). 0 \<notin> set s"
    by (auto simp: estr_def split: option.splits)
  moreover have "unat nbuf \<le> length (stat_bytes ?d @ ?r)"
    using n by simp
  ultimately
  obtain e' st' where "convM2D (stat_bytes ?d @ ?r) nbuf e (Some st) = Inr (length (stat_bytes ?d), e', Some st')"
      "map_Dir (view_nul (Some st')) e' = ?d"
    using convM2D_reads [OF short n(1) _ nul, of ?r e] by blast
  with enc k len show ?thesis
    by (intro exI [of _ "stat_bytes ?d @ ?r"] exI [of _ ?k] exI [of _ e'] exI [of _ st']) auto
qed

theorem convD2M_convM2D_witness:
  "\<exists>buf' k e' st'. convD2M sample_dir (replicate 60 0) 60 = Inr (buf', k)
     \<and> convM2D buf' 60 (map_Dir (\<lambda>_. None) sample_dir) (Some (replicate 60 0)) = Inr (unat k, e', Some st')
     \<and> k \<noteq> 0 \<and> map_Dir (view_nul (Some st')) e' = map_Dir estr sample_dir"
  by (rule convD2M_convM2D)
    (simp_all add: length_stat_bytes sample_dir_stat STATFIXLEN_def del: dir_sv_map)

text \<open>C10: once \<open>statcheck\<close> has accepted a message, \<open>convM2D\<close> consumes all of it and a string buffer as long as the
  message is large enough: it neither fails nor writes outside the buffer. Callers rely on this
  when they size the buffer before decoding.\<close>

theorem statcheck_convM2D:
  assumes ok: "statcheck buf nbuf = Inr 0" and nbuf: "unat nbuf \<le> length buf"
    and st: "unat nbuf \<le> length st"
  shows "\<exists>e' st'. convM2D buf nbuf e (Some st) = Inr (unat nbuf, e', Some st') \<and> length st' = length st"
proof -
  from statcheck_rejects [OF ok nbuf] obtain d where d: "stat_bytes d = take (unat nbuf) buf"
    "length (stat_body d) < 2 ^ 16"
    by blast
  have n: "length (stat_bytes d) = unat nbuf"
    using d(1) nbuf by simp
  have short: "length s < 2 ^ 16" if "s \<in> set (dir_sv d)" for s
    using that d(2) unfolding length_stat_body by (auto simp: dir_sv_def)
  have nul: "length (nul_strs (dir_sv d)) \<le> length st"
    using st n unfolding length_stat_bytes STATFIXLEN_def by (simp add: dir_sv_def)
  have "buf = stat_bytes d @ drop (unat nbuf) buf"
    using d(1) by simp
  then show ?thesis
    using convM2D_reads [OF short _ _ nul, of nbuf "drop (unat nbuf) buf" e] n nbuf by auto
qed

theorem statcheck_convM2D_witness:
  "\<exists>e' st'. convM2D (stat_bytes (map_Dir estr sample_dir)) 53 (map_Dir (\<lambda>_. None) sample_dir) (Some (replicate 53 0))
     = Inr (53, e', Some st') \<and> length st' = 53"
proof -
  note n = sample_dir_length
  then have "statcheck (stat_bytes (map_Dir estr sample_dir)) 53 = Inr 0"
    by (intro statcheck_accepts [of "map_Dir estr sample_dir"]) simp_all
  from statcheck_convM2D [OF this, of "replicate 53 0"] n show ?thesis
    by simp
qed

end
