(* ===== verification/Blocks.thy ===== *)
theory Blocks
  imports Prelude "HOL-Library.Multiset"
begin

text \<open>
  Blocks, the buffers of the kernel's I/O queues and protocol stacks: \<open>9/port/allocb.c\<close> and the
  block functions of \<open>9/port/qio.c\<close>. A block is its buffer from \<open>base\<close> to \<open>lim\<close>, with \<open>rp\<close> and
  \<open>wp\<close> as offsets from \<open>base\<close>; a chain of blocks linked by \<open>next\<close> is a list. A block carries the
  number of the allocation that made it, so that a chain owns its blocks by name.

  The memory allocator \<open>mallocz\<close> is a parameter \<open>al\<close>: call number \<open>n\<close> for a size answers nil or the
  address and the contents of the memory. \<open>al_ok\<close> is what the code relies on: the memory is at least
  as large as asked for. Lengths are natural numbers: the invariant \<open>wf_block\<close>
  (\<open>base \<le> rp \<le> wp \<le> lim\<close>), which every operation keeps, rules out negative ones. The \<open>int\<close> arguments that
  may be negative are \<open>int\<close> (\<open>padblock\<close>, \<open>adjustblock\<close>); those of \<open>trimblock\<close> are 32-bit words, because their sum
  is an \<open>int\<close> that may overflow (it wraps here) and each of them is then compared with an unsigned number. The
  statistics counters and the checksum bits of \<open>flag\<close> are not modelled.

  Main results: every operation keeps the invariant, does what it promises to the bytes of the chain and
  stays inside the buffers; no block is freed twice, and the only blocks that leak are those that
  \<open>adjustblock\<close> drops when its length is negative (\<open>dropped\<close>).
\<close>

subsection \<open>State\<close>

record block =
  bid :: nat
  bintr :: bool
  bfree :: bool
  bbuf :: "byte list"
  brp :: nat
  bwp :: nat

text \<open>Calls out to drivers and to the scheduler: \<open>b->free\<close>, \<open>wakeup(&q->rr)\<close>, \<open>wakeup(&q->wr)\<close>,
  \<open>q->kick\<close> and \<open>q->bypass\<close>.\<close>

datatype kevent = Driver_free nat | Wakeup_rr | Wakeup_wr | Kick | Bypass nat

text \<open>\<open>kcalls\<close>: calls of \<open>mallocz\<close> so far; \<open>made\<close> and \<open>freed\<close>: the blocks allocated and released;
  \<open>ibytes\<close>, \<open>ilimit\<close>: \<open>ialloc.bytes\<close> and \<open>conf.ialloc\<close>; \<open>m1\<close>, \<open>m2\<close>, \<open>mp\<close>: the static
  counters of \<open>iallocb\<close>.\<close>

record kst =
  kcalls :: nat
  made :: "nat list"
  freed :: "nat list"
  ibytes :: int
  ilimit :: int
  im1 :: nat
  im2 :: nat
  imp :: nat
  kev :: "kevent list"

type_synonym allocator = "nat \<Rightarrow> nat \<Rightarrow> (nat \<times> byte list) option"

definition BLEN :: "block \<Rightarrow> nat" where
  "BLEN b = bwp b - brp b"

definition BALLOC :: "block \<Rightarrow> nat" where
  "BALLOC b = length (bbuf b)"

definition event :: "kevent \<Rightarrow> kst \<Rightarrow> kst" where
  "event e k = k\<lparr>kev := kev k @ [e]\<rparr>"


subsection \<open>\<open>allocb.c\<close>\<close>

definition Hdrspc :: nat where
  "Hdrspc = 64"

definition BLOCKALIGN :: nat where
  "BLOCKALIGN = 8"

definition SIZEOF_Block :: nat where
  "SIZEOF_Block = 32"

definition ROUND :: "nat \<Rightarrow> nat \<Rightarrow> nat" where
  "ROUND s sz = (s + (sz - 1)) div sz * sz"

definition allocb_mem :: "allocator \<Rightarrow> kst \<Rightarrow> nat \<Rightarrow> (block option \<times> kst) outcome" where
  "allocb_mem al k sz =
    (let k1 = k\<lparr>kcalls := kcalls k + 1\<rparr> in
     case al (kcalls k) (SIZEOF_Block + sz + Hdrspc) of
       None \<Rightarrow> Inr (None, k1)
     | Some (addr, mem) \<Rightarrow>
         let base = ROUND (addr + SIZEOF_Block) BLOCKALIGN;
             lim = (addr + length mem) div BLOCKALIGN * BLOCKALIGN in
         if lim < base + ROUND sz BLOCKALIGN then Inl Epanic
         else let rp = lim - base - ROUND sz BLOCKALIGN in
           Inr (Some \<lparr>bid = kcalls k, bintr = False, bfree = False,
                      bbuf = take (lim - base) (drop (base - addr) mem), brp = rp, bwp = rp\<rparr>,
                k1\<lparr>made := kcalls k # made k\<rparr>))"

definition allocb :: "allocator \<Rightarrow> kst \<Rightarrow> nat \<Rightarrow> (block \<times> kst) outcome" where
  "allocb al k sz =
     andthen (allocb_mem al k sz)
       (\<lambda>(r, k1). case r of None \<Rightarrow> Inl Epanic | Some b \<Rightarrow> Inr (b, k1))"

definition iallocb :: "allocator \<Rightarrow> kst \<Rightarrow> nat \<Rightarrow> (block option \<times> kst) outcome" where
  "iallocb al k sz =
    (if ibytes k > ilimit k then
       (let k1 = k\<lparr>im1 := im1 k + 1\<rparr> in
        if im1 k mod 10000 = 0 then
          (if imp k > 1000 then Inl Eexit else Inr (None, k1\<lparr>imp := imp k + 1\<rparr>))
        else Inr (None, k1))
     else andthen (allocb_mem al k sz) (\<lambda>(r, k1).
       case r of
         None \<Rightarrow>
           (let k2 = k1\<lparr>im2 := im2 k + 1\<rparr> in
            if im2 k mod 10000 = 0 then
              (if imp k > 1000 then Inl Eexit else Inr (None, k2\<lparr>imp := imp k + 1\<rparr>))
            else Inr (None, k2))
       | Some b \<Rightarrow>
           Inr (Some (b\<lparr>bintr := True\<rparr>), k1\<lparr>ibytes := ibytes k + int (BALLOC b)\<rparr>)))"

text \<open>\<open>freeb\<close>: a block with a free routine of its own goes to the driver.\<close>

definition freeb :: "kst \<Rightarrow> block \<Rightarrow> kst" where
  "freeb k b =
    (if bfree b then event (Driver_free (bid b)) (k\<lparr>freed := bid b # freed k\<rparr>)
     else (let k1 = (if bintr b then k\<lparr>ibytes := ibytes k - int (BALLOC b)\<rparr> else k) in
           k1\<lparr>freed := bid b # freed k1\<rparr>))"

text \<open>\<open>checkb\<close>: the consistency test, a panic when it fails.\<close>

definition checkb :: "block \<Rightarrow> unit outcome" where
  "checkb b = (if brp b > length (bbuf b) \<or> bwp b > length (bbuf b) then Inl Epanic else Inr ())"


subsection \<open>The block functions of \<open>qio.c\<close>\<close>

text \<open>\<open>bget b off n\<close>: the \<open>n\<close> bytes at \<open>b->rp+off\<close>; \<open>bput b bs\<close>: \<open>memmove(b->wp, ...)\<close> and
  \<open>b->wp += n\<close>.\<close>

definition bget :: "block \<Rightarrow> nat \<Rightarrow> nat \<Rightarrow> byte list outcome" where
  "bget b off n = rdbytes (brp b + off) n (bbuf b)"

definition bput :: "block \<Rightarrow> byte list \<Rightarrow> block outcome" where
  "bput b bs = andthen (blit bs (bwp b) (bbuf b)) (\<lambda>buf. Inr (b\<lparr>bbuf := buf, bwp := bwp b + length bs\<rparr>))"

primrec freeblist :: "kst \<Rightarrow> block list \<Rightarrow> kst" where
  "freeblist k [] = k"
| "freeblist k (b # bs) = freeblist (freeb k b) bs"

definition padblock :: "allocator \<Rightarrow> kst \<Rightarrow> block list \<Rightarrow> int \<Rightarrow> (block list \<times> kst) outcome" where
  "padblock al k bs sz =
    (case bs of [] \<Rightarrow> Inl Efault
     | bp # rest \<Rightarrow>
        if sz \<ge> 0 then
          (if int (brp bp) \<ge> sz then Inr (bp\<lparr>brp := brp bp - nat sz\<rparr> # rest, k)
           else if rest \<noteq> [] then Inl Epanic
           else andthen (allocb al k (nat sz + BLEN bp)) (\<lambda>(nb, k1).
             let nb1 = nb\<lparr>brp := brp nb + nat sz, bwp := brp nb + nat sz\<rparr> in
             andthen (bget bp 0 (BLEN bp)) (\<lambda>d. andthen (bput nb1 d) (\<lambda>nb2.
               Inr ([nb2\<lparr>brp := brp nb2 - nat sz\<rparr>], freeb k1 bp)))))
        else
          (if rest \<noteq> [] then Inl Epanic
           else if length (bbuf bp) - bwp bp \<ge> nat (- sz) then Inr ([bp], k)
           else andthen (allocb al k (nat (- sz) + BLEN bp)) (\<lambda>(nb, k1).
             andthen (bget bp 0 (BLEN bp)) (\<lambda>d. andthen (bput nb d) (\<lambda>nb1.
               Inr ([nb1], freeb k1 bp))))))"

primrec blocklen :: "block list \<Rightarrow> nat" where
  "blocklen [] = 0"
| "blocklen (b # bs) = BLEN b + blocklen bs"

primrec blockalloclen :: "block list \<Rightarrow> nat" where
  "blockalloclen [] = 0"
| "blockalloclen (b # bs) = BALLOC b + blockalloclen bs"

text \<open>The loop of \<open>concatblock\<close>: append the data of every block to \<open>nb\<close>.\<close>

primrec concat_loop :: "block \<Rightarrow> block list \<Rightarrow> block outcome" where
  "concat_loop nb [] = Inr nb"
| "concat_loop nb (f # fs) =
     andthen (bget f 0 (BLEN f)) (\<lambda>d. andthen (bput nb d) (\<lambda>nb1. concat_loop nb1 fs))"

definition concatblock :: "allocator \<Rightarrow> kst \<Rightarrow> block list \<Rightarrow> (block list \<times> kst) outcome" where
  "concatblock al k bs =
    (case bs of
       [] \<Rightarrow> Inl Efault
     | [b] \<Rightarrow> Inr ([b], k)
     | _ \<Rightarrow> andthen (allocb al k (blocklen bs)) (\<lambda>(nb, k1).
             andthen (concat_loop nb bs) (\<lambda>nb1. Inr ([nb1], freeblist k1 bs))))"

primrec pullup_loop :: "kst \<Rightarrow> block \<Rightarrow> block list \<Rightarrow> nat \<Rightarrow> (block list \<times> kst) outcome" where
  "pullup_loop k bp [] n = Inr ([], freeb k bp)"
| "pullup_loop k bp (nb # rest) n =
    (if BLEN nb > n then
       andthen (bget nb 0 n) (\<lambda>d. andthen (bput bp d) (\<lambda>bp1.
         Inr (bp1 # nb\<lparr>brp := brp nb + n\<rparr> # rest, k)))
     else
       andthen (bget nb 0 (BLEN nb)) (\<lambda>d. andthen (bput bp d) (\<lambda>bp1.
         if n - BLEN nb = 0 then Inr (bp1 # rest, freeb k nb)
         else pullup_loop (freeb k nb) bp1 rest (n - BLEN nb))))"

definition pullupblock :: "allocator \<Rightarrow> kst \<Rightarrow> block list \<Rightarrow> nat \<Rightarrow> (block list \<times> kst) outcome" where
  "pullupblock al k bs n =
    (case bs of
       [] \<Rightarrow> Inl Efault
     | bp # rest \<Rightarrow>
         if BLEN bp \<ge> n then Inr (bs, k)
         else if length (bbuf bp) - brp bp < n then
           andthen (allocb al k n) (\<lambda>(nb, k1). pullup_loop k1 nb bs (n - BLEN nb))
         else pullup_loop k bp rest (n - BLEN bp))"

text \<open>The two loops of \<open>trimblock\<close>; running off the chain is a nil dereference.\<close>

primrec trim_front :: "kst \<Rightarrow> block list \<Rightarrow> nat \<Rightarrow> (block list \<times> nat \<times> kst) outcome" where
  "trim_front k [] off = Inl Efault"
| "trim_front k (bp # rest) off =
     (if BLEN bp < off then trim_front (freeb k bp) rest (off - BLEN bp) else Inr (bp # rest, off, k))"

primrec trim_back :: "kst \<Rightarrow> block list \<Rightarrow> nat \<Rightarrow> (block list \<times> kst) outcome" where
  "trim_back k [] len = Inl Efault"
| "trim_back k (bp # rest) len =
     (if BLEN bp < len then
        andthen (trim_back k rest (len - BLEN bp)) (\<lambda>(bs, k1). Inr (bp # bs, k1))
      else Inr ([bp\<lparr>bwp := bwp bp - (BLEN bp - len)\<rparr>], freeblist k rest))"

text \<open>\<open>trimblock\<close>: \<open>offset\<close> and \<open>len\<close> are C \<open>int\<close>s. Their sum wraps and is compared as an \<open>int\<close>; in the loops
  they are compared with the \<open>ulong\<close> \<open>l\<close>, and so as unsigned numbers.\<close>

definition trimblock :: "kst \<Rightarrow> block list \<Rightarrow> u32 \<Rightarrow> u32 \<Rightarrow> (block list \<times> kst) outcome" where
  "trimblock k bs off len =
    (if int (blocklen bs) < sint (off + len) then Inr ([], freeblist k bs)
     else andthen (trim_front k bs (unat off)) (\<lambda>(bs1, off1, k1).
       case bs1 of
         [] \<Rightarrow> Inl Efault
       | bp # rest \<Rightarrow> trim_back k1 (bp\<lparr>brp := brp bp + off1\<rparr> # rest) (unat len)))"

primrec copy_loop :: "block \<Rightarrow> block list \<Rightarrow> nat \<Rightarrow> (block \<times> nat) outcome" where
  "copy_loop nb [] cnt = Inr (nb, cnt)"
| "copy_loop nb (bp # bs) cnt =
    (if cnt = 0 then Inr (nb, cnt)
     else let l = min (BLEN bp) cnt in
       andthen (bget bp 0 l) (\<lambda>d. andthen (bput nb d) (\<lambda>nb1. copy_loop nb1 bs (cnt - l))))"

definition copyblock :: "allocator \<Rightarrow> kst \<Rightarrow> block list \<Rightarrow> nat \<Rightarrow> (block \<times> kst) outcome" where
  "copyblock al k bs cnt =
     andthen (allocb al k cnt) (\<lambda>(nb, k1).
       andthen (copy_loop nb bs cnt) (\<lambda>(nb1, left).
         if left > 0 then andthen (bput nb1 (replicate left 0)) (\<lambda>nb2. Inr (nb2, k1))
         else Inr (nb1, k1)))"

definition adjustblock :: "allocator \<Rightarrow> kst \<Rightarrow> block list \<Rightarrow> int \<Rightarrow> (block list \<times> kst) outcome" where
  "adjustblock al k bs len =
    (case bs of [] \<Rightarrow> Inl Efault
     | bp # rest \<Rightarrow>
        if len < 0 then Inr ([], freeb k bp)
        else if brp bp + nat len > length (bbuf bp) then
          andthen (copyblock al k bs (nat len)) (\<lambda>(nb, k1). Inr ([nb], freeblist k1 bs))
        else
          andthen (if nat len > BLEN bp then blit (replicate (nat len - BLEN bp) 0) (bwp bp) (bbuf bp)
                   else Inr (bbuf bp))
            (\<lambda>buf. Inr (bp\<lparr>bbuf := buf, bwp := brp bp + nat len\<rparr> # rest, k)))"

text \<open>\<open>pullblock\<close>: the chain, the bytes thrown away and the state.\<close>

primrec pullblock :: "kst \<Rightarrow> block list \<Rightarrow> nat \<Rightarrow> nat \<times> block list \<times> kst" where
  "pullblock k [] cnt = (0, [], k)"
| "pullblock k (bp # rest) cnt =
    (if cnt = 0 then (0, bp # rest, k)
     else let n = min (BLEN bp) cnt; bp1 = bp\<lparr>brp := brp bp + n\<rparr> in
       if BLEN bp1 = 0 then
         (let (m, bs, k1) = pullblock (freeb k bp1) rest (cnt - n) in (n + m, bs, k1))
       else (n, bp1 # rest, k))"

primrec packblock :: "allocator \<Rightarrow> kst \<Rightarrow> block list \<Rightarrow> (block list \<times> kst) outcome" where
  "packblock al k [] = Inr ([], k)"
| "packblock al k (nbp # rest) =
    (let n = BLEN nbp in
     if 4 * n < BALLOC nbp then
       andthen (allocb al k n) (\<lambda>(b, k1).
         andthen (bget nbp 0 n) (\<lambda>d. andthen (bput b d) (\<lambda>b1.
           andthen (packblock al (freeb k1 nbp) rest) (\<lambda>(bs, k2). Inr (b1 # bs, k2)))))
     else andthen (packblock al k rest) (\<lambda>(bs, k2). Inr (nbp # bs, k2)))"


subsection \<open>Invariant, contents and ownership\<close>

definition wf_block :: "block \<Rightarrow> bool" where
  "wf_block b \<longleftrightarrow> brp b \<le> bwp b \<and> bwp b \<le> length (bbuf b)"

definition bdata :: "block \<Rightarrow> byte list" where
  "bdata b = bslice (brp b) (BLEN b) (bbuf b)"

definition bsdata :: "block list \<Rightarrow> byte list" where
  "bsdata bs = concat (map bdata bs)"

definition al_ok :: "allocator \<Rightarrow> bool" where
  "al_ok al \<longleftrightarrow> (\<forall>n s a mem. al n s = Some (a, mem) \<longrightarrow> s \<le> length mem)"

abbreviation "wf_blocks \<equiv> list_all wf_block"
abbreviation "owned bs \<equiv> mset (map bid bs)"

text \<open>\<open>moves k A k' B\<close>: from \<open>k\<close> to \<open>k'\<close> the blocks \<open>A\<close> and the blocks allocated on the way
  have become the blocks \<open>B\<close> and the blocks released on the way.\<close>

definition moves :: "kst \<Rightarrow> nat multiset \<Rightarrow> kst \<Rightarrow> nat multiset \<Rightarrow> bool" where
  "moves k A k' B \<longleftrightarrow>
     B + mset (freed k') + mset (made k) = A + mset (freed k) + mset (made k')
     \<and> kcalls k \<le> kcalls k'
     \<and> (\<exists>ns. made k' = ns @ made k \<and> distinct ns \<and> set ns \<subseteq> {kcalls k..<kcalls k'})"

lemma moves_refl [intro]: "moves k A k A"
  by (simp add: moves_def)

lemma moves_trans: "moves k A k1 B \<Longrightarrow> moves k1 B k2 C \<Longrightarrow> moves k A k2 C"
  unfolding moves_def
proof (elim conjE exE, intro conjI)
  fix ns ms
  assume e: "B + mset (freed k1) + mset (made k) = A + mset (freed k) + mset (made k1)"
    "C + mset (freed k2) + mset (made k1) = B + mset (freed k1) + mset (made k2)"
  have "(C + mset (freed k2) + mset (made k)) + mset (made k1) =
      (C + mset (freed k2) + mset (made k1)) + mset (made k)"
    by simp
  also have "\<dots> = (B + mset (freed k1) + mset (made k)) + mset (made k2)"
    unfolding e(2) by simp
  also have "\<dots> = (A + mset (freed k) + mset (made k2)) + mset (made k1)"
    unfolding e(1) by simp
  finally show "C + mset (freed k2) + mset (made k) = A + mset (freed k) + mset (made k2)"
    by (rule add_right_imp_eq)
next
  fix ns ms
  assume "made k1 = ns @ made k" "distinct ns" "set ns \<subseteq> {kcalls k..<kcalls k1}"
    "made k2 = ms @ made k1" "distinct ms" "set ms \<subseteq> {kcalls k1..<kcalls k2}"
    "kcalls k \<le> kcalls k1" "kcalls k1 \<le> kcalls k2"
  then show "\<exists>ns. made k2 = ns @ made k \<and> distinct ns \<and> set ns \<subseteq> {kcalls k..<kcalls k2}"
    by (intro exI [of _ "ms @ ns"] conjI) (simp, fastforce simp: subset_eq, fastforce simp: subset_eq)
qed simp

lemma moves_frame: "moves k A k' B \<Longrightarrow> moves k (A + R) k' (B + R)"
  unfolding moves_def by (auto simp: ac_simps)

lemma moves_frame_left: "moves k A k' B \<Longrightarrow> moves k (R + A) k' (R + B)"
  using moves_frame [of k A k' B R] by (simp add: add.commute)

text \<open>What every block of the system satisfies: the live blocks \<open>L\<close> and the released ones are the
  allocated ones, each once.\<close>

definition accounted :: "kst \<Rightarrow> nat multiset \<Rightarrow> bool" where
  "accounted k L \<longleftrightarrow> L + mset (freed k) = mset (made k) \<and> distinct (made k) \<and> (\<forall>i \<in> set (made k). i < kcalls k)"

lemma accounted_moves:
  assumes "accounted k A" "moves k A k' B"
  shows "accounted k' B"
proof -
  from assms(2) obtain ns where ns: "made k' = ns @ made k" "distinct ns" "set ns \<subseteq> {kcalls k..<kcalls k'}"
    and eq: "B + mset (freed k') + mset (made k) = A + mset (freed k) + mset (made k')" and le: "kcalls k \<le> kcalls k'"
    by (auto simp: moves_def)
  have "B + mset (freed k') = mset (made k')"
    using eq assms(1) by (simp add: accounted_def add.commute)
  moreover have "distinct (made k')"
    using ns assms(1) by (fastforce simp: accounted_def)
  moreover have "\<forall>i \<in> set (made k'). i < kcalls k'"
    using ns assms(1) le by (fastforce simp: accounted_def)
  ultimately show ?thesis
    by (simp add: accounted_def)
qed

lemma distinct_countI: "(\<And>i. Multiset.count (mset xs) i \<le> 1) \<Longrightarrow> distinct xs"
  unfolding distinct_count_atmost_1 by (metis antisym_conv count_greater_eq_one_iff count_mset_0_iff set_mset_mset)

lemma accounted_distinct:
  assumes "accounted k L"
  shows "\<And>i. Multiset.count L i \<le> 1" "\<And>i. i \<in># L \<Longrightarrow> i \<notin> set (freed k)"
    "distinct (freed k)"
proof -
  have c: "Multiset.count L i + Multiset.count (mset (freed k)) i \<le> 1" for i
  proof -
    have "Multiset.count L i + Multiset.count (mset (freed k)) i = Multiset.count (mset (made k)) i"
      using assms by (simp add: accounted_def flip: count_union)
    also have "\<dots> \<le> 1"
      using assms by (simp add: accounted_def distinct_count_atmost_1)
    finally show ?thesis .
  qed
  show "Multiset.count L i \<le> 1" for i
    using c [of i] by simp
  show "i \<notin> set (freed k)" if "i \<in># L" for i
  proof
    assume "i \<in> set (freed k)"
    then have "Multiset.count (mset (freed k)) i > 0" "Multiset.count L i > 0"
      using that by simp_all
    then show False
      using c [of i] by linarith
  qed
  show "distinct (freed k)"
    by (rule distinct_countI) (use c in \<open>metis add_leD2\<close>)
qed


subsection \<open>The operations on blocks and chains\<close>

definition oom :: "allocator \<Rightarrow> err set" where
  "oom al = (if \<forall>n s. al n s \<noteq> None then {} else {Epanic})"

lemma length_bdata [simp]: "wf_block b \<Longrightarrow> length (bdata b) = BLEN b"
  by (simp add: bdata_def wf_block_def BLEN_def)

lemma bdata_empty [simp]: "BLEN b = 0 \<Longrightarrow> bdata b = []"
  by (simp add: bdata_def)

lemma bsdata_simps [simp]: "bsdata [] = []" "bsdata (b # bs) = bdata b @ bsdata bs" "bsdata (xs @ ys) = bsdata xs @ bsdata ys"
  by (simp_all add: bsdata_def)

lemma blocklen_data: "wf_blocks bs \<Longrightarrow> blocklen bs = length (bsdata bs)"
  by (induction bs) auto

lemma blocklen_append [simp]: "blocklen (xs @ ys) = blocklen xs + blocklen ys"
  by (induction xs) auto

lemma bget_data: "wf_block b \<Longrightarrow> off + n \<le> BLEN b \<Longrightarrow> bget b off n = Inr (bslice off n (bdata b))"
  by (auto simp: bget_def bdata_def wf_block_def BLEN_def rdbytes_def bslice_def drop_take add.commute)

lemma bget_all [simp]: "wf_block b \<Longrightarrow> bget b 0 (BLEN b) = Inr (bdata b)"
  by (simp add: bget_def bdata_def wf_block_def BLEN_def rdbytes_def)

lemma bput_ok:
  assumes "wf_block b" "bwp b + length bs \<le> length (bbuf b)"
  obtains b' where "bput b bs = Inr b'" "wf_block b'" "bdata b' = bdata b @ bs" "bid b' = bid b"
    "brp b' = brp b" "bwp b' = bwp b + length bs" "length (bbuf b') = length (bbuf b)"
    "bintr b' = bintr b" "bfree b' = bfree b"
proof -
  let ?b = "b\<lparr>bbuf := take (bwp b) (bbuf b) @ bs @ drop (bwp b + length bs) (bbuf b), bwp := bwp b + length bs\<rparr>"
  have "bput b bs = Inr ?b"
    using assms by (simp add: bput_def blit_def)
  moreover have "bdata ?b = bdata b @ bs"
    using assms by (simp add: bdata_def bslice_def BLEN_def wf_block_def drop_take)
  ultimately show thesis
    using assms by (intro that [of ?b]) (simp_all add: wf_block_def)
qed

lemma moves_freeb: "moves k (add_mset (bid b) A) (freeb k b) A"
  by (auto simp: moves_def freeb_def event_def Let_def)

lemma kcalls_freeb [simp]: "kcalls (freeb k b) = kcalls k"
  by (simp add: freeb_def event_def Let_def)

lemma moves_freeblist: "moves k (owned bs + A) (freeblist k bs) A"
proof (induction bs arbitrary: k)
  case (Cons b bs)
  show ?case
    using moves_trans [OF moves_freeb Cons.IH] by simp
qed auto

definition fresh :: "block \<Rightarrow> nat \<Rightarrow> bool" where
  "fresh b n \<longleftrightarrow> wf_block b \<and> brp b = bwp b \<and> bwp b + n \<le> length (bbuf b) \<and> \<not> bintr b \<and> \<not> bfree b"

lemma fresh_data: "fresh b n \<Longrightarrow> wf_block b \<and> BLEN b = 0 \<and> bdata b = []"
  by (simp add: fresh_def BLEN_def bdata_def)

lemma ROUND_8: "s \<le> ROUND s 8" "ROUND s 8 < s + 8"
  unfolding ROUND_def by linarith+

lemma allocb_mem_layout:
  assumes "n + 96 \<le> (len :: nat)"
  shows "ROUND (a + 32) 8 + ROUND n 8 + 43 \<le> (a + len) div 8 * 8" (is "?l \<le> ?r")
    "a + 32 \<le> ROUND (a + 32) 8" "(a + len) div 8 * 8 \<le> a + len"
proof -
  have "ROUND (a + 32) 8 \<le> a + 39" "ROUND n 8 \<le> n + 7" 
    using ROUND_8 [of "a + 32"] ROUND_8 [of n] by linarith+
  moreover have "a + len \<le> ?r + 7"
    by linarith
  ultimately show "?l \<le> ?r"
    using assms by linarith
qed (use ROUND_8 in auto)

lemma allocb_mem_post:
  assumes "al_ok al"
  shows "post {} (\<lambda>(r, k'). case r of
      None \<Rightarrow> oom al = {Epanic} \<and> k' = k\<lparr>kcalls := kcalls k + 1\<rparr>
    | Some b \<Rightarrow> fresh b n \<and> 43 \<le> brp b \<and> bid b = kcalls k \<and> k' = k\<lparr>kcalls := kcalls k + 1, made := bid b # made k\<rparr>)
    (allocb_mem al k n)"
proof (cases "al (kcalls k) (SIZEOF_Block + n + Hdrspc)")
  case None
  then show ?thesis by (simp add: allocb_mem_def oom_def) (metis option.distinct(1))
next
  case (Some r)
  obtain a mem where r: "r = (a, mem)" by force
  have "n + 96 \<le> length mem"
    using assms Some r unfolding al_ok_def by (force simp: SIZEOF_Block_def Hdrspc_def)
  note lay = allocb_mem_layout [OF this, of a]
  show ?thesis
    using Some r lay ROUND_8 [of n]
    by (simp add: allocb_mem_def BLOCKALIGN_def SIZEOF_Block_def Let_def fresh_def wf_block_def)
      (intro conjI; linarith)
qed

lemma moves_made: "moves k A (k\<lparr>kcalls := kcalls k + 1, made := kcalls k # made k\<rparr>) (add_mset (kcalls k) A)"
  by (auto simp: moves_def intro!: exI [of _ "[kcalls k]"])

lemma allocb_post:
  assumes "al_ok al"
  shows "post (oom al) (\<lambda>(b, k'). fresh b n \<and> bid b = kcalls k \<and> (\<forall>A. moves k A k' (add_mset (bid b) A)) \<and> kev k' = kev k)
    (allocb al k n)"
  unfolding allocb_def
proof (rule post_andthen [OF post_weaken [OF allocb_mem_post [OF assms, of k n]]])
  fix x :: "block option \<times> kst"
  assume "case x of (r, k') \<Rightarrow> (case r of
      None \<Rightarrow> oom al = {Epanic} \<and> k' = k\<lparr>kcalls := kcalls k + 1\<rparr>
    | Some b \<Rightarrow> fresh b n \<and> 43 \<le> brp b \<and> bid b = kcalls k \<and> k' = k\<lparr>kcalls := kcalls k + 1, made := bid b # made k\<rparr>)"
  then show "post (oom al) (\<lambda>(b, k'). fresh b n \<and> bid b = kcalls k \<and> (\<forall>A. moves k A k' (add_mset (bid b) A)) \<and> kev k' = kev k)
      (case x of (None, k1) \<Rightarrow> Inl Epanic | (Some b, k1) \<Rightarrow> Inr (b, k1))"
    using moves_made [of k] by (auto split: prod.splits option.splits)
qed auto

lemma concat_loop_ok:
  assumes "wf_block nb" "wf_blocks fs" "bwp nb + blocklen fs \<le> length (bbuf nb)"
  shows "\<exists>nb'. concat_loop nb fs = Inr nb' \<and> wf_block nb' \<and> bdata nb' = bdata nb @ bsdata fs \<and> bid nb' = bid nb"
  using assms
proof (induction fs arbitrary: nb)
  case (Cons f fs)
  then have "bwp nb + length (bdata f) \<le> length (bbuf nb)"
    by simp
  from bput_ok [OF Cons.prems(1) this] obtain nb1 where nb1: "bput nb (bdata f) = Inr nb1" "wf_block nb1"
    "bdata nb1 = bdata nb @ bdata f" "bid nb1 = bid nb" "bwp nb1 = bwp nb + length (bdata f)" "length (bbuf nb1) = length (bbuf nb)"
    by blast
  with Cons.IH [of nb1] Cons.prems show ?case
    by auto
qed auto

lemma concatblock_post:
  assumes al: "al_ok al" and wf: "wf_blocks bs" "bs \<noteq> []"
  shows "post (oom al) (\<lambda>(bs', k'). \<exists>nb. bs' = [nb] \<and> wf_block nb \<and> bdata nb = bsdata bs
     \<and> moves k (owned bs) k' {#bid nb#}) (concatblock al k bs)"
proof (cases "length bs = 1")
  case True
  then show ?thesis
    using wf by (auto simp: length_Suc_conv concatblock_def)
next
  case False
  have "post (oom al) (\<lambda>(bs', k'). \<exists>nb. bs' = [nb] \<and> wf_block nb \<and> bdata nb = bsdata bs
     \<and> moves k (owned bs) k' {#bid nb#})
     (andthen (allocb al k (blocklen bs)) (\<lambda>(nb, k1).
             andthen (concat_loop nb bs) (\<lambda>nb1. Inr ([nb1], freeblist k1 bs))))"
  proof (rule post_andthen [OF allocb_post [OF al]], clarify)
    fix nb k1
    assume nb: "fresh nb (blocklen bs)" "bid nb = kcalls k" "\<forall>A. moves k A k1 (add_mset (bid nb) A)"
    then obtain nb' where nb': "concat_loop nb bs = Inr nb'" "wf_block nb'" "bdata nb' = bsdata bs" "bid nb' = bid nb"
      using concat_loop_ok [of nb bs] wf fresh_data [of nb] by (auto simp: fresh_def)
    have "moves k (owned bs) (freeblist k1 bs) {#bid nb'#}"
      using moves_trans [of k "owned bs" k1 "owned bs + {#bid nb#}"] moves_freeblist [of k1 bs "{#bid nb#}"] nb nb'
      by simp
    with nb' show "post (oom al) (\<lambda>(bs', k'). \<exists>nb. bs' = [nb] \<and> wf_block nb \<and> bdata nb = bsdata bs
        \<and> moves k (owned bs) k' {#bid nb#}) (andthen (concat_loop nb bs) (\<lambda>nb1. Inr ([nb1], freeblist k1 bs)))"
      by simp
  qed
  then show ?thesis
    using wf False by (cases bs rule: remdups_adj.cases) (auto simp: concatblock_def)
qed

lemma bdata_advance:
  assumes "wf_block b" "n \<le> BLEN b"
  shows "wf_block (b\<lparr>brp := brp b + n\<rparr>)" "bdata (b\<lparr>brp := brp b + n\<rparr>) = drop n (bdata b)"
    "BLEN (b\<lparr>brp := brp b + n\<rparr>) = BLEN b - n"
  using assms by (auto simp: wf_block_def BLEN_def bdata_def bslice_def drop_take add.commute)

lemma bdata_truncate:
  assumes "wf_block b" "n \<le> BLEN b"
  shows "wf_block (b\<lparr>bwp := brp b + n\<rparr>)" "bdata (b\<lparr>bwp := brp b + n\<rparr>) = take n (bdata b)"
    "BLEN (b\<lparr>bwp := brp b + n\<rparr>) = n"
  using assms by (auto simp: wf_block_def BLEN_def bdata_def bslice_def)

lemma pullup_loop_ok:
  assumes "wf_block bp" "wf_blocks rest" "0 < n" "bwp bp + n \<le> length (bbuf bp)"
  shows "\<exists>bs' k'. pullup_loop k bp rest n = Inr (bs', k') \<and> wf_blocks bs' \<and> moves k (add_mset (bid bp) (owned rest)) k' (owned bs')
     \<and> (if n \<le> blocklen rest then bsdata bs' = bdata bp @ bsdata rest \<and> bs' \<noteq> [] \<and> BLEN (hd bs') = BLEN bp + n
        else bs' = [])"
  using assms
proof (induction rest arbitrary: k bp n)
  case Nil
  then show ?case
    using moves_freeb [of k bp "{#}"] by simp
next
  case (Cons nb rest)
  let ?m = "min (BLEN nb) n"
  have g: "bget nb 0 ?m = Inr (take ?m (bdata nb))"
    using Cons.prems by (subst bget_data) (simp_all add: bslice_def)
  have "bwp bp + length (take ?m (bdata nb)) \<le> length (bbuf bp)"
    using Cons.prems by simp
  from bput_ok [OF Cons.prems(1) this] obtain bp1 where bp1: "bput bp (take ?m (bdata nb)) = Inr bp1" "wf_block bp1"
    "bdata bp1 = bdata bp @ take ?m (bdata nb)" "bid bp1 = bid bp" "bwp bp1 = bwp bp + ?m" "length (bbuf bp1) = length (bbuf bp)"
    using Cons.prems by auto
  have len1: "BLEN bp1 = BLEN bp + ?m"
    using arg_cong [OF bp1(3), of length] Cons.prems bp1(2) by simp
  show ?case
  proof (cases "BLEN nb > n")
    case True
    then show ?thesis
      using Cons.prems bp1 g len1 bdata_advance [of nb n] by (auto simp: min_def)
  next
    case le: False
    have mv: "moves k (add_mset (bid bp) (owned (nb # rest))) (freeb k nb) (add_mset (bid bp1) (owned rest))"
      using moves_freeb [of k nb "add_mset (bid bp) (owned rest)"] bp1(4) by (simp add: add_mset_commute)
    have t: "take ?m (bdata nb) = bdata nb" "?m = BLEN nb"
      using le Cons.prems by simp_all
    show ?thesis
    proof (cases "n = BLEN nb")
      case True
      then show ?thesis
        using Cons.prems bp1 g len1 t mv by (auto simp: min_def)
    next
      case False
      with le have "0 < n - BLEN nb" "bwp bp1 + (n - BLEN nb) \<le> length (bbuf bp1)"
        using Cons.prems bp1 t by auto
      from Cons.IH [OF bp1(2) _ this, of "freeb k nb"] Cons.prems(2) obtain bs' k' where
        ih: "pullup_loop (freeb k nb) bp1 rest (n - BLEN nb) = Inr (bs', k')" "wf_blocks bs'"
          "moves (freeb k nb) (add_mset (bid bp1) (owned rest)) k' (owned bs')"
          "if n - BLEN nb \<le> blocklen rest then bsdata bs' = bdata bp1 @ bsdata rest \<and> bs' \<noteq> [] \<and> BLEN (hd bs') = BLEN bp1 + (n - BLEN nb)
           else bs' = []"
        by auto
      from ih(4) have "if n \<le> blocklen (nb # rest) then bsdata bs' = bdata bp @ bsdata (nb # rest) \<and> bs' \<noteq> [] \<and> BLEN (hd bs') = BLEN bp + n
           else bs' = []"
        using le False bp1 len1 t by (auto split: if_splits)
      with ih(1,2) moves_trans [OF mv ih(3)] show ?thesis
        using le False g bp1 t by (auto simp: min_def)
    qed
  qed
qed

lemma pullupblock_post:
  assumes al: "al_ok al" and wf: "wf_blocks bs" "bs \<noteq> []"
  shows "post (oom al) (\<lambda>(bs', k'). wf_blocks bs' \<and> moves k (owned bs) k' (owned bs') \<and>
     (if n \<le> blocklen bs then bsdata bs' = bsdata bs \<and> bs' \<noteq> [] \<and> n \<le> BLEN (hd bs') else bs' = []))
     (pullupblock al k bs n)"
proof -
  obtain bp rest where bs: "bs = bp # rest"
    using wf by (cases bs) auto
  let ?P = "\<lambda>(bs', k'). wf_blocks bs' \<and> moves k (owned bs) k' (owned bs') \<and>
     (if n \<le> blocklen bs then bsdata bs' = bsdata bs \<and> bs' \<noteq> [] \<and> n \<le> BLEN (hd bs') else bs' = [])"
  consider "n \<le> BLEN bp" | "BLEN bp < n" "length (bbuf bp) - brp bp < n" | "BLEN bp < n" "n \<le> length (bbuf bp) - brp bp"
    by linarith
  then show ?thesis
  proof cases
    case 1
    then show ?thesis using wf bs by (auto simp: pullupblock_def)
  next
    case 2
    have "post (oom al) ?P (andthen (allocb al k n) (\<lambda>(nb, k1). pullup_loop k1 nb bs (n - BLEN nb)))"
    proof (rule post_andthen [OF allocb_post [OF al]], clarify)
      fix nb k1
      assume nb: "fresh nb n" "\<forall>A. moves k A k1 (add_mset (bid nb) A)"
      then have "\<exists>bs' k'. pullup_loop k1 nb bs n = Inr (bs', k') \<and> wf_blocks bs' \<and> moves k1 (add_mset (bid nb) (owned bs)) k' (owned bs')
         \<and> (if n \<le> blocklen bs then bsdata bs' = bdata nb @ bsdata bs \<and> bs' \<noteq> [] \<and> BLEN (hd bs') = BLEN nb + n else bs' = [])"
        using 2 wf by (intro pullup_loop_ok) (auto simp: fresh_def)
      moreover have "moves k (owned bs) k1 (add_mset (bid nb) (owned bs))"
        using nb(2) by blast
      ultimately show "post (oom al) ?P (pullup_loop k1 nb bs (n - BLEN nb))"
        using fresh_data [OF nb(1)] by (auto split: if_splits dest: moves_trans)
    qed
    then show ?thesis using 2 bs by (simp add: pullupblock_def)
  next
    case 3
    have "\<exists>bs' k'. pullup_loop k bp rest (n - BLEN bp) = Inr (bs', k') \<and> wf_blocks bs' \<and> moves k (add_mset (bid bp) (owned rest)) k' (owned bs')
         \<and> (if n - BLEN bp \<le> blocklen rest then bsdata bs' = bdata bp @ bsdata rest \<and> bs' \<noteq> [] \<and> BLEN (hd bs') = BLEN bp + (n - BLEN bp) else bs' = [])"
      using 3 wf bs by (intro pullup_loop_ok) (auto simp: wf_block_def BLEN_def)
    with 3 show ?thesis using bs by (auto simp: pullupblock_def split: if_splits)
  qed
qed

lemma trim_front_ok:
  assumes "wf_blocks bs" "bs \<noteq> []" "off \<le> blocklen bs"
  shows "\<exists>bp rest off1 k1. trim_front k bs off = Inr (bp # rest, off1, k1) \<and> wf_blocks (bp # rest) \<and> off1 \<le> BLEN bp
     \<and> drop off1 (bsdata (bp # rest)) = drop off (bsdata bs) \<and> moves k (owned bs) k1 (owned (bp # rest))"
  using assms
proof (induction bs arbitrary: k off)
  case (Cons b bs)
  show ?case
  proof (cases "BLEN b < off")
    case True
    then have "bs \<noteq> []" "off - BLEN b \<le> blocklen bs"
      using Cons.prems by auto
    from Cons.IH [OF _ this, of "freeb k b"] Cons.prems(1) obtain bp rest off1 k1 where
      "trim_front (freeb k b) bs (off - BLEN b) = Inr (bp # rest, off1, k1)" "wf_blocks (bp # rest)" "off1 \<le> BLEN bp"
      "drop off1 (bsdata (bp # rest)) = drop (off - BLEN b) (bsdata bs)" "moves (freeb k b) (owned bs) k1 (owned (bp # rest))"
      by auto
    then show ?thesis
      using True Cons.prems moves_trans [OF moves_freeb [of k b "owned bs"]] by auto
  qed (use Cons.prems in auto)
qed simp

lemma trim_back_ok:
  assumes "wf_blocks bs" "bs \<noteq> []" "len \<le> blocklen bs"
  shows "\<exists>bs' k'. trim_back k bs len = Inr (bs', k') \<and> wf_blocks bs' \<and> bs' \<noteq> [] \<and> bsdata bs' = take len (bsdata bs)
     \<and> moves k (owned bs) k' (owned bs')"
  using assms
proof (induction bs arbitrary: k len)
  case (Cons b bs)
  show ?case
  proof (cases "BLEN b < len")
    case True
    then have "bs \<noteq> []" "len - BLEN b \<le> blocklen bs"
      using Cons.prems by auto
    from Cons.IH [OF _ this, of k] Cons.prems(1) obtain bs' k' where
      "trim_back k bs (len - BLEN b) = Inr (bs', k')" "wf_blocks bs'" "bsdata bs' = take (len - BLEN b) (bsdata bs)"
      "moves k (owned bs) k' (owned bs')"
      by auto
    then show ?thesis
      using True Cons.prems moves_frame [of k "owned bs" k' "owned bs'" "{#bid b#}"] by auto
  next
    case False
    have "bwp b - (BLEN b - len) = brp b + len"
      using False Cons.prems by (auto simp: wf_block_def BLEN_def)
    then show ?thesis
      using False Cons.prems bdata_truncate [of b len] moves_freeblist [of k bs "{#bid b#}"] by auto
  qed
qed simp

lemma trim_front_fault: "blocklen bs < off \<Longrightarrow> trim_front k bs off = Inl Efault"
  by (induction bs arbitrary: k off) auto

lemma trim_back_fault: "blocklen bs < len \<Longrightarrow> trim_back k bs len = Inl Efault"
  by (induction bs arbitrary: k len) auto

lemma trimblock_short:
  assumes "wf_blocks bs" "int (blocklen bs) < sint (off + len)"
  shows "\<exists>bs' k'. trimblock k bs off len = Inr (bs', k') \<and> bs' = [] \<and> wf_blocks bs' \<and> moves k (owned bs) k' (owned bs')"
  using assms moves_freeblist [of k bs "{#}"] by (auto simp: trimblock_def)

lemma trimblock_long:
  assumes "wf_blocks bs" "bs \<noteq> []" "sint (off + len) \<le> int (blocklen bs)"
  shows "if unat off + unat len \<le> blocklen bs
    then \<exists>bs' k'. trimblock k bs off len = Inr (bs', k') \<and> bs' \<noteq> [] \<and> bsdata bs' = take (unat len) (drop (unat off) (bsdata bs))
       \<and> wf_blocks bs' \<and> moves k (owned bs) k' (owned bs')
    else trimblock k bs off len = Inl Efault"
proof (cases "unat off \<le> blocklen bs")
  case True
  then obtain bp rest off1 k1 where f: "trim_front k bs (unat off) = Inr (bp # rest, off1, k1)" "wf_blocks (bp # rest)" "off1 \<le> BLEN bp"
     "drop off1 (bsdata (bp # rest)) = drop (unat off) (bsdata bs)" "moves k (owned bs) k1 (owned (bp # rest))"
    using trim_front_ok [OF assms(1,2), of "unat off" k] by auto
  let ?bs = "bp\<lparr>brp := brp bp + off1\<rparr> # rest"
  have d: "bsdata ?bs = drop (unat off) (bsdata bs)" "wf_blocks ?bs"
    using f bdata_advance [of bp off1] by auto
  have l: "blocklen ?bs = blocklen bs - unat off"
    using d(1) blocklen_data [OF d(2)] blocklen_data [OF assms(1)] by (simp del: bsdata_simps blocklen.simps)
  have t: "trimblock k bs off len = trim_back k1 ?bs (unat len)"
    using f(1) assms(3) by (simp add: trimblock_def del: trim_back.simps)
  show ?thesis
  proof (cases "unat off + unat len \<le> blocklen bs")
    case True
    then have "unat len \<le> blocklen ?bs" unfolding l by linarith
    then obtain bs' k' where "trim_back k1 ?bs (unat len) = Inr (bs', k')" "wf_blocks bs'" "bs' \<noteq> []"
       "bsdata bs' = take (unat len) (bsdata ?bs)" "moves k1 (owned ?bs) k' (owned bs')"
      using trim_back_ok [OF d(2), of "unat len" k1] by blast
    then show ?thesis
      using True t d(1) moves_trans [OF f(5), of k' "owned bs'"] by (simp del: trim_back.simps bsdata_simps)
  next
    case False
    then have "blocklen ?bs < unat len" unfolding l using \<open>unat off \<le> blocklen bs\<close> by linarith
    then show ?thesis using False t trim_back_fault by simp
  qed
qed (use assms(3) trim_front_fault [of bs "unat off" k] in \<open>simp add: trimblock_def\<close>)

lemma trimblock_accounts:
  assumes "wf_blocks bs" "bs \<noteq> []" "trimblock k bs off len = Inr (bs', k')"
  shows "wf_blocks bs' \<and> moves k (owned bs) k' (owned bs')"
proof (cases "int (blocklen bs) < sint (off + len)")
  case True
  then show ?thesis using trimblock_short [OF assms(1) True, of k] assms(3) by auto
next
  case False
  then show ?thesis using trimblock_long [OF assms(1,2), of off len k] assms(3) by (auto split: if_splits)
qed

lemma sint_add_small:
  assumes "unat (x :: u32) + unat y < 2 ^ 31"
  shows "sint (x + y) = int (unat x + unat y)"
proof -
  have u: "unat (x + y) = unat x + unat y"
    using assms by (simp add: unat_word_ariths)
  have "uint (x + y) = int (unat (x + y))" by simp
  then have "uint (x + y) = int (unat x + unat y)" unfolding u .
  moreover have "signed_take_bit 31 (int n) = int n" if "n < 2 ^ 31" for n
    using that by (simp add: signed_take_bit_int_eq_self)
  then have "signed_take_bit 31 (int (unat x + unat y)) = int (unat x + unat y)" using assms by blast
  ultimately show ?thesis unfolding sint_uint by simp
qed

lemma copy_loop_ok:
  assumes "wf_block nb" "wf_blocks bs" "bwp nb + cnt \<le> length (bbuf nb)"
  shows "\<exists>nb'. copy_loop nb bs cnt = Inr (nb', cnt - blocklen bs) \<and> wf_block nb' \<and> bid nb' = bid nb
     \<and> bdata nb' = bdata nb @ take cnt (bsdata bs) \<and> bwp nb' + (cnt - blocklen bs) \<le> length (bbuf nb')"
  using assms
proof (induction bs arbitrary: nb cnt)
  case (Cons b bs)
  let ?m = "min (BLEN b) cnt"
  have g: "bget b 0 ?m = Inr (take ?m (bdata b))"
    using Cons.prems by (subst bget_data) (simp_all add: bslice_def)
  have "bwp nb + length (take ?m (bdata b)) \<le> length (bbuf nb)"
    using Cons.prems by simp
  from bput_ok [OF Cons.prems(1) this] obtain nb1 where nb1: "bput nb (take ?m (bdata b)) = Inr nb1" "wf_block nb1"
    "bdata nb1 = bdata nb @ take ?m (bdata b)" "bid nb1 = bid nb" "bwp nb1 = bwp nb + ?m" "length (bbuf nb1) = length (bbuf nb)"
    using Cons.prems by auto
  from Cons.IH [OF nb1(2), of "cnt - ?m"] Cons.prems nb1 obtain nb' where
    "copy_loop nb1 bs (cnt - ?m) = Inr (nb', cnt - ?m - blocklen bs)" "wf_block nb'" "bid nb' = bid nb"
    "bdata nb' = bdata nb1 @ take (cnt - ?m) (bsdata bs)" "bwp nb' + (cnt - ?m - blocklen bs) \<le> length (bbuf nb')"
    by auto
  then show ?case
    using Cons.prems nb1 g by (cases "BLEN b \<le> cnt") (auto simp: Let_def min_def)
qed auto

lemma copyblock_post:
  assumes al: "al_ok al" and wf: "wf_blocks bs"
  shows "post (oom al) (\<lambda>(nb, k'). wf_block nb \<and> bdata nb = take cnt (bsdata bs) @ replicate (cnt - blocklen bs) 0
     \<and> (\<forall>A. moves k A k' (add_mset (bid nb) A))) (copyblock al k bs cnt)"
  unfolding copyblock_def
proof (rule post_andthen [OF allocb_post [OF al]], clarify)
  fix nb k1
  assume nb: "fresh nb cnt" "\<forall>A. moves k A k1 (add_mset (bid nb) A)"
  then obtain nb1 where nb1: "copy_loop nb bs cnt = Inr (nb1, cnt - blocklen bs)" "wf_block nb1" "bid nb1 = bid nb"
     "bdata nb1 = take cnt (bsdata bs)" "bwp nb1 + (cnt - blocklen bs) \<le> length (bbuf nb1)"
    using copy_loop_ok [of nb bs cnt] wf fresh_data [OF nb(1)] by (auto simp: fresh_def)
  obtain nb2 where "bput nb1 (replicate (cnt - blocklen bs) 0) = Inr nb2" "wf_block nb2" "bid nb2 = bid nb"
     "bdata nb2 = bdata nb1 @ replicate (cnt - blocklen bs) 0"
    using bput_ok [OF nb1(2), of "replicate (cnt - blocklen bs) 0"] nb1 by auto
  with nb nb1 show "post (oom al) (\<lambda>(nb, k'). wf_block nb \<and> bdata nb = take cnt (bsdata bs) @ replicate (cnt - blocklen bs) 0
     \<and> (\<forall>A. moves k A k' (add_mset (bid nb) A)))
     (andthen (copy_loop nb bs cnt) (\<lambda>(nb1, left).
         if left > 0 then andthen (bput nb1 (replicate left 0)) (\<lambda>nb2. Inr (nb2, k1)) else Inr (nb1, k1)))"
    by auto
qed

lemma pullblock_ok:
  assumes "wf_blocks bs"
  shows "\<exists>bs' k'. pullblock k bs cnt = (min cnt (blocklen bs), bs', k') \<and> wf_blocks bs' \<and> bsdata bs' = drop cnt (bsdata bs)
     \<and> moves k (owned bs) k' (owned bs')"
  using assms
proof (induction bs arbitrary: k cnt)
  case (Cons b bs)
  let ?n = "min (BLEN b) cnt"
  let ?b = "b\<lparr>brp := brp b + ?n\<rparr>"
  have b: "wf_block ?b" "bdata ?b = drop ?n (bdata b)" "BLEN ?b = BLEN b - ?n" "bid ?b = bid b"
    using bdata_advance [of b ?n] Cons.prems by auto
  show ?case
  proof (cases "cnt = 0 \<or> cnt < BLEN b")
    case True
    then show ?thesis
      using Cons.prems b by (auto simp: Let_def min_def)
  next
    case False
    from Cons.IH [of "freeb k ?b" "cnt - BLEN b"] Cons.prems obtain bs' k' where
      "pullblock (freeb k ?b) bs (cnt - BLEN b) = (min (cnt - BLEN b) (blocklen bs), bs', k')" "wf_blocks bs'"
      "bsdata bs' = drop (cnt - BLEN b) (bsdata bs)" "moves (freeb k ?b) (owned bs) k' (owned bs')"
      by auto
    moreover have "moves k (owned (b # bs)) (freeb k ?b) (owned bs)"
      using moves_freeb [of k ?b "owned bs"] b by simp
    ultimately show ?thesis
      using Cons.prems b False moves_trans [of k "owned (b # bs)" "freeb k ?b" "owned bs" k' "owned bs'"]
      by (auto simp: Let_def min_def split: prod.splits)
  qed
qed auto

lemma packblock_post:
  assumes al: "al_ok al" and wf: "wf_blocks bs"
  shows "post (oom al) (\<lambda>(bs', k'). wf_blocks bs' \<and> map bdata bs' = map bdata bs \<and> moves k (owned bs) k' (owned bs'))
     (packblock al k bs)"
  using wf
proof (induction bs arbitrary: k)
  case (Cons b bs)
  let ?P = "\<lambda>k A (bs', k'). wf_blocks bs' \<and> map bdata bs' = map bdata bs \<and> moves k A k' (owned bs')"
  have tail: "post (oom al) (\<lambda>(bs', k'). wf_blocks bs' \<and> map bdata bs' = map bdata (b # bs) \<and> moves k (owned (b # bs)) k' (owned bs'))
     (andthen (packblock al k1 bs) (\<lambda>(bs', k2). Inr (b1 # bs', k2)))"
    if "wf_block b1" "bdata b1 = bdata b" "moves k (owned (b # bs)) k1 (owned (b1 # bs))" for k1 b1
  proof (rule post_andthen [OF Cons.IH], use Cons.prems in simp, clarify)
    fix bs' k2
    assume "wf_blocks bs'" "map bdata bs' = map bdata bs" "moves k1 (owned bs) k2 (owned bs')"
    with that show "post (oom al) (\<lambda>(bs', k'). wf_blocks bs' \<and> map bdata bs' = map bdata (b # bs) \<and> moves k (owned (b # bs)) k' (owned bs'))
       (Inr (b1 # bs', k2))"
      using moves_trans [OF that(3)] moves_frame [of k1 "owned bs" k2 "owned bs'" "{#bid b1#}"] by auto
  qed
  show ?case
  proof (cases "4 * BLEN b < BALLOC b")
    case True
    have "post (oom al) (\<lambda>(bs', k'). wf_blocks bs' \<and> map bdata bs' = map bdata (b # bs) \<and> moves k (owned (b # bs)) k' (owned bs'))
     (andthen (allocb al k (BLEN b)) (\<lambda>(nb, k1).
         andthen (bget b 0 (BLEN b)) (\<lambda>d. andthen (bput nb d) (\<lambda>b1.
           andthen (packblock al (freeb k1 b) bs) (\<lambda>(bs', k2). Inr (b1 # bs', k2))))))"
    proof (rule post_andthen [OF allocb_post [OF al]], clarify)
      fix nb k1
      assume nb: "fresh nb (BLEN b)" "\<forall>A. moves k A k1 (add_mset (bid nb) A)"
      then have "bwp nb + length (bdata b) \<le> length (bbuf nb)" "wf_block nb"
        using Cons.prems by (auto simp: fresh_def)
      from bput_ok [OF this(2,1)] fresh_data [OF nb(1)] obtain b1 where b1: "bput nb (bdata b) = Inr b1" "wf_block b1"
        "bdata b1 = bdata b" "bid b1 = bid nb"
        by auto
      have "moves k (owned (b # bs)) k1 (owned (b1 # b # bs))"
        using nb(2) b1 by simp
      moreover have "moves k1 (owned (b1 # b # bs)) (freeb k1 b) (owned (b1 # bs))"
        using moves_freeb [of k1 b "owned (b1 # bs)"] by (simp add: add_mset_commute)
      ultimately have "moves k (owned (b # bs)) (freeb k1 b) (owned (b1 # bs))"
        by (rule moves_trans)
      from tail [OF b1(2,3) this] b1 Cons.prems show "post (oom al) (\<lambda>(bs', k'). wf_blocks bs' \<and> map bdata bs' = map bdata (b # bs) \<and> moves k (owned (b # bs)) k' (owned bs'))
         (andthen (bget b 0 (BLEN b)) (\<lambda>d. andthen (bput nb d) (\<lambda>b1.
           andthen (packblock al (freeb k1 b) bs) (\<lambda>(bs', k2). Inr (b1 # bs', k2)))))"
        by simp
    qed
    then show ?thesis using True by (simp add: Let_def)
  next
    case False
    then show ?thesis using tail [of b k] Cons.prems by (auto simp: Let_def)
  qed
qed auto

lemma padblock_post:
  assumes al: "al_ok al" and wf: "wf_blocks (bp # rest)" and sz: "0 \<le> sz"
  shows "post (oom al \<union> {e. e = Epanic \<and> rest \<noteq> [] \<and> int (brp bp) < sz})
     (\<lambda>(bs', k'). wf_blocks bs' \<and> bs' \<noteq> [] \<and> BLEN (hd bs') = nat sz + BLEN bp
        \<and> drop (nat sz) (bsdata bs') = bsdata (bp # rest) \<and> moves k (owned (bp # rest)) k' (owned bs'))
     (padblock al k (bp # rest) sz)"
proof -
  let ?P = "\<lambda>(bs', k'). wf_blocks bs' \<and> bs' \<noteq> [] \<and> BLEN (hd bs') = nat sz + BLEN bp
        \<and> drop (nat sz) (bsdata bs') = bsdata (bp # rest) \<and> moves k (owned (bp # rest)) k' (owned bs')"
  consider "sz \<le> int (brp bp)" | "int (brp bp) < sz" "rest \<noteq> []" | "int (brp bp) < sz" "rest = []"
    by linarith
  then show ?thesis
  proof cases
    case 1
    then have "nat sz \<le> brp bp"
      by linarith
    then have "wf_block (bp\<lparr>brp := brp bp - nat sz\<rparr>)" "BLEN (bp\<lparr>brp := brp bp - nat sz\<rparr>) = nat sz + BLEN bp"
      "drop (nat sz) (bdata (bp\<lparr>brp := brp bp - nat sz\<rparr>)) = bdata bp"
      using wf by (auto simp: wf_block_def BLEN_def bdata_def bslice_def drop_take)
    then show ?thesis
      using 1 wf sz by (auto simp: padblock_def)
  next
    case 2
    then show ?thesis using sz by (auto simp: padblock_def)
  next
    case 3
    have "post (oom al) ?P (andthen (allocb al k (nat sz + BLEN bp)) (\<lambda>(nb, k1).
             let nb1 = nb\<lparr>brp := brp nb + nat sz, bwp := brp nb + nat sz\<rparr> in
             andthen (bget bp 0 (BLEN bp)) (\<lambda>d. andthen (bput nb1 d) (\<lambda>nb2.
               Inr ([nb2\<lparr>brp := brp nb2 - nat sz\<rparr>], freeb k1 bp)))))"
    proof (rule post_andthen [OF allocb_post [OF al]], clarify)
      fix nb k1
      assume nb: "fresh nb (nat sz + BLEN bp)" "\<forall>A. moves k A k1 (add_mset (bid nb) A)"
      let ?nb = "nb\<lparr>brp := brp nb + nat sz, bwp := brp nb + nat sz\<rparr>"
      have "wf_block ?nb" "bwp ?nb + length (bdata bp) \<le> length (bbuf ?nb)"
        using nb(1) wf by (auto simp: fresh_def wf_block_def)
      from bput_ok [OF this] obtain nb2 where "bput ?nb (bdata bp) = Inr nb2" "wf_block nb2"
        "bdata nb2 = bdata ?nb @ bdata bp" "bid nb2 = bid ?nb" "brp nb2 = brp ?nb" "bwp nb2 = bwp ?nb + length (bdata bp)"
        by blast
      then have nb2: "bput ?nb (bdata bp) = Inr nb2" "wf_block nb2"
        "bdata nb2 = bdata ?nb @ bdata bp" "bid nb2 = bid nb" "brp nb2 = brp nb + nat sz" "bwp nb2 = brp nb + nat sz + BLEN bp"
        using wf by simp_all
      have e: "bdata ?nb = []"
        by (simp add: BLEN_def)
      let ?nb2 = "nb2\<lparr>brp := brp nb2 - nat sz\<rparr>"
      have d: "wf_block ?nb2" "drop (nat sz) (bdata ?nb2) = bdata nb2" "BLEN ?nb2 = nat sz + BLEN bp"
        using nb2 by (auto simp: wf_block_def BLEN_def bdata_def bslice_def drop_take add.commute)
      have "moves k {#bid bp#} k1 {#bid bp, bid nb#}"
        using nb(2)[rule_format, of "{#bid bp#}"] by (simp add: add_mset_commute)
      with moves_freeb [of k1 bp "{#bid nb#}"] have "moves k {#bid bp#} (freeb k1 bp) {#bid nb#}"
        by (rule moves_trans [rotated])
      then show "post (oom al) ?P (let nb1 = ?nb in andthen (bget bp 0 (BLEN bp)) (\<lambda>d. andthen (bput nb1 d) (\<lambda>nb2.
               Inr ([nb2\<lparr>brp := brp nb2 - nat sz\<rparr>], freeb k1 bp))))"
        using nb2 d e 3 wf by (simp add: Let_def)
    qed
    then have "post (oom al) ?P (padblock al k (bp # rest) sz)"
      using 3 sz by (simp add: padblock_def)
    then show ?thesis by (rule post_weaken) auto
  qed
qed

lemma padblock_back_post:
  assumes al: "al_ok al" and wf: "wf_block bp" and sz: "sz < 0"
  shows "post (oom al) (\<lambda>(bs', k'). \<exists>nb. bs' = [nb] \<and> wf_block nb \<and> bdata nb = bdata bp
        \<and> nat (- sz) \<le> length (bbuf nb) - bwp nb \<and> moves k {#bid bp#} k' {#bid nb#})
     (padblock al k [bp] sz)"
proof (cases "nat (- sz) \<le> length (bbuf bp) - bwp bp")
  case True
  then show ?thesis using wf sz by (auto simp: padblock_def)
next
  case False
  let ?P = "\<lambda>(bs', k'). \<exists>nb. bs' = [nb] \<and> wf_block nb \<and> bdata nb = bdata bp
        \<and> nat (- sz) \<le> length (bbuf nb) - bwp nb \<and> moves k {#bid bp#} k' {#bid nb#}"
  have "post (oom al) ?P (andthen (allocb al k (nat (- sz) + BLEN bp)) (\<lambda>(nb, k1).
             andthen (bget bp 0 (BLEN bp)) (\<lambda>d. andthen (bput nb d) (\<lambda>nb1.
               Inr ([nb1], freeb k1 bp)))))"
  proof (rule post_andthen [OF allocb_post [OF al]], clarify)
    fix nb k1
    assume nb: "fresh nb (nat (- sz) + BLEN bp)" "\<forall>A. moves k A k1 (add_mset (bid nb) A)"
    then have "wf_block nb" "bwp nb + length (bdata bp) \<le> length (bbuf nb)"
      using wf by (auto simp: fresh_def)
    from bput_ok [OF this] obtain nb1 where nb1: "bput nb (bdata bp) = Inr nb1" "wf_block nb1"
      "bdata nb1 = bdata nb @ bdata bp" "bid nb1 = bid nb" "bwp nb1 = bwp nb + length (bdata bp)"
      "length (bbuf nb1) = length (bbuf nb)"
      by blast
    have "moves k {#bid bp#} k1 {#bid bp, bid nb#}"
      using nb(2)[rule_format, of "{#bid bp#}"] by (simp add: add_mset_commute)
    with moves_freeb [of k1 bp "{#bid nb#}"] have "moves k {#bid bp#} (freeb k1 bp) {#bid nb#}"
      by (rule moves_trans [rotated])
    then show "post (oom al) ?P (andthen (bget bp 0 (BLEN bp)) (\<lambda>d. andthen (bput nb d) (\<lambda>nb1. Inr ([nb1], freeb k1 bp))))"
      using nb1 nb(1) wf fresh_data [OF nb(1)] by (simp add: fresh_def) linarith
  qed
  then show ?thesis using False sz by (simp add: padblock_def)
qed

lemma padblock_back_chain:
  assumes al: "al_ok al" and wf: "wf_blocks (bp # rest)" and sz: "sz < 0"
  shows "post (oom al \<union> {e. e = Epanic \<and> rest \<noteq> []})
     (\<lambda>(bs', k'). \<exists>b'. bs' = [b'] \<and> wf_block b' \<and> bdata b' = bsdata (bp # rest) \<and> nat (- sz) \<le> length (bbuf b') - bwp b'
        \<and> moves k (owned (bp # rest)) k' (owned bs'))
     (padblock al k (bp # rest) sz)"
proof (cases "rest = []")
  case True
  have "wf_block bp" using wf by simp
  then show ?thesis unfolding True
    by (intro post_weaken [OF padblock_back_post [OF al _ sz]]) auto
qed (use sz in \<open>simp add: padblock_def\<close>)

lemma adjustblock_post:
  assumes al: "al_ok al" and wf: "wf_block bp"
  shows "post (oom al) (\<lambda>(bs', k'). wf_blocks bs' \<and> moves k {#bid bp#} k' (owned bs') \<and>
     (if len < 0 then bs' = [] else bs' \<noteq> [] \<and> bsdata bs' = take (nat len) (bdata bp) @ replicate (nat len - BLEN bp) 0))
     (adjustblock al k [bp] len)"
proof -
  let ?P = "\<lambda>(bs', k'). wf_blocks bs' \<and> moves k {#bid bp#} k' (owned bs') \<and>
     (if len < 0 then bs' = [] else bs' \<noteq> [] \<and> bsdata bs' = take (nat len) (bdata bp) @ replicate (nat len - BLEN bp) 0)"
  consider "len < 0" | "0 \<le> len" "brp bp + nat len > length (bbuf bp)" | "0 \<le> len" "brp bp + nat len \<le> length (bbuf bp)"
    by linarith
  then show ?thesis
  proof cases
    case 1
    then show ?thesis using moves_freeb [of k bp "{#}"] by (simp add: adjustblock_def)
  next
    case 2
    have "post (oom al) ?P (andthen (copyblock al k [bp] (nat len)) (\<lambda>(nb, k1). Inr ([nb], freeblist k1 [bp])))"
    proof (rule post_andthen [OF copyblock_post [OF al]], use wf in simp, clarify)
      fix nb k1
      assume nb: "wf_block nb" "bdata nb = take (nat len) (bsdata [bp]) @ replicate (nat len - blocklen [bp]) 0"
        "\<forall>A. moves k A k1 (add_mset (bid nb) A)"
      have "moves k {#bid bp#} k1 {#bid bp, bid nb#}"
        using nb(3)[rule_format, of "{#bid bp#}"] by (simp add: add_mset_commute)
      with moves_freeb [of k1 bp "{#bid nb#}"] have "moves k {#bid bp#} (freeb k1 bp) {#bid nb#}"
        by (rule moves_trans [rotated])
      with nb 2 show "post (oom al) ?P (Inr ([nb], freeblist k1 [bp]))"
        by simp
    qed
    then show ?thesis using 2 by (simp add: adjustblock_def)
  next
    case 3
    show ?thesis
    proof (cases "nat len \<le> BLEN bp")
      case True
      then show ?thesis
        using 3 wf bdata_truncate [of bp "nat len"] by (auto simp: adjustblock_def)
    next
      case False
      let ?r = "replicate (nat len - BLEN bp) (0 :: byte)"
      have w: "bwp bp + (nat len - BLEN bp) = brp bp + nat len"
        using False wf by (auto simp: wf_block_def BLEN_def)
      have "wf_block bp" "bwp bp + length ?r \<le> length (bbuf bp)"
        using 3 w wf by simp_all
      from bput_ok [OF this] obtain b' where b': "bput bp ?r = Inr b'" "wf_block b'" "bdata b' = bdata bp @ ?r" "bid b' = bid bp"
        by blast
      have "adjustblock al k [bp] len = andthen (bput bp ?r) (\<lambda>b. Inr ([b], k))"
        using 3 False w by (simp add: adjustblock_def bput_def andthen_assoc)
      then show ?thesis
        using b' 3 False wf by auto
    qed
  qed
qed

lemma moves_same: "made k' = made k \<Longrightarrow> freed k' = freed k \<Longrightarrow> kcalls k \<le> kcalls k' \<Longrightarrow> moves k A k' A"
  by (simp add: moves_def)

lemma iallocb_post:
  assumes al: "al_ok al"
  shows "post {Eexit} (\<lambda>(r, k'). kev k' = kev k \<and> freed k' = freed k \<and> (case r of
      None \<Rightarrow> \<forall>A. moves k A k' A
    | Some b \<Rightarrow> wf_block b \<and> brp b = bwp b \<and> bwp b + n \<le> length (bbuf b) \<and> bintr b \<and> \<not> bfree b
        \<and> ibytes k' = ibytes k + int (BALLOC b) \<and> (\<forall>A. moves k A k' (add_mset (bid b) A))))
    (iallocb al k n)"
proof -
  have mv: "moves k A (k\<lparr>kcalls := kcalls k + 1, made := kcalls k # made k, ibytes := z\<rparr>) (add_mset (kcalls k) A)" for A z
    using moves_trans [OF moves_made [of k A] moves_same] by simp
  show ?thesis
  proof (cases "ibytes k > ilimit k")
    case True
    then show ?thesis by (auto simp: iallocb_def Let_def intro!: moves_same)
  next
    case False
    show ?thesis
      unfolding iallocb_def if_not_P [OF False]
      by (rule post_andthen [OF post_weaken [OF allocb_mem_post [OF al, of k n]]])
        (use mv in \<open>auto simp: Let_def fresh_def BALLOC_def wf_block_def intro!: moves_same split: prod.splits option.splits\<close>)
  qed
qed


subsection \<open>Accounting for any sequence of block operations\<close>

text \<open>The contract that the operations on a chain share: they keep the blocks well formed and account for every
  block. \<open>ok\<close> is what the operation asks of the allocator, \<open>dom\<close> what it asks of the chain, and \<open>lost\<close> the blocks it
  drops without releasing them.\<close>

locale chain_op =
  fixes ok :: bool and dom :: "block list \<Rightarrow> bool"
    and f :: "kst \<Rightarrow> block list \<Rightarrow> (block list \<times> kst) outcome"
    and lost :: "kst \<Rightarrow> block list \<Rightarrow> nat multiset"
  assumes op: "ok \<Longrightarrow> wf_blocks bs \<Longrightarrow> dom bs \<Longrightarrow> f k bs = Inr (bs', k') \<Longrightarrow>
     wf_blocks bs' \<and> moves k (owned bs) k' (owned bs' + lost k bs)"
begin

lemma keeps_accounts:
  assumes "ok" "dom bs" "f k bs = Inr (bs', k')" "wf_blocks bs" "accounted k (owned bs + R)"
  shows "wf_blocks bs' \<and> accounted k' (owned bs' + lost k bs + R)"
  using op [OF assms(1,4,2,3)] accounted_moves [OF assms(5) moves_frame] by blast

lemma frees_once:
  assumes "ok" "dom bs" "f k bs = Inr (bs', k')" "wf_blocks bs" "accounted k (owned bs + R)"
  shows "distinct (map bid bs') \<and> (\<forall>b \<in> set bs'. bid b \<notin> set (freed k')) \<and> distinct (freed k')"
proof -
  have acc: "accounted k' (owned bs' + lost k bs + R)"
    using keeps_accounts [OF assms] by blast
  have "Multiset.count (owned bs') i \<le> 1" for i
    using accounted_distinct(1) [OF acc, of i] by simp
  then have "distinct (map bid bs')"
    by (rule distinct_countI)
  moreover have "\<forall>b \<in> set bs'. bid b \<notin> set (freed k')"
    using accounted_distinct(2) [OF acc] by force
  moreover have "distinct (freed k')"
    using accounted_distinct(3) [OF acc] .
  ultimately show ?thesis by blast
qed

end

lemma post_Inr_elim: "post E P m \<Longrightarrow> m = Inr x \<Longrightarrow> P x"
  by simp

lemma adjustblock_accounts:
  assumes al: "al_ok al" and wf: "wf_blocks bs" and len: "0 \<le> len" and r: "adjustblock al k bs len = Inr (bs', k')"
  shows "wf_blocks bs' \<and> moves k (owned bs) k' (owned bs')"
proof -
  obtain bp rest where bs: "bs = bp # rest"
    using r by (cases bs) (auto simp: adjustblock_def)
  show ?thesis
  proof (cases "brp bp + nat len > length (bbuf bp)")
    case True
    with r bs len obtain nb k1 where c: "copyblock al k bs (nat len) = Inr (nb, k1)" "bs' = [nb]" "k' = freeblist k1 bs"
      by (auto simp: adjustblock_def andthen_eq_Inr)
    have "wf_block nb" "moves k (owned bs) k1 (owned bs + {#bid nb#})"
      using post_Inr_elim [OF copyblock_post [OF al wf] c(1)] by simp_all
    with c show ?thesis
      using moves_trans [OF _ moves_freeblist] by auto
  next
    case False
    then have "wf_block bp \<Longrightarrow> \<exists>b'. bs' = b' # rest \<and> k' = k \<and> wf_block b' \<and> bid b' = bid bp"
      using r bs len by (auto simp: adjustblock_def andthen_eq_Inr blit_def wf_block_def BLEN_def split: if_splits)
    with wf bs show ?thesis by auto
  qed
qed

lemma adjustblock_drops:
  assumes "wf_blocks bs" "len < 0" "adjustblock al k bs len = Inr (bs', k')"
  shows "bs' = [] \<and> moves k (owned bs) k' (owned (tl bs))"
proof -
  obtain bp rest where bs: "bs = bp # rest"
    using assms(3) by (cases bs) (auto simp: adjustblock_def)
  then show ?thesis using assms(2,3) moves_freeb [of k bp "owned rest"] by (auto simp: adjustblock_def)
qed

interpretation pad: chain_op "al_ok al" "\<lambda>bs. bs \<noteq> []" "\<lambda>k bs. padblock al k bs sz" "\<lambda>_ _. {#}" for al sz
proof
  fix bs k bs' k'
  assume a: "al_ok al" "wf_blocks bs" "bs \<noteq> []" "padblock al k bs sz = Inr (bs', k')"
  then obtain bp rest where b: "bs = bp # rest" by (cases bs) auto
  have p: "padblock al k (bp # rest) sz = Inr (bs', k')" "wf_blocks (bp # rest)" using a b by simp_all
  show "wf_blocks bs' \<and> moves k (owned bs) k' (owned bs' + {#})"
  proof (cases "0 \<le> sz")
    case True
    then show ?thesis using post_Inr_elim [OF padblock_post [OF a(1) p(2) True] p(1)] b by simp
  next
    case False
    then show ?thesis using post_Inr_elim [OF padblock_back_chain [OF a(1) p(2)] p(1)] b by auto
  qed
qed

interpretation cat: chain_op "al_ok al" "\<lambda>bs. bs \<noteq> []" "concatblock al" "\<lambda>_ _. {#}" for al
  by unfold_locales (drule (3) post_Inr_elim [OF concatblock_post], auto)

interpretation pullup: chain_op "al_ok al" "\<lambda>bs. bs \<noteq> []" "\<lambda>k bs. pullupblock al k bs n" "\<lambda>_ _. {#}" for al n
  by unfold_locales (drule (3) post_Inr_elim [OF pullupblock_post], auto)

interpretation trim: chain_op True "\<lambda>bs. bs \<noteq> []" "\<lambda>k bs. trimblock k bs off len" "\<lambda>_ _. {#}" for off len
  by unfold_locales (use trimblock_accounts in simp)

interpretation adjust: chain_op "al_ok al" "\<lambda>bs. True" "\<lambda>k bs. adjustblock al k bs len"
  "\<lambda>_ bs. if len < 0 then owned (tl bs) else {#}" for al len
proof
  fix bs k bs' k'
  assume a: "al_ok al" "wf_blocks bs" "adjustblock al k bs len = Inr (bs', k')"
  show "wf_blocks bs' \<and> moves k (owned bs) k' (owned bs' + (if len < 0 then owned (tl bs) else {#}))"
  proof (cases "len < 0")
    case True
    then show ?thesis using adjustblock_drops [OF a(2) True a(3)] by simp
  next
    case False
    then show ?thesis using adjustblock_accounts [OF a(1,2) _ a(3)] by simp
  qed
qed

interpretation pull: chain_op True "\<lambda>bs. True" "\<lambda>k bs. Inr (snd (pullblock k bs cnt))" "\<lambda>_ _. {#}" for cnt
proof
  fix bs k bs' k'
  assume "wf_blocks bs" "Inr (snd (pullblock k bs cnt)) = (Inr (bs', k') :: (block list \<times> kst) outcome)"
  then show "wf_blocks bs' \<and> moves k (owned bs) k' (owned bs' + {#})"
    using pullblock_ok [of bs k cnt] by (cases "pullblock k bs cnt") auto
qed

interpretation pack: chain_op "al_ok al" "\<lambda>bs. True" "packblock al" "\<lambda>_ _. {#}" for al
  by unfold_locales (drule (2) post_Inr_elim [OF packblock_post], auto)


text \<open>A protocol handler works on a chain with a sequence of such operations. \<open>Pad\<close>, \<open>Trim\<close> and \<open>Adjust\<close> take any
  argument; a count below zero is not an argument of \<open>pullupblock\<close> or \<open>pullblock\<close> here.\<close>

datatype bop = Pad int | Concat | Pullup nat | Trim u32 u32 | Adjust int | Pull nat | Pack

fun run_bop :: "allocator \<Rightarrow> bop \<Rightarrow> kst \<Rightarrow> block list \<Rightarrow> (block list \<times> kst) outcome" where
  "run_bop al (Pad n) k bs = padblock al k bs n"
| "run_bop al Concat k bs = concatblock al k bs"
| "run_bop al (Pullup n) k bs = pullupblock al k bs n"
| "run_bop al (Trim off len) k bs = trimblock k bs off len"
| "run_bop al (Adjust n) k bs = adjustblock al k bs n"
| "run_bop al (Pull n) k bs = Inr (snd (pullblock k bs n))"
| "run_bop al Pack k bs = packblock al k bs"

primrec run_bops :: "allocator \<Rightarrow> bop list \<Rightarrow> kst \<Rightarrow> block list \<Rightarrow> (block list \<times> kst) outcome" where
  "run_bops al [] k bs = Inr (bs, k)"
| "run_bops al (p # ps) k bs = andthen (run_bop al p k bs) (\<lambda>(bs', k'). run_bops al ps k' bs')"

text \<open>The blocks behind the first of every chain that the run gives to \<open>adjustblock\<close> with a negative length.\<close>

fun dropped :: "bop \<Rightarrow> block list \<Rightarrow> nat multiset" where
  "dropped (Adjust n) bs = (if n < 0 then owned (tl bs) else {#})"
| "dropped p bs = {#}"

primrec all_dropped :: "allocator \<Rightarrow> bop list \<Rightarrow> kst \<Rightarrow> block list \<Rightarrow> nat multiset" where
  "all_dropped al [] k bs = {#}"
| "all_dropped al (p # ps) k bs = dropped p bs +
     (case run_bop al p k bs of Inl e \<Rightarrow> {#} | Inr (bs', k') \<Rightarrow> all_dropped al ps k' bs')"

lemma dropped_none: "(\<And>n. p = Adjust n \<Longrightarrow> 0 \<le> n) \<Longrightarrow> dropped p bs = {#}"
  by (cases p) auto

lemma all_dropped_none: "(\<And>n. Adjust n \<in> set ps \<Longrightarrow> 0 \<le> n) \<Longrightarrow> all_dropped al ps k bs = {#}"
  by (induction ps arbitrary: k bs) (auto simp: dropped_none split: sum.splits)

lemma run_bop_nil: "run_bop al p k [] = Inr (bs', k') \<Longrightarrow> bs' = [] \<and> k' = k \<and> dropped p [] = {#}"
  by (cases p) (auto simp: padblock_def concatblock_def pullupblock_def trimblock_def adjustblock_def split: if_splits)

interpretation any_bop: chain_op "al_ok al" "\<lambda>bs. True" "run_bop al p" "\<lambda>_. dropped p" for al p
proof
  fix bs k bs' k'
  assume a: "al_ok al" "wf_blocks bs" "run_bop al p k bs = Inr (bs', k')"
  show "wf_blocks bs' \<and> moves k (owned bs) k' (owned bs' + dropped p bs)"
  proof (cases "bs = []")
    case True
    with run_bop_nil [of al p k bs' k'] a(3) have "bs' = []" "k' = k" "dropped p [] = {#}" by simp_all
    then show ?thesis using True by auto
  next
    case False
    with a show ?thesis
      by (cases p) (auto dest: pad.op [rotated 3] cat.op [rotated 3] pullup.op [rotated 3]
        trim.op [rotated 3] adjust.op [rotated 3] pull.op [simplified, rotated] pack.op [rotated 3])
  qed
qed

interpretation bops: chain_op "al_ok al" "\<lambda>bs. True" "run_bops al ps" "all_dropped al ps" for al ps
proof
  fix bs k bs' k'
  assume al: "al_ok al" and "wf_blocks bs" "run_bops al ps k bs = Inr (bs', k')"
  then show "wf_blocks bs' \<and> moves k (owned bs) k' (owned bs' + all_dropped al ps k bs)"
  proof (induction ps arbitrary: k bs)
    case (Cons p ps)
    then obtain bs1 k1 where 1: "run_bop al p k bs = Inr (bs1, k1)" and 2: "run_bops al ps k1 bs1 = Inr (bs', k')"
      by (auto simp: andthen_eq_Inr)
    have s: "wf_blocks bs1" "moves k (owned bs) k1 (owned bs1 + dropped p bs)"
      using any_bop.op [OF al Cons.prems(2) _ 1] by auto
    then have t: "wf_blocks bs'" "moves k1 (owned bs1) k' (owned bs' + all_dropped al ps k1 bs1)"
      using Cons.IH [OF al _ 2] by auto
    then show ?case
      using moves_trans [OF s(2) moves_frame [OF t(2), of "dropped p bs"]] 1 by (simp add: ac_simps)
  qed auto
qed


subsection \<open>Properties\<close>

text \<open>An allocator and a state for concrete runs: memory at consecutive addresses.\<close>

definition bump :: allocator where
  "bump n s = Some (1000 * n + 4, replicate (s + 3) 0)"

definition kst0 :: kst where
  "kst0 = \<lparr>kcalls = 0, made = [], freed = [], ibytes = 0, ilimit = 1000000, im1 = 0, im2 = 0, imp = 0, kev = []\<rparr>"

lemma bump_ok [simp]: "al_ok bump" "oom bump = {}"
  by (simp_all add: al_ok_def bump_def oom_def)

text \<open>Two blocks with data, and the state after they were allocated.\<close>

definition blk :: "nat \<Rightarrow> byte list \<Rightarrow> block" where
  "blk i d = \<lparr>bid = i, bintr = False, bfree = False, bbuf = [0, 0] @ d @ [0, 0, 0], brp = 2, bwp = 2 + length d\<rparr>"

lemma blk_simps [simp]:
  "wf_block (blk i d)" "bdata (blk i d) = d" "BLEN (blk i d) = length d" "bid (blk i d) = i"
  by (simp_all add: blk_def wf_block_def bdata_def bslice_def BLEN_def)

definition kst2 :: kst where
  "kst2 = kst0\<lparr>kcalls := 2, made := [1, 0]\<rparr>"

lemma kst2_accounted: "accounted kst2 (owned [blk 0 x, blk 1 y] + {#})"
  by (auto simp: accounted_def kst2_def kst0_def add_mset_commute)

text \<open>C11: any sequence of block operations that comes to an end accounts for every block: no block of the resulting chain
  has been released, no block has been released twice, and every allocated block is in the chain, in the rest
  \<open>R\<close> of the system, released, or one of those that \<open>adjustblock\<close> with a negative length drops: the blocks
  behind the first of the chain it is given. Without such a call none is dropped.\<close>

theorem bops_accounted:
  assumes "al_ok al" "wf_blocks bs" "accounted k (owned bs + R)" "run_bops al ps k bs = Inr (bs', k')"
  shows "wf_blocks bs' \<and> accounted k' (owned bs' + all_dropped al ps k bs + R) \<and> distinct (freed k')
     \<and> (\<forall>b \<in> set bs'. bid b \<notin> set (freed k'))
     \<and> ((\<forall>n. Adjust n \<in> set ps \<longrightarrow> 0 \<le> n) \<longrightarrow> all_dropped al ps k bs = {#})"
  using bops.keeps_accounts [OF assms(1) TrueI assms(4,2,3)] bops.frees_once [OF assms(1) TrueI assms(4,2,3)] all_dropped_none
  by blast

theorem bops_accounted_witness:
  "\<exists>bs' k'. run_bops bump [Pull 1, Trim 1 1, Pad 1, Adjust 1] kst2 [blk 0 [1, 2], blk 1 [3]] = Inr (bs', k')
     \<and> accounted k' (owned bs') \<and> distinct (freed k') \<and> bs' \<noteq> []"
proof -
  let ?ps = "[Pull 1, Trim 1 1, Pad 1, Adjust 1]" and ?bs = "[blk 0 [1, 2], blk 1 [3]]"
  have "\<exists>bs' k'. run_bops bump ?ps kst2 ?bs = Inr (bs', k') \<and> bs' \<noteq> []"
    by (simp add: Let_def BLEN_def blk_def trimblock_def padblock_def adjustblock_def)
  then obtain bs' k' where r: "run_bops bump ?ps kst2 ?bs = Inr (bs', k')" "bs' \<noteq> []" by blast
  have "wf_blocks ?bs" by simp
  from bops_accounted [OF bump_ok(1) this kst2_accounted r(1)]
  have "accounted k' (owned bs' + all_dropped bump ?ps kst2 ?bs + {#})" "distinct (freed k')"
    "(\<forall>n. Adjust n \<in> set ?ps \<longrightarrow> 0 \<le> n) \<longrightarrow> all_dropped bump ?ps kst2 ?bs = {#}" by blast+
  then show ?thesis using r by auto
qed

text \<open>C12: \<open>pullupblock\<close> on a chain with at least \<open>n\<close> bytes gives a chain with the same bytes whose first block holds \<open>n\<close>
  of them; a shorter chain is released as a whole and the result is nil. It only stops when the
  allocator has no memory.\<close>

theorem pullupblock_spec:
  assumes "al_ok al" "wf_blocks bs" "bs \<noteq> []"
  shows "post (oom al) (\<lambda>(bs', k'). wf_blocks bs' \<and> moves k (owned bs) k' (owned bs') \<and>
     (if n \<le> blocklen bs then bsdata bs' = bsdata bs \<and> bs' \<noteq> [] \<and> n \<le> BLEN (hd bs') else bs' = []))
     (pullupblock al k bs n)"
  using assms by (rule pullupblock_post)

theorem pullupblock_spec_witness:
  "\<exists>bs' k'. pullupblock bump kst2 [blk 0 [1, 2], blk 1 [3, 4]] 3 = Inr (bs', k') \<and> bsdata bs' = [1, 2, 3, 4] \<and> 3 \<le> BLEN (hd bs')"
  using post_value [OF pullupblock_spec [of bump "[blk 0 [1, 2], blk 1 [3, 4]]" kst2 3, simplified]] by auto

text \<open>C13: \<open>trimblock\<close>. When \<open>offset\<close> and \<open>len\<close> and their sum are not negative as \<open>int\<close>s it never fails: it leaves exactly the \<open>len\<close>
  bytes from \<open>offset\<close> on and releases the blocks it no longer needs, or, on a chain that is too short, releases it
  and gives nil. On all arguments it follows a nil pointer exactly when the wrapped sum passes the test
  against the length and the two numbers, read as unsigned, reach past the end of the chain.\<close>

theorem trimblock_spec:
  assumes "wf_blocks bs" "bs \<noteq> []"
  shows "(unat off + unat len < 2 ^ 31 \<longrightarrow>
      (\<exists>bs' k'. trimblock k bs off len = Inr (bs', k') \<and> wf_blocks bs' \<and> moves k (owned bs) k' (owned bs')
        \<and> (if unat off + unat len \<le> blocklen bs then bs' \<noteq> [] \<and> bsdata bs' = take (unat len) (drop (unat off) (bsdata bs)) else bs' = [])))
    \<and> (\<forall>e. trimblock k bs off len = Inl e \<longleftrightarrow>
         e = Efault \<and> sint (off + len) \<le> int (blocklen bs) \<and> blocklen bs < unat off + unat len)"
proof (cases "int (blocklen bs) < sint (off + len)")
  case True
  have "\<not> unat off + unat len \<le> blocklen bs" if "unat off + unat len < 2 ^ 31"
    using True sint_add_small [OF that] by linarith
  then show ?thesis using True trimblock_short [OF assms(1) True, of k] by (auto simp del: of_nat_add)
next
  case False
  then have "sint (off + len) \<le> int (blocklen bs)" by simp
  have l: "unat off + unat len \<le> blocklen bs" if "unat off + unat len < 2 ^ 31"
    using False sint_add_small [OF that] by linarith
  note t = trimblock_long [OF assms \<open>sint (off + len) \<le> int (blocklen bs)\<close>, of k]
  show ?thesis
  proof (cases "unat off + unat len \<le> blocklen bs")
    case True
    then show ?thesis using t by auto
  next
    case False
    then show ?thesis using t l \<open>sint (off + len) \<le> int (blocklen bs)\<close> by auto
  qed
qed

theorem trimblock_spec_witness:
  "(\<exists>bs' k'. trimblock kst2 [blk 0 [1, 2, 3], blk 1 [4, 5]] 2 2 = Inr (bs', k') \<and> bsdata bs' = [3, 4])
   \<and> trimblock kst2 [blk 0 [1, 2, 3], blk 1 [4, 5]] 0x7FFFFFFF 1 = Inl Efault"
proof -
  let ?bs = "[blk 0 [1, 2, 3], blk 1 [4, 5]]"
  have w: "wf_blocks ?bs" "?bs \<noteq> []" by simp_all
  have "sint (0x7FFFFFFF + 1 :: u32) \<le> 5" by simp
  then have "trimblock kst2 ?bs 0x7FFFFFFF 1 = Inl Efault"
    using trimblock_spec [OF w, of "0x7FFFFFFF" 1 kst2] by simp
  moreover have "\<exists>bs' k'. trimblock kst2 ?bs 2 2 = Inr (bs', k') \<and> bsdata bs' = [3, 4]"
    using trimblock_spec [OF w, of 2 2 kst2] by (auto simp: drop_Cons')
  ultimately show ?thesis by blast
qed

text \<open>C14: \<open>padblock\<close>. A size that is not negative opens that many bytes in front of the data; a negative one makes room for
  that many bytes behind the data of a single block. The data stays as it was; a new block replaces the old one
  if that has no room. It stops only when the allocator has no memory, or when the block is not the last of its
  chain and the size is negative or the block has no room in front. The sizes are those of memory: they add
  up to less than \<open>2^31\<close>.\<close>

theorem padblock_spec:
  assumes "al_ok al" "wf_blocks (bp # rest)" "\<bar>sz\<bar> + int (BLEN bp) < 2 ^ 31"
  shows "post (oom al \<union> {e. e = Epanic \<and> rest \<noteq> [] \<and> (sz < 0 \<or> int (brp bp) < sz)})
     (\<lambda>(bs', k'). wf_blocks bs' \<and> bs' \<noteq> [] \<and> moves k (owned (bp # rest)) k' (owned bs') \<and>
        (if 0 \<le> sz then BLEN (hd bs') = nat sz + BLEN bp \<and> drop (nat sz) (bsdata bs') = bsdata (bp # rest)
         else bsdata bs' = bsdata (bp # rest) \<and> nat (- sz) \<le> length (bbuf (hd bs')) - bwp (hd bs')))
     (padblock al k (bp # rest) sz)"
proof (cases "0 \<le> sz")
  case True
  then show ?thesis by (auto intro!: post_weaken [OF padblock_post [OF assms(1,2) True]])
next
  case False
  then have "sz < 0" by simp
  then show ?thesis by (auto intro!: post_weaken [OF padblock_back_chain [OF assms(1,2)]])
qed

theorem padblock_spec_witness:
  "(\<exists>bs' k'. padblock bump kst2 [blk 0 [1, 2]] 20 = Inr (bs', k') \<and> drop 20 (bsdata bs') = [1, 2])
   \<and> (\<exists>bs' k'. padblock bump kst2 [blk 0 [1, 2]] (- 20) = Inr (bs', k') \<and> bsdata bs' = [1, 2] \<and> 20 \<le> length (bbuf (hd bs')) - bwp (hd bs'))"
  using post_value [OF padblock_spec [of bump "blk 0 [1, 2]" "[]" 20 kst2, simplified]]
    post_value [OF padblock_spec [of bump "blk 0 [1, 2]" "[]" "- 20" kst2, simplified]] by auto

end
