(* ===== verification/Queues.thy ===== *)
theory Queues
  imports Blocks
begin

text \<open>
  The I/O queues of the kernel, \<open>9/port/qio.c\<close>. A queue is the record of \<open>struct Queue\<close>; the chain from
  \<open>bfirst\<close> is the list \<open>q_blocks\<close> and \<open>q_last\<close> names the block \<open>blast\<close> points to. Appending to a chain whose
  last block is not the one \<open>blast\<close> points to is a fault, so that the theorems show the
  pointer to be right. The bits of \<open>state\<close> are a set. What an operation does under \<open>ilock\<close> is one step; \<open>qread\<close>, which
  copies the blocks it took without the lock, is two (\<open>qread_take\<close>, \<open>qread_finish\<close>). A process that would \<open>sleep\<close>
  gets a result that says so; \<open>sleep\<close> and \<open>wakeup\<close> themselves are steps of the system in \<open>QueueIO\<close>.
  The lock \<open>rlock\<close> (see \<open>QLocks\<close>) serialises \<open>qread\<close> and \<open>qbread\<close>, but not \<open>qget\<close> and \<open>qconsume\<close>. Calls of \<open>wakeup\<close>, \<open>kick\<close> and
  \<open>bypass\<close>, made after \<open>iunlock\<close>, are recorded as events.

  Main results: the invariant (\<open>len\<close> and \<open>dlen\<close> count the chain, \<open>blast\<close> is its end), the stream
  law (what was put in comes out, in order), flow control and wakeups, and what the closed queue does.
\<close>

subsection \<open>State\<close>

datatype qflag = Qstarve | Qmsg | Qclosed | Qflow | Qcoalesce | Qkick

record queue =
  q_blocks :: "block list"
  q_last :: "nat option"
  q_len :: int
  q_dlen :: int
  q_limit :: int
  q_inilim :: int
  q_state :: "qflag set"
  q_noblock :: bool
  q_eof :: nat
  q_kick :: bool
  q_bypass :: bool
  q_err :: string

definition Maxatomic :: nat where
  "Maxatomic = 64 * 1024"

definition Ehungup :: string where
  "Ehungup = ''i/o on hungup channel''"

definition ERRMAX :: nat where
  "ERRMAX = 128"

definition set_flag :: "qflag \<Rightarrow> queue \<Rightarrow> queue" where
  "set_flag s q = q\<lparr>q_state := insert s (q_state q)\<rparr>"

definition clear_flag :: "qflag \<Rightarrow> queue \<Rightarrow> queue" where
  "clear_flag s q = q\<lparr>q_state := q_state q - {s}\<rparr>"

text \<open>\<open>if(q->bfirst) q->blast->next = b; else q->bfirst = b;\<close> and \<open>q->blast\<close> set to the end of the new
  chain.\<close>

definition link_blocks :: "queue \<Rightarrow> block list \<Rightarrow> queue outcome" where
  "link_blocks q bs =
    (if bs = [] then Inl Efault
     else if q_blocks q = [] \<or> q_last q = Some (bid (last (q_blocks q))) then
       Inr (q\<lparr>q_blocks := q_blocks q @ bs, q_last := Some (bid (last bs))\<rparr>)
     else Inl Efault)"

text \<open>The block \<open>b\<close> at the front comes off: \<open>q->bfirst = b->next\<close>, \<open>q->len -= BALLOC(b)\<close>,
  \<open>q->dlen -= BLEN(b)\<close>.\<close>

definition unlink :: "queue \<Rightarrow> block \<Rightarrow> block list \<Rightarrow> queue" where
  "unlink q b rest =
     q\<lparr>q_blocks := rest, q_len := q_len q - int (BALLOC b), q_dlen := q_dlen q - int (BLEN b)\<rparr>"

text \<open>\<open>limit/2\<close>: C division, towards zero.\<close>

definition half :: "int \<Rightarrow> int" where
  "half l = (if l < 0 then - (- l div 2) else l div 2)"

text \<open>\<open>if((q->state & Qflow) && q->len < lim)\<close> clear the bit and wake the writer.\<close>

definition restart :: "int \<Rightarrow> queue \<Rightarrow> kst \<Rightarrow> queue \<times> kst" where
  "restart lim q k =
    (if Qflow \<in> q_state q \<and> q_len q < lim then (clear_flag Qflow q, event Wakeup_wr k) else (q, k))"

text \<open>\<open>if(q->state & Qstarve)\<close> clear the bit; the flag says whether to wake the reader.\<close>

definition unstarve :: "queue \<Rightarrow> queue \<times> bool" where
  "unstarve q = (if Qstarve \<in> q_state q then (clear_flag Qstarve q, True) else (q, False))"


subsection \<open>Removing from a queue\<close>

definition pullupqueue :: "allocator \<Rightarrow> queue \<Rightarrow> kst \<Rightarrow> nat \<Rightarrow> (queue \<times> kst) outcome" where
  "pullupqueue al q k n =
    (case q_blocks q of
       [] \<Rightarrow> Inl Efault
     | b # _ \<Rightarrow>
         if BLEN b \<ge> n then Inr (q, k)
         else andthen (pullupblock al k (q_blocks q) n) (\<lambda>(bs, k1).
           Inr (q\<lparr>q_blocks := bs, q_last := (if bs = [] then None else Some (bid (last bs)))\<rparr>, k1)))"

definition qget :: "queue \<Rightarrow> kst \<Rightarrow> block option \<times> queue \<times> kst" where
  "qget q k =
    (case q_blocks q of
       [] \<Rightarrow> (None, set_flag Qstarve q, k)
     | b # rest \<Rightarrow>
         (let q1 = unlink q b rest;
              (q2, k2) = restart (half (q_limit q1)) q1 k
          in (Some b, q2, k2)))"

text \<open>The loop of \<open>qdiscard\<close> over the chain; \<open>len\<close> counts down.\<close>

primrec discard_loop :: "kst \<Rightarrow> queue \<Rightarrow> block list \<Rightarrow> nat \<Rightarrow> nat \<times> queue \<times> kst" where
  "discard_loop k q [] len = (0, q, k)"
| "discard_loop k q (b # rest) len =
    (if len = 0 then (0, q, k)
     else if BLEN b \<le> len then
       (let (m, q2, k2) = discard_loop (freeb k b) (unlink q b rest) rest (len - BLEN b)
        in (BLEN b + m, q2, k2))
     else (len, q\<lparr>q_blocks := b\<lparr>brp := brp b + len\<rparr> # rest, q_dlen := q_dlen q - int len\<rparr>, k))"

definition qdiscard :: "queue \<Rightarrow> kst \<Rightarrow> nat \<Rightarrow> nat \<times> queue \<times> kst" where
  "qdiscard q k len =
    (let (n, q1, k1) = discard_loop k q (q_blocks q) len;
         (q2, k2) = restart (q_limit q1) q1 k1
     in (n, q2, k2))"

text \<open>\<open>qconsume\<close>: the first loop moves empty blocks to the list \<open>tofree\<close>.\<close>

primrec consume_skip :: "queue \<Rightarrow> block list \<Rightarrow> block list \<Rightarrow> queue \<times> block list" where
  "consume_skip q tofree [] = (q, tofree)"
| "consume_skip q tofree (b # rest) =
    (if BLEN b > 0 then (q, tofree)
     else consume_skip (q\<lparr>q_blocks := rest, q_len := q_len q - int (BALLOC b)\<rparr>) (b # tofree) rest)"

definition qconsume :: "queue \<Rightarrow> kst \<Rightarrow> nat \<Rightarrow> (byte list option \<times> queue \<times> kst) outcome" where
  "qconsume q k len =
    (let (q1, tofree) = consume_skip q [] (q_blocks q) in
     case q_blocks q1 of
       [] \<Rightarrow> Inr (None, set_flag Qstarve q1, k)
     | b # rest \<Rightarrow>
         let n = min (BLEN b) len in
         andthen (bget b 0 n) (\<lambda>d.
           let b1 = b\<lparr>brp := brp b + n\<rparr>;
               q2 = q1\<lparr>q_dlen := q_dlen q1 - int n\<rparr>;
               (q3, tofree3) =
                 (if Qmsg \<in> q_state q2 \<or> n = BLEN b then
                    (unlink q2 b1 rest, b1 # tofree)
                  else (q2\<lparr>q_blocks := b1 # rest\<rparr>, tofree));
               (q4, k4) = restart (half (q_limit q3)) q3 k
           in Inr (Some d, q4, freeblist k4 tofree3)))"


subsection \<open>Adding to a queue\<close>

text \<open>The part \<open>qpass\<close> and \<open>qpassnolim\<close> share. A closed queue: the chain is released and then
  \<open>BALLOC(b)\<close> is read from it.\<close>

definition qpassnolim :: "queue \<Rightarrow> kst \<Rightarrow> block list \<Rightarrow> (int \<times> queue \<times> kst) outcome" where
  "qpassnolim q k bs =
    (if Qclosed \<in> q_state q then Inl Efault
     else andthen (link_blocks q bs) (\<lambda>q1.
       let q2 = q1\<lparr>q_len := q_len q1 + int (blockalloclen bs), q_dlen := q_dlen q1 + int (blocklen bs)\<rparr>;
           q3 = (if q_len q2 \<ge> half (q_limit q2) then set_flag Qflow q2 else q2);
           (q4, dowakeup) = unstarve q3
       in Inr (int (blockalloclen bs), q4, if dowakeup then event Wakeup_rr k else k)))"

definition qpass :: "queue \<Rightarrow> kst \<Rightarrow> block list \<Rightarrow> (int \<times> queue \<times> kst) outcome" where
  "qpass q k bs =
    (if q_len q \<ge> q_limit q then Inr (- 1, q, freeblist k bs) else qpassnolim q k bs)"

definition qproduce :: "allocator \<Rightarrow> queue \<Rightarrow> kst \<Rightarrow> byte list \<Rightarrow> (int \<times> queue \<times> kst) outcome" where
  "qproduce al q k d =
    (if q_len q \<ge> q_limit q then Inr (- 1, set_flag Qflow q, k)
     else andthen (iallocb al k (length d)) (\<lambda>(r, k1).
       case r of
         None \<Rightarrow> Inr (0, q, k1)
       | Some b \<Rightarrow>
           andthen (bput b d) (\<lambda>b1.
           andthen (link_blocks q [b1]) (\<lambda>q1.
             let q2 = q1\<lparr>q_len := q_len q1 + int (BALLOC b1), q_dlen := q_dlen q1 + int (BLEN b1)\<rparr>;
                 (q3, dowakeup) = unstarve q2;
                 q4 = (if q_len q3 \<ge> q_limit q3 then set_flag Qflow q3 else q3)
             in Inr (int (length d), q4, if dowakeup then event Wakeup_rr k1 else k1)))))"

text \<open>\<open>qcopy\<close>: find the block that holds the offset, then copy.\<close>

primrec copy_seek :: "block list \<Rightarrow> nat \<Rightarrow> (block list \<times> nat) option" where
  "copy_seek [] off = None"
| "copy_seek (b # bs) off = (if BLEN b > off then Some (b # bs, off) else copy_seek bs (off - BLEN b))"

primrec qcopy_loop :: "block \<Rightarrow> block list \<Rightarrow> nat \<Rightarrow> nat \<Rightarrow> block outcome" where
  "qcopy_loop nb [] start len = Inr nb"
| "qcopy_loop nb (b # bs) start len =
    (if len = 0 then Inr nb
     else let n = min (BLEN b - start) len in
       andthen (bget b start n) (\<lambda>d. andthen (bput nb d) (\<lambda>nb1. qcopy_loop nb1 bs 0 (len - n))))"

definition qcopy :: "allocator \<Rightarrow> queue \<Rightarrow> kst \<Rightarrow> nat \<Rightarrow> nat \<Rightarrow> (block \<times> kst) outcome" where
  "qcopy al q k len off =
     andthen (allocb al k len) (\<lambda>(nb, k1).
       case copy_seek (q_blocks q) off of
         None \<Rightarrow> Inr (nb, k1)
       | Some (bs, start) \<Rightarrow> andthen (qcopy_loop nb bs start len) (\<lambda>nb1. Inr (nb1, k1)))"

text \<open>\<open>mem\<close> says whether \<open>malloc\<close> has memory for the structure, which it clears.\<close>

definition qopen :: "bool \<Rightarrow> int \<Rightarrow> qflag set \<Rightarrow> bool \<Rightarrow> queue option" where
  "qopen mem lim msg kick =
    (if mem then Some \<lparr>q_blocks = [], q_last = None, q_len = 0, q_dlen = 0, q_limit = lim, q_inilim = lim,
       q_state = insert Qstarve msg, q_noblock = False, q_eof = 0, q_kick = kick, q_bypass = False, q_err = ''''\<rparr>
     else None)"

definition qbypass :: "bool \<Rightarrow> queue option" where
  "qbypass mem =
    (if mem then Some \<lparr>q_blocks = [], q_last = None, q_len = 0, q_dlen = 0, q_limit = 0, q_inilim = 0,
       q_state = {}, q_noblock = False, q_eof = 0, q_kick = False, q_bypass = True, q_err = ''''\<rparr>
     else None)"


subsection \<open>Reading\<close>

definition notempty :: "queue \<Rightarrow> bool" where
  "notempty q \<longleftrightarrow> Qclosed \<in> q_state q \<or> q_blocks q \<noteq> []"

text \<open>\<open>qwait\<close>: 1, 0, -1, or the process sleeps until \<open>notempty\<close>.\<close>

datatype wait = Wdata | Wclosed | Werror | Wsleep

definition qwait :: "queue \<Rightarrow> wait \<times> queue" where
  "qwait q =
    (if q_blocks q \<noteq> [] then (Wdata, q)
     else if Qclosed \<in> q_state q then
       (let q1 = q\<lparr>q_eof := q_eof q + 1\<rparr> in
        if q_eof q1 > 3 then (Werror, q1)
        else if q_err q1 \<noteq> '''' \<and> q_err q1 \<noteq> Ehungup then (Werror, q1)
        else (Wclosed, q1))
     else (Wsleep, set_flag Qstarve q))"

definition qaddlist :: "queue \<Rightarrow> block list \<Rightarrow> queue outcome" where
  "qaddlist q bs = andthen (link_blocks q bs) (\<lambda>q1.
     Inr (q1\<lparr>q_len := q_len q1 + int (blockalloclen bs), q_dlen := q_dlen q1 + int (blocklen bs)\<rparr>))"

definition qremove :: "queue \<Rightarrow> block option \<times> queue" where
  "qremove q =
    (case q_blocks q of
       [] \<Rightarrow> (None, q)
     | b # rest \<Rightarrow> (Some b, unlink q b rest))"

text \<open>\<open>bl2mem\<close>: the bytes copied, the blocks that are left and the state.\<close>

primrec bl2mem :: "kst \<Rightarrow> block list \<Rightarrow> nat \<Rightarrow> (byte list \<times> block list \<times> kst) outcome" where
  "bl2mem k [] n = Inr ([], [], k)"
| "bl2mem k (b # bs) n =
    (if BLEN b > n then
       andthen (bget b 0 n) (\<lambda>d. Inr (d, b\<lparr>brp := brp b + n\<rparr> # bs, k))
     else andthen (bget b 0 (BLEN b)) (\<lambda>d.
       andthen (bl2mem (freeb k b) bs (n - BLEN b)) (\<lambda>(d', r, k'). Inr (d @ d', r, k'))))"

function mem2bl :: "allocator \<Rightarrow> kst \<Rightarrow> byte list \<Rightarrow> (block list \<times> kst) outcome" where
  "mem2bl al k p =
    (let n = min (length p) Maxatomic in
     andthen (allocb al k n) (\<lambda>(b, k1).
       andthen (bput b (take n p)) (\<lambda>b1.
         if length p - n > 0 then
           andthen (mem2bl al k1 (drop n p)) (\<lambda>(bs, k2). Inr (b1 # bs, k2))
         else Inr ([b1], k1))))"
  by pat_completeness auto
termination
  by (relation "measure (\<lambda>(al, k, p). length p)") (auto simp: Maxatomic_def)

definition qputback :: "queue \<Rightarrow> block \<Rightarrow> queue" where
  "qputback q b =
     q\<lparr>q_blocks := b # q_blocks q,
       q_last := (if q_blocks q = [] then Some (bid b) else q_last q),
       q_len := q_len q + int (BALLOC b), q_dlen := q_dlen q + int (BLEN b)\<rparr>"

definition qwakeup_iunlock :: "queue \<Rightarrow> kst \<Rightarrow> queue \<times> kst" where
  "qwakeup_iunlock q k =
    (if Qflow \<in> q_state q \<and> q_len q < half (q_limit q) then
       (clear_flag Qflow q, event Wakeup_wr (if q_kick q then event Kick k else k))
     else (q, k))"

text \<open>What a reader gets: it sleeps, reads end of file, gets \<open>q->err\<close>, or reads.\<close>

datatype 'a rres = Rsleep | Reof | Rerror string | Rok 'a

definition qbread :: "allocator \<Rightarrow> queue \<Rightarrow> kst \<Rightarrow> nat \<Rightarrow> (block rres \<times> queue \<times> kst) outcome" where
  "qbread al q k len =
    (case qwait q of
       (Wsleep, q1) \<Rightarrow> Inr (Rsleep, q1, k)
     | (Wclosed, q1) \<Rightarrow> Inr (Reof, q1, k)
     | (Werror, q1) \<Rightarrow> Inr (Rerror (q_err q1), q1, k)
     | (Wdata, q1) \<Rightarrow>
        (case qremove q1 of
           (None, _) \<Rightarrow> Inl Efault
         | (Some b, q2) \<Rightarrow>
             andthen
               (if BLEN b > len then
                  andthen
                    (if Qmsg \<notin> q_state q2 then
                       andthen (allocb al k (BLEN b - len)) (\<lambda>(b1, k1).
                       andthen (bget b len (BLEN b - len)) (\<lambda>d.
                       andthen (bput b1 d) (\<lambda>b2. Inr (qputback q2 b2, k1))))
                     else Inr (q2, k))
                    (\<lambda>(q3, k3). Inr (b\<lparr>bwp := brp b + len\<rparr>, q3, k3))
                else Inr (b, q2, k))
               (\<lambda>(nb, q3, k3). let (q4, k4) = qwakeup_iunlock q3 k3 in Inr (Rok nb, q4, k4))))"

text \<open>\<open>qread\<close>. When coalescing, empty blocks at the front are released and the test is made again
  (\<open>goto again\<close>): \<open>read_skip\<close>. Then the first block and as many following ones as fit in the read are taken off the
  queue: \<open>read_grab\<close>.\<close>

primrec read_skip :: "queue \<Rightarrow> kst \<Rightarrow> block list \<Rightarrow> queue \<times> kst" where
  "read_skip q k [] = (q, k)"
| "read_skip q k (b # bs) = (if BLEN b = 0 then read_skip (unlink q b bs) (freeb k b) bs else (q, k))"

primrec read_grab :: "nat \<Rightarrow> nat \<Rightarrow> queue \<Rightarrow> block list \<Rightarrow> block list \<times> queue" where
  "read_grab len n q [] = ([], q)"
| "read_grab len n q (b # bs) =
    (if n + BLEN b > len then ([], q)
     else let (taken, q1) = read_grab len (n + BLEN b) (unlink q b bs) bs in (b # taken, q1))"

text \<open>First half of \<open>qread\<close>, up to the \<open>iunlock\<close> before the copy: the blocks taken.\<close>

definition qread_take :: "queue \<Rightarrow> kst \<Rightarrow> nat \<Rightarrow> block list rres \<times> queue \<times> kst" where
  "qread_take q k len =
    (let (q0, k0) = (if Qcoalesce \<in> q_state q then read_skip q k (q_blocks q) else (q, k)) in
     case qwait q0 of
       (Wsleep, q1) \<Rightarrow> (Rsleep, q1, k0)
     | (Wclosed, q1) \<Rightarrow> (Reof, q1, k0)
     | (Werror, q1) \<Rightarrow> (Rerror (q_err q1), q1, k0)
     | (Wdata, q1) \<Rightarrow>
        (case qremove q1 of
           (None, q2) \<Rightarrow> (Rok [], q2, k0)
         | (Some b, q2) \<Rightarrow>
             if Qcoalesce \<in> q_state q then
               (let (taken, q3) = read_grab len (BLEN b) q2 (q_blocks q2) in (Rok (b # taken), q3, k0))
             else (Rok [b], q2, k0)))"

text \<open>Second half: what is left of a partly read block is put back, or released on a message queue.\<close>

definition qread_finish :: "queue \<Rightarrow> kst \<Rightarrow> block list \<Rightarrow> queue \<times> kst" where
  "qread_finish q k left =
    (let (q1, k1) =
       (case left of
          [] \<Rightarrow> (q, k)
        | b # _ \<Rightarrow> if Qmsg \<in> q_state q then (q, freeb k b) else (qputback q b, k))
     in qwakeup_iunlock q1 k1)"

text \<open>The count returned, the bytes copied to \<open>vp\<close>.\<close>

definition qread :: "queue \<Rightarrow> kst \<Rightarrow> nat \<Rightarrow> ((nat \<times> byte list) rres \<times> queue \<times> kst) outcome" where
  "qread q k len =
    (case qread_take q k len of
       (Rsleep, q1, k1) \<Rightarrow> Inr (Rsleep, q1, k1)
     | (Reof, q1, k1) \<Rightarrow> Inr (Reof, q1, k1)
     | (Rerror e, q1, k1) \<Rightarrow> Inr (Rerror e, q1, k1)
     | (Rok bs, q1, k1) \<Rightarrow>
         andthen (bl2mem k1 bs len) (\<lambda>(d, left, k2).
           let n = blocklen bs - (case left of [] \<Rightarrow> 0 | b # _ \<Rightarrow> BLEN b);
               (q3, k3) = qread_finish q1 k2 left
           in Inr (Rok (n, d), q3, k3)))"


subsection \<open>Writing\<close>

definition qnotfull :: "queue \<Rightarrow> bool" where
  "qnotfull q \<longleftrightarrow> q_len q < q_limit q \<or> Qclosed \<in> q_state q"

text \<open>\<open>Wok n\<close> and \<open>Werr\<close>: \<open>qbwrite\<close> returns; \<open>Wblock n\<close>: the block is queued and the process sleeps until
  \<open>qnotfull\<close>.\<close>

datatype wres = Wok nat | Werr string | Wblock nat

text \<open>The loop at the end of \<open>qbwrite\<close>.\<close>

definition qbwrite_wait :: "queue \<Rightarrow> nat \<Rightarrow> wres \<times> queue" where
  "qbwrite_wait q n = (if q_noblock q \<or> qnotfull q then (Wok n, q) else (Wblock n, set_flag Qflow q))"

definition qbwrite :: "queue \<Rightarrow> kst \<Rightarrow> block \<Rightarrow> (wres \<times> queue \<times> kst) outcome" where
  "qbwrite q k b =
    (let n = BLEN b in
     if q_bypass q then Inr (Wok n, q, event (Bypass (bid b)) k)
     else if Qclosed \<in> q_state q then Inr (Werr (q_err q), q, freeb k b)
     else if q_len q \<ge> q_limit q \<and> q_noblock q then Inr (Wok n, q, freeb k b)
     else andthen (link_blocks q [b]) (\<lambda>q1.
       let q2 = q1\<lparr>q_len := q_len q1 + int (BALLOC b), q_dlen := q_dlen q1 + int n\<rparr>;
           (q3, dowakeup) = unstarve q2;
           k1 = (if q_kick q3 \<and> (dowakeup \<or> Qkick \<in> q_state q3) then event Kick k else k);
           k2 = (if dowakeup then event Wakeup_rr k1 else k1);
           (r, q4) = qbwrite_wait q3 n
       in Inr (r, q4, k2)))"

text \<open>\<open>qwrite\<close>: \<open>Inl rest\<close>: the process sleeps in \<open>qbwrite\<close> with \<open>rest\<close> still to be written; \<open>Inr ()\<close>: it
  returns \<open>len\<close>. The value of \<open>qbwrite\<close> is not looked at.\<close>

function qwrite :: "allocator \<Rightarrow> queue \<Rightarrow> kst \<Rightarrow> byte list \<Rightarrow> ((byte list + unit) \<times> queue \<times> kst) outcome" where
  "qwrite al q k p =
    (let n = min (length p) Maxatomic in
     andthen (allocb al k n) (\<lambda>(b, k1).
     andthen (bput b (take n p)) (\<lambda>b1.
     andthen (qbwrite q k1 b1) (\<lambda>(r, q2, k2).
       case r of
         Wblock _ \<Rightarrow> Inr (if length p - n > 0 \<and> Qmsg \<notin> q_state q2 then Inl (drop n p) else Inl [], q2, k2)
       | _ \<Rightarrow> if length p - n > 0 \<and> Qmsg \<notin> q_state q2 then qwrite al q2 k2 (drop n p)
              else Inr (Inr (), q2, k2)))))"
  by pat_completeness auto
termination
  by (relation "measure (\<lambda>(al, q, k, p). length p)") (auto simp: Maxatomic_def)

text \<open>\<open>qiwrite\<close>: the bytes written; \<open>w\<close> is \<open>dowakeup\<close>, which once set stays set.\<close>

function qiwrite_loop :: "allocator \<Rightarrow> bool \<Rightarrow> queue \<Rightarrow> kst \<Rightarrow> byte list \<Rightarrow> (nat \<times> queue \<times> kst) outcome" where
  "qiwrite_loop al w q k p =
    (let n = min (length p) Maxatomic in
     andthen (iallocb al k n) (\<lambda>(r, k1).
       case r of
         None \<Rightarrow> Inr (0, q, k1)
       | Some b \<Rightarrow>
           andthen (bput b (take n p)) (\<lambda>b1.
             if q_dlen q \<ge> 16 * 1024 then Inr (0, q, freeb k1 b1)
             else andthen (link_blocks q [b1]) (\<lambda>q1.
               let q2 = q1\<lparr>q_len := q_len q1 + int (BALLOC b1), q_dlen := q_dlen q1 + int n\<rparr>;
                   (q3, s) = unstarve q2;
                   w1 = (w \<or> s);
                   k2 = (if w1 then event Wakeup_rr (if q_kick q3 then event Kick k1 else k1) else k1)
               in if length p - n > 0 \<and> Qmsg \<notin> q_state q3 then
                    andthen (qiwrite_loop al w1 q3 k2 (drop n p)) (\<lambda>(m, q4, k4). Inr (n + m, q4, k4))
                  else Inr (n, q3, k2)))))"
  by pat_completeness auto
termination
  by (relation "measure (\<lambda>(al, w, q, k, p). length p)") (auto simp: Maxatomic_def)

definition qiwrite :: "allocator \<Rightarrow> queue \<Rightarrow> kst \<Rightarrow> byte list \<Rightarrow> (nat \<times> queue \<times> kst) outcome" where
  "qiwrite al q k p = qiwrite_loop al False q k p"


subsection \<open>Closing and the rest\<close>

definition qclose :: "queue \<Rightarrow> kst \<Rightarrow> queue \<times> kst" where
  "qclose q k =
     (q\<lparr>q_state := insert Qclosed (q_state q) - {Qflow, Qstarve}, q_err := Ehungup, q_blocks := [],
        q_len := 0, q_dlen := 0, q_noblock := False\<rparr>,
      event Wakeup_wr (event Wakeup_rr (freeblist k (q_blocks q))))"

definition qhangup :: "queue \<Rightarrow> kst \<Rightarrow> string \<Rightarrow> queue \<times> kst" where
  "qhangup q k msg =
     (q\<lparr>q_state := insert Qclosed (q_state q), q_err := (if msg = '''' then Ehungup else take (ERRMAX - 1) msg)\<rparr>,
      event Wakeup_wr (event Wakeup_rr k))"

definition qisclosed :: "queue \<Rightarrow> bool" where
  "qisclosed q \<longleftrightarrow> Qclosed \<in> q_state q"

definition qreopen :: "queue \<Rightarrow> queue" where
  "qreopen q = q\<lparr>q_state := insert Qstarve (q_state q - {Qclosed}), q_eof := 0, q_limit := q_inilim q\<rparr>"

definition qlen :: "queue \<Rightarrow> int" where
  "qlen q = q_dlen q"

definition qwindow :: "queue \<Rightarrow> int" where
  "qwindow q = (let l = q_limit q - q_len q in if l < 0 then 0 else l)"

definition qcanread :: "queue \<Rightarrow> bool" where
  "qcanread q \<longleftrightarrow> q_blocks q \<noteq> []"

definition qsetlimit :: "queue \<Rightarrow> int \<Rightarrow> queue" where
  "qsetlimit q lim = q\<lparr>q_limit := lim\<rparr>"

definition qnoblock :: "queue \<Rightarrow> bool \<Rightarrow> queue" where
  "qnoblock q onoff = q\<lparr>q_noblock := onoff\<rparr>"

definition qflush :: "queue \<Rightarrow> kst \<Rightarrow> queue \<times> kst" where
  "qflush q k = (q\<lparr>q_blocks := [], q_len := 0, q_dlen := 0\<rparr>, event Wakeup_wr (freeblist k (q_blocks q)))"

definition qfull :: "queue \<Rightarrow> bool" where
  "qfull q \<longleftrightarrow> Qflow \<in> q_state q"

subsection \<open>Invariant, stream and the contract of an operation\<close>

definition wf_queue :: "queue \<Rightarrow> bool" where
  "wf_queue q \<longleftrightarrow> wf_blocks (q_blocks q)
     \<and> q_len q = int (blockalloclen (q_blocks q)) \<and> q_dlen q = int (blocklen (q_blocks q))
     \<and> (q_blocks q \<noteq> [] \<longrightarrow> q_last q = Some (bid (last (q_blocks q))))"

definition stream :: "queue \<Rightarrow> byte list" where
  "stream q = bsdata (q_blocks q)"

text \<open>\<open>qstep q k A q' k' B w r\<close>: with the blocks \<open>A\<close> handed in and the blocks \<open>B\<close> handed out, the
  operation appended the bytes \<open>w\<close> to the stream and removed the bytes \<open>r\<close> from its front, and accounts for
  every block.\<close>

definition qstep :: "queue \<Rightarrow> kst \<Rightarrow> nat multiset \<Rightarrow> queue \<Rightarrow> kst \<Rightarrow> nat multiset \<Rightarrow> byte list \<Rightarrow> byte list \<Rightarrow> bool" where
  "qstep q k A q' k' B w r \<longleftrightarrow> wf_queue q' \<and> stream q @ w = r @ stream q'
     \<and> moves k (A + owned (q_blocks q)) k' (B + owned (q_blocks q'))"

lemma set_flag_simps [simp]:
  "q_blocks (set_flag s q) = q_blocks q" "q_last (set_flag s q) = q_last q" "q_len (set_flag s q) = q_len q"
  "q_dlen (set_flag s q) = q_dlen q" "q_limit (set_flag s q) = q_limit q" "q_state (set_flag s q) = insert s (q_state q)"
  "q_kick (set_flag s q) = q_kick q" "q_noblock (set_flag s q) = q_noblock q" "q_bypass (set_flag s q) = q_bypass q"
  by (simp_all add: set_flag_def)

lemma clear_flag_simps [simp]:
  "q_blocks (clear_flag s q) = q_blocks q" "q_last (clear_flag s q) = q_last q" "q_len (clear_flag s q) = q_len q"
  "q_dlen (clear_flag s q) = q_dlen q" "q_limit (clear_flag s q) = q_limit q" "q_state (clear_flag s q) = q_state q - {s}"
  "q_kick (clear_flag s q) = q_kick q" "q_noblock (clear_flag s q) = q_noblock q" "q_bypass (clear_flag s q) = q_bypass q"
  by (simp_all add: clear_flag_def)

lemma flag_wf [simp]:
  "wf_queue (set_flag s q) = wf_queue q" "wf_queue (clear_flag s q) = wf_queue q"
  "stream (set_flag s q) = stream q" "stream (clear_flag s q) = stream q"
  by (simp_all add: wf_queue_def stream_def)

lemma moves_event [simp]: "moves k A (event e k') B \<longleftrightarrow> moves k A k' B"
  by (simp add: moves_def event_def)

lemma kev_event [simp]: "kev (event e k) = kev k @ [e]"
  by (simp add: event_def)

lemma qstep_flags [simp]:
  "qstep q k A (set_flag s q') k' B w r \<longleftrightarrow> qstep q k A q' k' B w r"
  "qstep q k A (clear_flag s q') k' B w r \<longleftrightarrow> qstep q k A q' k' B w r"
  "qstep q k A q' (event e k') B w r \<longleftrightarrow> qstep q k A q' k' B w r"
  by (simp_all add: qstep_def)

lemma qstep_trans: "qstep q k A q1 k1 B w r \<Longrightarrow> qstep q1 k1 B q2 k2 C w' r' \<Longrightarrow> qstep q k A q2 k2 C (w @ w') (r @ r')"
  unfolding qstep_def by (auto intro: moves_trans) (metis append.assoc)

lemma qstep_refl: "wf_queue q \<Longrightarrow> qstep q k A q k A [] []"
  by (simp add: qstep_def moves_refl)

lemma qstep_moves: "qstep q k A q1 k1 B w r \<Longrightarrow> moves k1 B k2 C \<Longrightarrow> qstep q k A q1 k2 C w r"
  unfolding qstep_def using moves_trans moves_frame by blast

lemma qstep_moves_before: "moves k0 C k A \<Longrightarrow> qstep q k A q1 k1 B w r \<Longrightarrow> qstep q k0 C q1 k1 B w r"
  unfolding qstep_def using moves_trans moves_frame by blast

lemma restart_qstep [simp]:
  "qstep q k A (fst (restart lim q' k')) (snd (restart lim q' k')) B w r \<longleftrightarrow> qstep q k A q' k' B w r"
  by (simp add: restart_def)

lemma qwakeup_qstep [simp]:
  "qstep q k A (fst (qwakeup_iunlock q' k')) (snd (qwakeup_iunlock q' k')) B w r \<longleftrightarrow> qstep q k A q' k' B w r"
  by (simp add: qwakeup_iunlock_def)

lemma unstarve_qstep [simp]:
  "qstep q k A (fst (unstarve q')) k' B w r \<longleftrightarrow> qstep q k A q' k' B w r"
  by (simp add: unstarve_def)

lemma unstarve_simps [simp]:
  "q_blocks (fst (unstarve q)) = q_blocks q" "q_len (fst (unstarve q)) = q_len q" "q_limit (fst (unstarve q)) = q_limit q"
  "q_dlen (fst (unstarve q)) = q_dlen q" "q_kick (fst (unstarve q)) = q_kick q" "q_noblock (fst (unstarve q)) = q_noblock q"
  "q_bypass (fst (unstarve q)) = q_bypass q" "q_state (fst (unstarve q)) = q_state q - {Qstarve}"
  "q_last (fst (unstarve q)) = q_last q"
  by (auto simp: unstarve_def)

lemma blockalloclen_append [simp]: "blockalloclen (xs @ ys) = blockalloclen xs + blockalloclen ys"
  by (induction xs) auto

text \<open>Appending a chain and counting it.\<close>

lemma append_qstep:
  assumes "wf_queue q" "wf_blocks bs" "bs \<noteq> []"
  obtains q1 where "link_blocks q bs = Inr q1" "q_state q1 = q_state q" "q_limit q1 = q_limit q"
    "q_kick q1 = q_kick q" "q_noblock q1 = q_noblock q" "q_blocks q1 = q_blocks q @ bs" "q_len q1 = q_len q" "q_dlen q1 = q_dlen q"
    "\<And>k. qstep q k (owned bs)
       (q1\<lparr>q_len := q_len q1 + int (blockalloclen bs), q_dlen := q_dlen q1 + int (blocklen bs)\<rparr>) k {#} (bsdata bs) []"
proof -
  let ?q = "q\<lparr>q_blocks := q_blocks q @ bs, q_last := Some (bid (last bs))\<rparr>"
  have "link_blocks q bs = Inr ?q"
    using assms by (auto simp: link_blocks_def wf_queue_def)
  moreover have "qstep q k (owned bs)
       (?q\<lparr>q_len := q_len ?q + int (blockalloclen bs), q_dlen := q_dlen ?q + int (blocklen bs)\<rparr>) k {#} (bsdata bs) []" for k
    using assms by (simp add: qstep_def wf_queue_def stream_def moves_refl add.commute)
  ultimately show thesis
    by (intro that [of ?q]) simp_all
qed

text \<open>Taking the first block.\<close>

lemma unlink_simps [simp]:
  "q_blocks (unlink q b rest) = rest" "q_last (unlink q b rest) = q_last q" "q_limit (unlink q b rest) = q_limit q"
  "q_state (unlink q b rest) = q_state q" "q_kick (unlink q b rest) = q_kick q" "q_noblock (unlink q b rest) = q_noblock q"
  "q_bypass (unlink q b rest) = q_bypass q" "stream (unlink q b rest) = bsdata rest"
  "q_len (unlink q b rest) = q_len q - int (BALLOC b)" "q_dlen (unlink q b rest) = q_dlen q - int (BLEN b)"
  by (simp_all add: unlink_def stream_def)

lemma unlink_qstep:
  assumes "wf_queue q" "q_blocks q = b # rest"
  shows "wf_block b" "wf_queue (unlink q b rest)" "qstep q k {#} (unlink q b rest) k {#bid b#} [] (bdata b)"
    "qstep q k {#} (unlink q b rest) (freeb k b) {#} [] (bdata b)"
proof -
  show "wf_block b" and wf: "wf_queue (unlink q b rest)"
    using assms by (auto simp: wf_queue_def)
  show st: "qstep q k {#} (unlink q b rest) k {#bid b#} [] (bdata b)"
    using assms wf by (simp add: qstep_def stream_def moves_refl)
  show "qstep q k {#} (unlink q b rest) (freeb k b) {#} [] (bdata b)"
    using qstep_moves [OF st moves_freeb [of k b "{#}", simplified]] by simp
qed

lemma putback_qstep:
  assumes "wf_queue q" "wf_block b"
  shows "wf_queue (qputback q b)" "stream (qputback q b) = bdata b @ stream q"
    "owned (q_blocks (qputback q b)) = add_mset (bid b) (owned (q_blocks q))"
  using assms by (auto simp: qputback_def wf_queue_def stream_def)

lemma putback_simps [simp]:
  "q_state (qputback q b) = q_state q" "q_limit (qputback q b) = q_limit q"
  by (simp_all add: qputback_def)

subsection \<open>Every operation keeps the contract\<close>

lemma qget_qstep:
  assumes "wf_queue q"
  shows "case qget q k of
      (None, q', k') \<Rightarrow> q_blocks q = [] \<and> qstep q k {#} q' k' {#} [] []
    | (Some b, q', k') \<Rightarrow> wf_block b \<and> qstep q k {#} q' k' {#bid b#} [] (bdata b)"
proof (cases "q_blocks q")
  case Nil
  then show ?thesis using assms by (simp add: qget_def qstep_refl)
next
  case (Cons b rest)
  then show ?thesis
    using unlink_qstep [OF assms Cons] by (simp add: qget_def Let_def case_prod_unfold)
qed

lemma discard_loop_qstep:
  assumes "wf_queue q" "q_blocks q = bs"
  shows "case discard_loop k q bs len of (n, q', k') \<Rightarrow>
     n = min len (blocklen bs) \<and> q_state q' = q_state q \<and> q_limit q' = q_limit q
     \<and> qstep q k {#} q' k' {#} [] (take len (stream q))"
  using assms
proof (induction bs arbitrary: k q len)
  case Nil
  then show ?case by (simp add: qstep_refl stream_def)
next
  case (Cons b bs)
  note u = unlink_qstep [OF Cons.prems]
  have st: "stream q = bdata b @ bsdata bs"
    using Cons.prems by (simp add: stream_def)
  consider "len = 0" | "0 < len" "BLEN b \<le> len" | "0 < len" "len < BLEN b"
    by linarith
  then show ?case
  proof cases
    case 1
    then show ?thesis using Cons.prems by (simp add: qstep_refl)
  next
    case 2
    obtain n q' k' where d: "discard_loop (freeb k b) (unlink q b bs) bs (len - BLEN b) = (n, q', k')"
      by (cases "discard_loop (freeb k b) (unlink q b bs) bs (len - BLEN b)") auto
    with Cons.IH [OF u(2), where k = "freeb k b" and len = "len - BLEN b"] have ih: "n = min (len - BLEN b) (blocklen bs)"
      "q_state q' = q_state q" "q_limit q' = q_limit q"
      "qstep (unlink q b bs) (freeb k b) {#} q' k' {#} [] (take (len - BLEN b) (bsdata bs))"
      by simp_all
    have "qstep q k {#} q' k' {#} [] (take len (stream q))"
      using qstep_trans [OF u(4) ih(4)] 2 u(1) unfolding st by simp
    with ih d 2 show ?thesis
      by simp
  next
    case 3
    let ?b = "b\<lparr>brp := brp b + len\<rparr>"
    have b: "wf_block ?b" "bdata ?b = drop len (bdata b)" "BLEN ?b = BLEN b - len" "BALLOC ?b = BALLOC b"
      using bdata_advance [of b len] u(1) 3 by (auto simp: BALLOC_def)
    have "qstep q k {#} (q\<lparr>q_blocks := ?b # bs, q_dlen := q_dlen q - int len\<rparr>) k {#} [] (take len (stream q))"
      using Cons.prems b 3 u(1) unfolding st
      by (auto simp: qstep_def wf_queue_def stream_def moves_refl)
    with 3 show ?thesis by simp
  qed
qed

lemma qdiscard_qstep:
  assumes "wf_queue q"
  shows "case qdiscard q k len of (n, q', k') \<Rightarrow>
     n = min len (blocklen (q_blocks q)) \<and> qstep q k {#} q' k' {#} [] (take len (stream q))"
  using discard_loop_qstep [OF assms refl, where k = k and len = len]
  by (simp add: qdiscard_def Let_def case_prod_unfold)

lemma consume_skip_ok:
  assumes "wf_queue q" "q_blocks q = bs"
  shows "case consume_skip q tf bs of (q', tf') \<Rightarrow>
     wf_queue q' \<and> stream q' = stream q \<and> owned tf' + owned (q_blocks q') = owned tf + owned bs
     \<and> (q_blocks q' \<noteq> [] \<longrightarrow> 0 < BLEN (hd (q_blocks q'))) \<and> q_state q' = q_state q \<and> q_limit q' = q_limit q
     \<and> q_blocks q' = dropWhile (\<lambda>b. BLEN b = 0) bs"
  using assms
proof (induction bs arbitrary: q tf)
  case (Cons b bs)
  show ?case
  proof (cases "BLEN b > 0")
    case False
    let ?q = "q\<lparr>q_blocks := bs, q_len := q_len q - int (BALLOC b)\<rparr>"
    have "wf_queue ?q" "stream ?q = stream q"
      using Cons.prems False by (auto simp: wf_queue_def stream_def)
    with Cons.IH [of ?q "b # tf"] False show ?thesis
      by (auto split: prod.splits)
  qed (use Cons.prems in auto)
qed auto

lemma freeb_advance [simp]: "BALLOC (b\<lparr>brp := i\<rparr>) = BALLOC b"
  by (simp add: BALLOC_def)

lemma qconsume_qstep:
  assumes wf: "wf_queue q"
  shows "post {} (\<lambda>(r, q', k'). case r of
      None \<Rightarrow> wf_queue q' \<and> stream q = [] \<and> q_blocks q' = [] \<and> k' = k \<and> Qstarve \<in> q_state q'
    | Some d \<Rightarrow> \<exists>r. qstep q k {#} q' k' {#} [] r \<and> d = take len r \<and> (Qmsg \<notin> q_state q \<longrightarrow> r = d) \<and> (0 < len \<longrightarrow> r \<noteq> [])
        \<and> (Qmsg \<in> q_state q \<longrightarrow> r = bdata (hd (dropWhile (\<lambda>b. BLEN b = 0) (q_blocks q)))))
    (qconsume q k len)"
proof -
  obtain q1 tf where s: "consume_skip q [] (q_blocks q) = (q1, tf)"
    by (cases "consume_skip q [] (q_blocks q)") auto
  have q1: "wf_queue q1" "stream q1 = stream q" "owned tf + owned (q_blocks q1) = owned (q_blocks q)"
     "q_blocks q1 \<noteq> [] \<longrightarrow> 0 < BLEN (hd (q_blocks q1))" "q_state q1 = q_state q" "q_limit q1 = q_limit q"
     "q_blocks q1 = dropWhile (\<lambda>b. BLEN b = 0) (q_blocks q)"
    using consume_skip_ok [OF wf refl, of "[]"] unfolding s prod.case list.map mset.simps empty_neutral by blast+
  show ?thesis
  proof (cases "q_blocks q1")
    case Nil
    then show ?thesis using s q1(1,2) by (simp add: qconsume_def stream_def)
  next
    case (Cons b rest)
    let ?n = "min (BLEN b) len"
    let ?b = "b\<lparr>brp := brp b + ?n\<rparr>"
    let ?q2 = "q1\<lparr>q_dlen := q_dlen q1 - int ?n\<rparr>"
    have wb: "wf_block b" "0 < BLEN b"
      using q1(1,4) Cons by (auto simp: wf_queue_def)
    have hd: "bdata (hd (dropWhile (\<lambda>b. BLEN b = 0) (q_blocks q))) = bdata b"
      using q1(7) Cons by (metis list.sel(1))
    have ne: "bdata b \<noteq> []"
      using length_bdata [OF wb(1)] wb(2) by force
    note adv = bdata_advance [of b ?n]
    have g: "bget b 0 ?n = Inr (take ?n (bdata b))"
      using wb by (subst bget_data) (auto simp: bslice_def)
    have st: "stream q = bdata b @ bsdata rest" and own: "owned (q_blocks q) = owned tf + add_mset (bid b) (owned rest)"
      using q1(2,3) Cons by (auto simp: stream_def)
    show ?thesis
    proof (cases "Qmsg \<in> q_state q \<or> ?n = BLEN b")
      case True
      have wf2: "wf_queue (unlink ?q2 ?b rest)"
        using q1(1) Cons wb adv by (auto simp: wf_queue_def)
      have "moves k (owned tf + add_mset (bid b) (owned rest)) (freeblist k (?b # tf)) (owned rest)"
        using moves_freeblist [of k "?b # tf" "owned rest"] by (simp add: ac_simps)
      then have mv: "moves k' (owned (q_blocks q)) (freeblist k'' (?b # tf)) (owned rest)" if "moves k' (owned (q_blocks q)) k'' (owned (q_blocks q))" for k' k''
        using moves_trans [OF that] moves_freeblist [of k'' "?b # tf" "owned rest"] own by (simp add: ac_simps)
      let ?r = "restart (half (q_limit (unlink ?q2 ?b rest))) (unlink ?q2 ?b rest) k"
      have mvr: "moves k (owned (q_blocks q)) (snd ?r) (owned (q_blocks q))"
        by (simp add: restart_def moves_refl)
      have fr: "wf_queue (fst ?r)" "q_blocks (fst ?r) = rest" "stream (fst ?r) = bsdata rest"
        using wf2 by (auto simp: restart_def)
      have "qconsume q k len = Inr (Some (take ?n (bdata b)), fst ?r, freeblist (snd ?r) (?b # tf))"
        using s Cons g True q1(5) by (simp add: qconsume_def Let_def case_prod_unfold)
      moreover have "qstep q k {#} (fst ?r) (freeblist (snd ?r) (?b # tf)) {#} [] (bdata b)"
        using fr mv [OF mvr] st by (simp add: qstep_def)
      moreover have "take ?n (bdata b) = take len (bdata b)"
        using wb by (simp add: min_def)
      ultimately show ?thesis
        using True wb ne hd by (auto simp: min_def intro!: exI [of _ "bdata b"])
    next
      case False
      then have n: "?n = len" "len < BLEN b"
        by (auto simp: min_def split: if_splits)
      let ?q3 = "?q2\<lparr>q_blocks := ?b # rest\<rparr>"
      have wf3: "wf_queue ?q3"
        using q1(1) Cons wb adv n by (auto simp: wf_queue_def)
      let ?r = "restart (half (q_limit ?q3)) ?q3 k"
      have fr: "wf_queue (fst ?r)" "q_blocks (fst ?r) = ?b # rest" "stream (fst ?r) = drop len (bdata b) @ bsdata rest"
        using wf3 adv wb n by (auto simp: restart_def stream_def)
      have "moves k (owned (q_blocks q)) (freeblist (snd ?r) tf) (owned (?b # rest))"
      proof -
        have "moves k (owned (q_blocks q)) (snd ?r) (owned (q_blocks q))"
          by (simp add: restart_def moves_refl)
        from moves_trans [OF this] moves_freeblist [of "snd ?r" tf "owned (?b # rest)"] own
        show ?thesis by (simp add: ac_simps)
      qed
      then have "qstep q k {#} (fst ?r) (freeblist (snd ?r) tf) {#} [] (take len (bdata b))"
        using fr st n wb by (simp add: qstep_def)
      moreover have "qconsume q k len = Inr (Some (take ?n (bdata b)), fst ?r, freeblist (snd ?r) tf)"
        using s Cons g False q1(5) by (simp add: qconsume_def Let_def case_prod_unfold)
      ultimately show ?thesis
        using n wb ne False by (auto intro!: exI [of _ "take len (bdata b)"])
    qed
  qed
qed

lemma qpassnolim_qstep:
  assumes "wf_queue q" "wf_blocks bs" "bs \<noteq> []" "Qclosed \<notin> q_state q"
  shows "post {} (\<lambda>(n, q', k'). n = int (blockalloclen bs) \<and> qstep q k (owned bs) q' k' {#} (bsdata bs) []
     \<and> (Qstarve \<in> q_state q \<longrightarrow> Wakeup_rr \<in> set (kev k')) \<and> Qstarve \<notin> q_state q') (qpassnolim q k bs)"
proof -
  from append_qstep [OF assms(1-3)] obtain q1 where q1: "link_blocks q bs = Inr q1" "q_state q1 = q_state q"
    "\<And>k. qstep q k (owned bs) (q1\<lparr>q_len := q_len q1 + int (blockalloclen bs), q_dlen := q_dlen q1 + int (blocklen bs)\<rparr>) k {#} (bsdata bs) []"
    by metis
  then show ?thesis
    using assms(4) by (auto simp: qpassnolim_def Let_def case_prod_unfold unstarve_def)
qed

lemma qpass_qstep:
  assumes "wf_queue q" "wf_blocks bs" "bs \<noteq> []" "Qclosed \<notin> q_state q"
  shows "post {} (\<lambda>(n, q', k'). if q_len q \<ge> q_limit q then n = - 1 \<and> qstep q k (owned bs) q' k' {#} [] []
     else n = int (blockalloclen bs) \<and> qstep q k (owned bs) q' k' {#} (bsdata bs) []) (qpass q k bs)"
proof (cases "q_len q \<ge> q_limit q")
  case True
  then show ?thesis
    using assms(1) qstep_moves [OF qstep_refl [OF assms(1)] moves_freeblist [of k bs "{#}"]] by (simp add: qpass_def)
next
  case False
  show ?thesis
    using post_weaken [OF qpassnolim_qstep [OF assms, of k]] False by (auto simp: qpass_def elim!: post_weaken)
qed

lemma put_ok:
  assumes "wf_block b" "brp b = bwp b" "bwp b + length d \<le> length (bbuf b)"
  obtains b' where "bput b d = Inr b'" "wf_block b'" "bdata b' = d" "bid b' = bid b" "BLEN b' = length d"
proof -
  from bput_ok [OF assms(1,3)] obtain b' where b': "bput b d = Inr b'" "wf_block b'" "bdata b' = bdata b @ d" "bid b' = bid b"
    by blast
  moreover have "bdata b = []"
    using assms(2) by (simp add: BLEN_def)
  ultimately show thesis
    using that length_bdata [of b'] by simp
qed

lemma append_one:
  assumes wf: "wf_queue q" and b: "wf_block b"
  shows "\<exists>q1. link_blocks q [b] = Inr q1 \<and> q_state q1 = q_state q \<and> q_limit q1 = q_limit q \<and> q_kick q1 = q_kick q
     \<and> q_noblock q1 = q_noblock q \<and> q_blocks q1 = q_blocks q @ [b] \<and> q_len q1 = q_len q \<and> q_dlen q1 = q_dlen q
     \<and> (\<forall>k. qstep q k {#bid b#} (q1\<lparr>q_len := q_len q1 + int (BALLOC b), q_dlen := q_dlen q1 + int (BLEN b)\<rparr>) k {#} (bdata b) [])"
proof -
  have "wf_blocks [b]" "[b] \<noteq> []"
    using b by simp_all
  from append_qstep [OF wf this] show ?thesis
    by (rule, intro exI conjI) simp_all
qed

lemma qproduce_qstep:
  assumes al: "al_ok al" and wf: "wf_queue q"
  shows "post {Eexit} (\<lambda>(n, q', k'). if q_len q \<ge> q_limit q then n = - 1 \<and> qstep q k {#} q' k' {#} [] []
     else (n = 0 \<and> qstep q k {#} q' k' {#} [] []) \<or> (n = int (length d) \<and> qstep q k {#} q' k' {#} d [])) (qproduce al q k d)"
proof (cases "q_len q \<ge> q_limit q")
  case True
  then show ?thesis using wf by (simp add: qproduce_def qstep_refl)
next
  case False
  show ?thesis
    unfolding qproduce_def if_not_P [OF False]
  proof (rule post_andthen [OF iallocb_post [OF al]], clarify)
    fix r k1
    assume k1: "case r of None \<Rightarrow> \<forall>A. moves k A k1 A
      | Some b \<Rightarrow> wf_block b \<and> brp b = bwp b \<and> bwp b + length d \<le> length (bbuf b) \<and> bintr b \<and> \<not> bfree b
          \<and> ibytes k1 = ibytes k + int (BALLOC b) \<and> (\<forall>A. moves k A k1 (add_mset (bid b) A))"
    show "post {Eexit} (\<lambda>(n, q', k'). (n = 0 \<and> qstep q k {#} q' k' {#} [] []) \<or> (n = int (length d) \<and> qstep q k {#} q' k' {#} d []))
       (case r of None \<Rightarrow> Inr (0, q, k1)
        | Some b \<Rightarrow> andthen (bput b d) (\<lambda>b1. andthen (link_blocks q [b1]) (\<lambda>q1.
             let q2 = q1\<lparr>q_len := q_len q1 + int (BALLOC b1), q_dlen := q_dlen q1 + int (BLEN b1)\<rparr>;
                 (q3, dowakeup) = unstarve q2;
                 q4 = (if q_len q3 \<ge> q_limit q3 then set_flag Qflow q3 else q3)
             in Inr (int (length d), q4, if dowakeup then event Wakeup_rr k1 else k1))))"
    proof (cases r)
      case None
      then show ?thesis
        using k1 qstep_moves [OF qstep_refl [OF wf]] by simp
    next
      case (Some b)
      with k1 have b: "wf_block b" "brp b = bwp b" "bwp b + length d \<le> length (bbuf b)" "moves k {#} k1 {#bid b#}"
        by auto
      from put_ok [OF b(1-3)] obtain b1 where b1: "bput b d = Inr b1" "wf_block b1" "bdata b1 = d" "bid b1 = bid b" "BLEN b1 = length d"
        by blast
      from append_one [OF wf b1(2)] b1 obtain q1 where q1: "link_blocks q [b1] = Inr q1"
        "qstep q k1 {#bid b#} (q1\<lparr>q_len := q_len q1 + int (BALLOC b1), q_dlen := q_dlen q1 + int (BLEN b1)\<rparr>) k1 {#} d []"
        by auto
      from qstep_moves_before [OF b(4) q1(2)] show ?thesis
        using Some b1 q1(1) by (auto simp: Let_def case_prod_unfold)
    qed
  qed
qed

lemma bl2mem_ok:
  assumes "wf_blocks bs"
  shows "\<exists>left k'. bl2mem k bs n = Inr (take n (bsdata bs), left, k') \<and> wf_blocks left \<and> bsdata left = drop n (bsdata bs)
     \<and> moves k (owned bs) k' (owned left) \<and> length left \<le> length bs \<and> (blocklen bs \<le> n \<longrightarrow> left = [])"
  using assms
proof (induction bs arbitrary: k n)
  case (Cons b bs)
  show ?case
  proof (cases "BLEN b > n")
    case True
    moreover have "bget b 0 n = Inr (take n (bdata b))"
      using Cons.prems True by (subst bget_data) (auto simp: bslice_def)
    ultimately show ?thesis
      using Cons.prems bdata_advance [of b n] by (auto simp: moves_refl)
  next
    case False
    from Cons.IH [of "freeb k b" "n - BLEN b"] Cons.prems obtain left k' where
      "bl2mem (freeb k b) bs (n - BLEN b) = Inr (take (n - BLEN b) (bsdata bs), left, k')" "wf_blocks left"
      "bsdata left = drop (n - BLEN b) (bsdata bs)" "moves (freeb k b) (owned bs) k' (owned left)" "length left \<le> length bs"
      "blocklen bs \<le> n - BLEN b \<longrightarrow> left = []"
      by auto
    with False Cons.prems moves_trans [OF moves_freeb [of k b "owned bs"]] show ?thesis
      by auto
  qed
qed (auto simp: moves_refl)

lemma read_skip_qstep:
  assumes "wf_queue q" "q_blocks q = bs"
  shows "case read_skip q k bs of (q', k') \<Rightarrow> qstep q k {#} q' k' {#} [] [] \<and> q_state q' = q_state q \<and> q_limit q' = q_limit q"
  using assms
proof (induction bs arbitrary: q k)
  case (Cons b bs)
  show ?case
  proof (cases "BLEN b = 0")
    case True
    note u = unlink_qstep [OF Cons.prems]
    obtain q' k' where r: "read_skip (unlink q b bs) (freeb k b) bs = (q', k')"
      by (cases "read_skip (unlink q b bs) (freeb k b) bs") auto
    with Cons.IH [OF u(2), where k = "freeb k b"] have "qstep (unlink q b bs) (freeb k b) {#} q' k' {#} [] []"
        "q_state q' = q_state q" "q_limit q' = q_limit q"
      by simp_all
    with qstep_trans [OF u(4) this(1)] True r show ?thesis by simp
  qed (use Cons.prems in \<open>simp add: qstep_refl\<close>)
qed (simp add: qstep_refl)

lemma read_grab_qstep:
  assumes "wf_queue q" "q_blocks q = bs"
  shows "case read_grab len n q bs of (taken, q') \<Rightarrow> wf_blocks taken \<and> qstep q k {#} q' k (owned taken) [] (bsdata taken)
     \<and> q_state q' = q_state q \<and> q_limit q' = q_limit q \<and> (if n \<le> len then n + blocklen taken \<le> len else taken = [])"
  using assms
proof (induction bs arbitrary: q n)
  case (Cons b bs)
  show ?case
  proof (cases "n + BLEN b > len")
    case False
    note u = unlink_qstep [OF Cons.prems]
    obtain taken q' where r: "read_grab len (n + BLEN b) (unlink q b bs) bs = (taken, q')"
      by (cases "read_grab len (n + BLEN b) (unlink q b bs) bs") auto
    with Cons.IH [OF u(2), where n = "n + BLEN b"] False have ih: "wf_blocks taken"
      "qstep (unlink q b bs) k {#} q' k (owned taken) [] (bsdata taken)" "q_state q' = q_state q" "q_limit q' = q_limit q"
      "n + BLEN b + blocklen taken \<le> len"
      by simp_all
    have "qstep (unlink q b bs) k {#bid b#} q' k (owned (b # taken)) [] (bsdata taken)"
      using ih(2) moves_frame_left [of k "owned bs" k "owned taken + owned (q_blocks q')" "{#bid b#}"]
      by (auto simp: qstep_def)
    with qstep_trans [OF u(3) this] ih r False u(1) show ?thesis by simp
  qed (use Cons.prems in \<open>auto simp: qstep_refl\<close>)
qed (simp add: qstep_refl)

lemma qwait_cases:
  assumes "wf_queue q"
  obtains b rest where "q_blocks q = b # rest" "qwait q = (Wdata, q)"
  | q' where "q_blocks q = []" "qwait q = (Wsleep, q')" "q' = set_flag Qstarve q" "Qclosed \<notin> q_state q"
  | q' r where "q_blocks q = []" "qwait q = (r, q')" "r = Wclosed \<or> r = Werror" "wf_queue q'" "q_blocks q' = []"
     "Qclosed \<in> q_state q" "q_state q' = q_state q"
proof (cases "q_blocks q")
  case Nil
  have wf: "wf_queue (q\<lparr>q_eof := n\<rparr>)" for n
    using assms by (simp add: wf_queue_def)
  show thesis
  proof (cases "Qclosed \<in> q_state q")
    case True
    with Nil have "fst (qwait q) = Wclosed \<or> fst (qwait q) = Werror" "snd (qwait q) = q\<lparr>q_eof := q_eof q + 1\<rparr>"
      by (simp_all add: qwait_def Let_def)
    with True Nil wf show thesis
      by (intro that(3) [of "fst (qwait q)" "snd (qwait q)"]) (simp_all add: prod_eq_iff)
  next
    case False
    with Nil show thesis
      by (intro that(2) [of "set_flag Qstarve q"]) (auto simp: qwait_def)
  qed
next
  case (Cons b rest)
  then show thesis
    by (intro that(1)) (auto simp: qwait_def)
qed

lemma qread_take_qstep:
  assumes wf: "wf_queue q"
  shows "case qread_take q k len of
      (Rok bs, q', k') \<Rightarrow> wf_blocks bs \<and> bs \<noteq> [] \<and> qstep q k {#} q' k' (owned bs) [] (bsdata bs)
         \<and> (blocklen bs \<le> len \<or> length bs = 1) \<and> q_state q' = q_state q
    | (Rsleep, q', k') \<Rightarrow> qstep q k {#} q' k' {#} [] [] \<and> q_blocks q' = [] \<and> Qstarve \<in> q_state q' \<and> Qclosed \<notin> q_state q
    | (_, q', k') \<Rightarrow> qstep q k {#} q' k' {#} [] [] \<and> q_blocks q' = [] \<and> Qclosed \<in> q_state q"
proof -
  obtain q0 k0 where s: "(if Qcoalesce \<in> q_state q then read_skip q k (q_blocks q) else (q, k)) = (q0, k0)"
    by (cases "if Qcoalesce \<in> q_state q then read_skip q k (q_blocks q) else (q, k)") auto
  have q0: "qstep q k {#} q0 k0 {#} [] []" "q_state q0 = q_state q" "q_limit q0 = q_limit q"
    using read_skip_qstep [OF wf refl, of k] s wf by (auto simp: qstep_refl split: if_splits)
  then have wf0: "wf_queue q0"
    by (simp add: qstep_def)
  show ?thesis
    using wf0
  proof (cases rule: qwait_cases)
    case (1 b rest)
    note u = unlink_qstep [OF wf0 1(1)]
    note st = qstep_trans [OF q0(1) u(3), simplified]
    show ?thesis
    proof (cases "Qcoalesce \<in> q_state q")
      case True
      obtain taken q3 where g: "read_grab len (BLEN b) (unlink q0 b rest) rest = (taken, q3)"
        by (cases "read_grab len (BLEN b) (unlink q0 b rest) rest") auto
      with read_grab_qstep [OF u(2), where bs = rest and len = len and n = "BLEN b" and k = k0] have gr: "wf_blocks taken"
        "qstep (unlink q0 b rest) k0 {#} q3 k0 (owned taken) [] (bsdata taken)" "q_state q3 = q_state q"
        "if BLEN b \<le> len then BLEN b + blocklen taken \<le> len else taken = []"
        using q0(2) by simp_all
      have "qstep (unlink q0 b rest) k0 {#bid b#} q3 k0 (owned (b # taken)) [] (bsdata taken)"
        using gr(2) moves_frame_left [of k0 "owned rest" k0 "owned taken + owned (q_blocks q3)" "{#bid b#}"]
        by (auto simp: qstep_def)
      from qstep_trans [OF st this] gr u(1) True s g 1 show ?thesis
        by (auto simp: qread_take_def qremove_def split: if_splits)
    next
      case False
      with st u(1) s 1 q0(2) show ?thesis
        by (auto simp: qread_take_def qremove_def)
    qed
  next
    case (2 q')
    then show ?thesis using s q0 by (simp add: qread_take_def)
  next
    case (3 q' r)
    have "qstep q0 k0 {#} q' k0 {#} [] []"
      using 3 wf0 by (simp add: qstep_def stream_def moves_refl)
    from qstep_trans [OF q0(1) this] show ?thesis
      using 3 s q0(2) by (auto simp: qread_take_def)
  qed
qed

lemma qread_finish_qstep:
  assumes "wf_queue q" "wf_blocks left" "length left \<le> 1"
  shows "case qread_finish q k left of (q', k') \<Rightarrow> wf_queue q' \<and> moves k (owned left + owned (q_blocks q)) k' (owned (q_blocks q'))
     \<and> stream q' = (if Qmsg \<in> q_state q then [] else bsdata left) @ stream q"
proof -
  have fin: "case qwakeup_iunlock q1 k1 of (q', k') \<Rightarrow> wf_queue q' \<and> moves k A k' (owned (q_blocks q')) \<and> stream q' = s"
    if "wf_queue q1" "moves k A k1 (owned (q_blocks q1))" "stream q1 = s" for q1 k1 A s
    using that by (auto simp: qwakeup_iunlock_def)
  consider "left = []" | b where "left = [b]"
    using assms(3) by (cases left) auto
  then show ?thesis
  proof cases
    case 1
    then show ?thesis using fin [OF assms(1) moves_refl refl] by (simp add: qread_finish_def)
  next
    case (2 b)
    then have wb: "wf_block b"
      using assms(2) by simp
    show ?thesis
    proof (cases "Qmsg \<in> q_state q")
      case True
      have "moves k (owned left + owned (q_blocks q)) (freeb k b) (owned (q_blocks q))"
        using moves_freeb [of k b "owned (q_blocks q)"] 2 by simp
      from fin [OF assms(1) this refl] show ?thesis
        using 2 True by (simp add: qread_finish_def)
    next
      case False
      have "moves k (owned left + owned (q_blocks q)) k (owned (q_blocks (qputback q b)))"
        using putback_qstep [OF assms(1) wb] 2 by (simp add: moves_refl)
      from fin [OF putback_qstep(1) [OF assms(1) wb] this putback_qstep(2) [OF assms(1) wb]] show ?thesis
        using 2 False by (simp add: qread_finish_def)
    qed
  qed
qed

lemma qread_qstep:
  assumes wf: "wf_queue q"
  shows "post {} (\<lambda>(r, q', k'). case r of
      Rok (n, d) \<Rightarrow> \<exists>s. qstep q k {#} q' k' {#} [] s \<and> d = take len s \<and> n = length d \<and> (Qmsg \<notin> q_state q \<longrightarrow> s = d)
    | Rsleep \<Rightarrow> qstep q k {#} q' k' {#} [] [] \<and> q_blocks q' = [] \<and> Qstarve \<in> q_state q' \<and> Qclosed \<notin> q_state q
    | _ \<Rightarrow> qstep q k {#} q' k' {#} [] [] \<and> q_blocks q' = [] \<and> Qclosed \<in> q_state q) (qread q k len)"
proof -
  obtain r q1 k1 where t: "qread_take q k len = (r, q1, k1)"
    by (cases "qread_take q k len") auto
  note tq = qread_take_qstep [OF wf, where k = k and len = len, unfolded t, simplified]
  show ?thesis
  proof (cases r)
    case (Rok bs)
    with tq have bs: "wf_blocks bs" "bs \<noteq> []" "qstep q k {#} q1 k1 (owned bs) [] (bsdata bs)"
      "blocklen bs \<le> len \<or> length bs = 1" "q_state q1 = q_state q"
      by simp_all
    from bl2mem_ok [OF bs(1), of k1 len] obtain left k2 where m: "bl2mem k1 bs len = Inr (take len (bsdata bs), left, k2)"
      "wf_blocks left" "bsdata left = drop len (bsdata bs)" "moves k1 (owned bs) k2 (owned left)" "length left \<le> length bs"
      "blocklen bs \<le> len \<longrightarrow> left = []"
      by blast
    have one: "length left \<le> 1"
      using bs(4) m(5,6) by auto
    have wf1: "wf_queue q1"
      using bs(3) by (simp add: qstep_def)
    obtain q3 k3 where f: "qread_finish q1 k2 left = (q3, k3)"
      by (cases "qread_finish q1 k2 left") auto
    with qread_finish_qstep [OF wf1 m(2) one, of k2] bs(5) have f3: "wf_queue q3"
      "moves k2 (owned left + owned (q_blocks q1)) k3 (owned (q_blocks q3))"
      "stream q3 = (if Qmsg \<in> q_state q then [] else bsdata left) @ stream q1"
      by simp_all
    let ?s = "if Qmsg \<in> q_state q then bsdata bs else take len (bsdata bs)"
    have "moves k (owned (q_blocks q)) k1 (owned bs + owned (q_blocks q1))"
      using bs(3) by (simp add: qstep_def)
    from moves_trans [OF moves_trans [OF this moves_frame [OF m(4)]] f3(2)]
    have mv: "moves k (owned (q_blocks q)) k3 (owned (q_blocks q3))" .
    have "stream q = ?s @ stream q3"
      using bs(3) f3(3) m(3) by (auto simp: qstep_def)
    with f3(1) mv have st: "qstep q k {#} q3 k3 {#} [] ?s"
      by (simp add: qstep_def)
    have n: "blocklen bs - (case left of [] \<Rightarrow> 0 | b # _ \<Rightarrow> BLEN b) = length (take len (bsdata bs))"
      using arg_cong [OF m(3), of length] blocklen_data [OF bs(1)] blocklen_data [OF m(2)] one
      by (cases left) auto
    have "qread q k len = Inr (Rok (length (take len (bsdata bs)), take len (bsdata bs)), q3, k3)"
      using t Rok m(1) f n by (simp add: qread_def Let_def)
    then show ?thesis
      using st by (cases "Qmsg \<in> q_state q") auto
  qed (use t tq in \<open>simp_all add: qread_def\<close>)
qed

lemma qbread_qstep:
  assumes al: "al_ok al" and wf: "wf_queue q"
  shows "post (oom al) (\<lambda>(r, q', k'). case r of
      Rok nb \<Rightarrow> \<exists>s. wf_block nb \<and> qstep q k {#} q' k' {#bid nb#} [] s \<and> bdata nb = take len s \<and> (Qmsg \<notin> q_state q \<longrightarrow> s = bdata nb)
        \<and> (Qmsg \<in> q_state q \<longrightarrow> s = bdata (hd (q_blocks q)))
    | Rsleep \<Rightarrow> qstep q k {#} q' k' {#} [] [] \<and> q_blocks q' = [] \<and> Qstarve \<in> q_state q' \<and> Qclosed \<notin> q_state q
    | _ \<Rightarrow> qstep q k {#} q' k' {#} [] [] \<and> q_blocks q' = [] \<and> Qclosed \<in> q_state q) (qbread al q k len)"
    (is "post _ ?P _")
  using wf
proof (cases rule: qwait_cases)
  case (1 b rest)
  note u = unlink_qstep [OF wf 1(1)]
  let ?q = "unlink q b rest"
  have fin: "post (oom al) ?P (let (q4, k4) = qwakeup_iunlock q3 k3 in Inr (Rok nb, q4, k4))"
    if "wf_block nb" "qstep q k {#} q3 k3 {#bid nb#} [] s" "bdata nb = take len s" "Qmsg \<notin> q_state q \<longrightarrow> s = bdata nb"
      "Qmsg \<in> q_state q \<longrightarrow> s = bdata b" for nb q3 k3 s
    using that 1(1) by (auto simp: case_prod_unfold Let_def intro!: exI [of _ s])
  consider "BLEN b \<le> len" | "len < BLEN b" "Qmsg \<in> q_state q" | "len < BLEN b" "Qmsg \<notin> q_state q"
    by linarith
  then show ?thesis
  proof cases
    case (1)
    then show ?thesis
      using fin [of b ?q k "bdata b"] u \<open>qwait q = (Wdata, q)\<close> \<open>q_blocks q = b # rest\<close>
      by (simp add: qbread_def qremove_def)
  next
    case 2
    then show ?thesis
      using fin [of "b\<lparr>bwp := brp b + len\<rparr>" ?q k "bdata b"] u bdata_truncate [of b len] \<open>qwait q = (Wdata, q)\<close> \<open>q_blocks q = b # rest\<close>
      by (simp add: qbread_def qremove_def)
  next
    case 3
    let ?t = "b\<lparr>bwp := brp b + len\<rparr>"
    have g: "bget b len (BLEN b - len) = Inr (drop len (bdata b))"
      using u(1) 3 by (subst bget_data) (auto simp: bslice_def)
    have "post (oom al) ?P (andthen (andthen (andthen (allocb al k (BLEN b - len)) (\<lambda>(b1, k1).
             andthen (bget b len (BLEN b - len)) (\<lambda>d. andthen (bput b1 d) (\<lambda>b2. Inr (qputback ?q b2, k1)))))
             (\<lambda>(q3, k3). Inr (?t, q3, k3)))
           (\<lambda>(nb, q3, k3). let (q4, k4) = qwakeup_iunlock q3 k3 in Inr (Rok nb, q4, k4)))"
      unfolding andthen_assoc
    proof (rule post_andthen [OF allocb_post [OF al]], clarify)
      fix b1 k1
      assume b1: "fresh b1 (BLEN b - len)" "\<forall>A. moves k A k1 (add_mset (bid b1) A)"
      then obtain b2 where b2: "bput b1 (drop len (bdata b)) = Inr b2" "wf_block b2" "bdata b2 = drop len (bdata b)" "bid b2 = bid b1"
        using put_ok [of b1 "drop len (bdata b)"] u(1) by (auto simp: fresh_def)
      note pb = putback_qstep [OF u(2) b2(2)]
      have own: "{#bid ?t#} + owned (q_blocks (qputback ?q b2)) = add_mset (bid b1) (owned (q_blocks q))"
        using pb(3) b2(4) \<open>q_blocks q = b # rest\<close> by simp
      have "stream q = take len (bdata b) @ stream (qputback ?q b2)"
        using pb(2) b2(3) \<open>q_blocks q = b # rest\<close> by (simp add: stream_def)
      then have "qstep q k {#} (qputback ?q b2) k1 {#bid ?t#} [] (take len (bdata b))"
        using pb(1) b1(2) unfolding qstep_def own by simp
      have t: "wf_block ?t" "bdata ?t = take len (bdata b)"
        using bdata_truncate [of b len] u(1) 3(1) by simp_all
      have "post (oom al) ?P (let (q4, k4) = qwakeup_iunlock (qputback ?q b2) k1 in Inr (Rok ?t, q4, k4))"
        by (rule fin [OF t(1) \<open>qstep q k {#} (qputback ?q b2) k1 {#bid ?t#} [] (take len (bdata b))\<close>]) (simp_all add: t(2) 3(2))
      then show "post (oom al) ?P (andthen
             (andthen (bget b len (BLEN b - len)) (\<lambda>d. andthen (bput b1 d) (\<lambda>b2. Inr (qputback ?q b2, k1))))
             (\<lambda>x. andthen (case x of (q3, k3) \<Rightarrow> Inr (?t, q3, k3))
               (\<lambda>(nb, q3, k3). let (q4, k4) = qwakeup_iunlock q3 k3 in Inr (Rok nb, q4, k4))))"
        by (simp only: g b2(1) andthen_Inr prod.case)
    qed
    then show ?thesis
      using 3 \<open>qwait q = (Wdata, q)\<close> \<open>q_blocks q = b # rest\<close> by (simp add: qbread_def qremove_def)
  qed
next
  case (2 q')
  then show ?thesis using wf by (simp add: qbread_def qstep_refl)
next
  case (3 q' r)
  then have "qstep q k {#} q' k {#} [] []"
    by (simp add: qstep_def stream_def moves_refl)
  then show ?thesis using 3 by (auto simp: qbread_def)
qed

declare qwrite.simps [simp del] qiwrite_loop.simps [simp del]

text \<open>What an operation that only appends leaves as it was.\<close>

definition same_mode :: "queue \<Rightarrow> queue \<Rightarrow> bool" where
  "same_mode q q' \<longleftrightarrow> q_bypass q' = q_bypass q \<and> q_noblock q' = q_noblock q \<and> (Qmsg \<in> q_state q' \<longleftrightarrow> Qmsg \<in> q_state q)
     \<and> (Qclosed \<in> q_state q' \<longleftrightarrow> Qclosed \<in> q_state q)"

lemma same_mode_refl [simp]: "same_mode q q"
  by (simp add: same_mode_def)

lemma same_mode_trans: "same_mode q q1 \<Longrightarrow> same_mode q1 q2 \<Longrightarrow> same_mode q q2"
  by (simp add: same_mode_def)

lemma link_bypass: "link_blocks q bs = Inr q' \<Longrightarrow> q_bypass q' = q_bypass q"
  by (auto simp: link_blocks_def split: if_splits)

lemma qbwrite_qstep:
  assumes wf: "wf_queue q" "wf_block b" and byp: "\<not> q_bypass q"
  shows "post {} (\<lambda>(r, q', k').
     if Qclosed \<in> q_state q then r = Werr (q_err q) \<and> q' = q \<and> qstep q k {#bid b#} q' k' {#} [] []
     else if q_limit q \<le> q_len q \<and> q_noblock q then r = Wok (BLEN b) \<and> q' = q \<and> qstep q k {#bid b#} q' k' {#} [] []
     else qstep q k {#bid b#} q' k' {#} (bdata b) [] \<and> same_mode q q'
        \<and> (r = Wok (BLEN b) \<and> (q_noblock q \<or> q_len q' < q_limit q')
           \<or> r = Wblock (BLEN b) \<and> Qflow \<in> q_state q' \<and> q_limit q' \<le> q_len q')
        \<and> Qstarve \<notin> q_state q' \<and> (Qstarve \<in> q_state q \<longrightarrow> Wakeup_rr \<in> set (kev k'))) (qbwrite q k b)"
proof -
  have fr: "qstep q k {#bid b#} q (freeb k b) {#} [] []"
    using qstep_moves [OF qstep_refl [OF wf(1)] moves_freeb [of k b "{#}"]] by simp
  from append_one [OF wf] obtain q1 where q1: "link_blocks q [b] = Inr q1" "q_state q1 = q_state q" "q_limit q1 = q_limit q"
    "q_noblock q1 = q_noblock q" "q_len q1 = q_len q"
    "qstep q k {#bid b#} (q1\<lparr>q_len := q_len q1 + int (BALLOC b), q_dlen := q_dlen q1 + int (BLEN b)\<rparr>) k {#} (bdata b) []"
    by blast
  show ?thesis
    using byp fr q1 link_bypass [OF q1(1)]
    by (auto simp: qbwrite_def Let_def case_prod_unfold qbwrite_wait_def qnotfull_def unstarve_def same_mode_def)
qed

lemma write_chunk:
  assumes al: "al_ok al" and wf: "wf_queue q" and byp: "\<not> q_bypass q"
  shows "post (oom al) (\<lambda>(r, q', k').
     if Qclosed \<in> q_state q then r = Werr (q_err q) \<and> q' = q \<and> qstep q k {#} q' k' {#} [] []
     else if q_limit q \<le> q_len q \<and> q_noblock q then r = Wok (length d) \<and> q' = q \<and> qstep q k {#} q' k' {#} [] []
     else qstep q k {#} q' k' {#} d [] \<and> same_mode q q' \<and> (r = Wok (length d) \<or> r = Wblock (length d)))
     (andthen (allocb al k (length d)) (\<lambda>(b, k1). andthen (bput b d) (\<lambda>b1. qbwrite q k1 b1)))"
proof (rule post_andthen [OF allocb_post [OF al]], clarify)
  fix b k1
  assume b: "fresh b (length d)" "\<forall>A. moves k A k1 (add_mset (bid b) A)"
  then obtain b1 where b1: "bput b d = Inr b1" "wf_block b1" "bdata b1 = d" "bid b1 = bid b" "BLEN b1 = length d"
    using put_ok [of b d] by (auto simp: fresh_def)
  have "moves k {#} k1 {#bid b1#}"
    using b(2) b1(4) by simp
  note before = qstep_moves_before [OF this]
  show "post (oom al) (\<lambda>(r, q', k').
     if Qclosed \<in> q_state q then r = Werr (q_err q) \<and> q' = q \<and> qstep q k {#} q' k' {#} [] []
     else if q_limit q \<le> q_len q \<and> q_noblock q then r = Wok (length d) \<and> q' = q \<and> qstep q k {#} q' k' {#} [] []
     else qstep q k {#} q' k' {#} d [] \<and> same_mode q q' \<and> (r = Wok (length d) \<or> r = Wblock (length d)))
     (andthen (bput b d) (\<lambda>b1. qbwrite q k1 b1))"
    unfolding b1(1) andthen_Inr
    by (rule post_weaken [OF qbwrite_qstep [OF wf b1(2) byp, of k1] _ empty_subsetI], clarify)
      (cases "Qclosed \<in> q_state q"; cases "q_limit q \<le> q_len q \<and> q_noblock q";
        simp only: if_True if_False b1(3,5) simp_thms; blast intro: before)
qed

lemma qwrite_unfold:
  "qwrite al q k p =
     (let n = min (length p) Maxatomic in
      andthen (andthen (allocb al k (length (take n p))) (\<lambda>(b, k1). andthen (bput b (take n p)) (\<lambda>b1. qbwrite q k1 b1)))
       (\<lambda>(r, q2, k2). case r of
         Wblock _ \<Rightarrow> Inr (if length p - n > 0 \<and> Qmsg \<notin> q_state q2 then Inl (drop n p) else Inl [], q2, k2)
       | _ \<Rightarrow> if length p - n > 0 \<and> Qmsg \<notin> q_state q2 then qwrite al q2 k2 (drop n p)
              else Inr (Inr (), q2, k2)))"
  by (subst qwrite.simps) (simp add: Let_def andthen_assoc case_prod_unfold min_def)

lemma qwrite_qstep:
  assumes al: "al_ok al"
  shows "wf_queue q \<Longrightarrow> \<not> q_bypass q \<Longrightarrow> \<not> q_noblock q \<Longrightarrow> Qclosed \<notin> q_state q \<Longrightarrow> Qmsg \<notin> q_state q \<Longrightarrow>
     post (oom al) (\<lambda>(r, q', k'). same_mode q q' \<and> (case r of Inr _ \<Rightarrow> qstep q k {#} q' k' {#} p []
       | Inl rest \<Rightarrow> \<exists>w. p = w @ rest \<and> qstep q k {#} q' k' {#} w [])) (qwrite al q k p)"
proof (induction p arbitrary: q k rule: measure_induct_rule [of length])
  case (less p)
  let ?n = "min (length p) Maxatomic"
  let ?P = "\<lambda>(r, q', k'). same_mode q q' \<and> (case r of Inr _ \<Rightarrow> qstep q k {#} q' k' {#} p []
       | Inl rest \<Rightarrow> \<exists>w. p = w @ rest \<and> qstep q k {#} q' k' {#} w [])"
  let ?F = "\<lambda>(r, q2, k2). case r of
         Wblock _ \<Rightarrow> Inr (if length p - ?n > 0 \<and> Qmsg \<notin> q_state q2 then Inl (drop ?n p) else Inl [], q2, k2)
       | _ \<Rightarrow> if length p - ?n > 0 \<and> Qmsg \<notin> q_state q2 then qwrite al q2 k2 (drop ?n p)
              else Inr (Inr (), q2, k2)"
  have step: "post (oom al) ?P (?F (r, q2, k2))"
    if st: "qstep q k {#} q2 k2 {#} (take ?n p) []" "same_mode q q2" and r: "r = Wok m \<or> r = Wblock m" for r q2 k2 m
  proof (cases "length p - ?n > 0")
    case False
    then have "take ?n p = p" by simp
    with False st r show ?thesis by auto
  next
    case True
    have lt: "length (drop ?n p) < length p"
      using True by (simp add: Maxatomic_def)
    have q2: "wf_queue q2" "\<not> q_bypass q2" "\<not> q_noblock q2" "Qclosed \<notin> q_state q2" "Qmsg \<notin> q_state q2"
      using st less.prems by (auto simp: qstep_def same_mode_def)
    have "post (oom al) ?P (qwrite al q2 k2 (drop ?n p))"
    proof (rule post_weaken [OF less.IH [OF lt q2, of k2] _ subset_refl], clarify)
      fix r :: "byte list + unit" and q' k'
      assume m: "same_mode q2 q'" and x: "case r of Inr _ \<Rightarrow> qstep q2 k2 {#} q' k' {#} (drop ?n p) []
        | Inl rest \<Rightarrow> \<exists>w. drop ?n p = w @ rest \<and> qstep q2 k2 {#} q' k' {#} w []"
      have "case r of Inr _ \<Rightarrow> qstep q k {#} q' k' {#} p [] | Inl rest \<Rightarrow> \<exists>w. p = w @ rest \<and> qstep q k {#} q' k' {#} w []"
      proof (cases r)
        case (Inl rest)
        with x obtain w where w: "drop ?n p = w @ rest" "qstep q2 k2 {#} q' k' {#} w []"
          by auto
        have "p = (take ?n p @ w) @ rest"
          using w(1) append_take_drop_id [of ?n p] by simp
        moreover have "qstep q k {#} q' k' {#} (take ?n p @ w) []"
          using qstep_trans [OF st(1) w(2)] by simp
        ultimately show ?thesis
          unfolding Inl sum.case by blast
      next
        case (Inr u)
        then have "qstep q2 k2 {#} q' k' {#} (drop ?n p) []"
          using x by simp
        from qstep_trans [OF st(1) this] show ?thesis
          unfolding Inr sum.case append_take_drop_id by simp
      qed
      with same_mode_trans [OF st(2) m] show "same_mode q q' \<and> (case r of Inr _ \<Rightarrow> qstep q k {#} q' k' {#} p []
        | Inl rest \<Rightarrow> \<exists>w. p = w @ rest \<and> qstep q k {#} q' k' {#} w [])" by (rule conjI)
    qed
    moreover have "?P (Inl (drop ?n p), q2, k2)"
      unfolding prod.case sum.case using st append_take_drop_id [of ?n p, symmetric] by blast
    ultimately show ?thesis
      using r True q2(5) by (elim disjE) (simp_all only: prod.case wres.case simp_thms if_True post_Inr)
  qed
  have "post (oom al) ?P (andthen (andthen (allocb al k (length (take ?n p)))
      (\<lambda>(b, k1). andthen (bput b (take ?n p)) (\<lambda>b1. qbwrite q k1 b1))) ?F)"
  proof (rule post_andthen [OF write_chunk [OF al less.prems(1,2)]])
    fix x
    assume "case x of (r, q', k') \<Rightarrow>
     if Qclosed \<in> q_state q then r = Werr (q_err q) \<and> q' = q \<and> qstep q k {#} q' k' {#} [] []
     else if q_limit q \<le> q_len q \<and> q_noblock q then r = Wok (length (take ?n p)) \<and> q' = q \<and> qstep q k {#} q' k' {#} [] []
     else qstep q k {#} q' k' {#} (take ?n p) [] \<and> same_mode q q' \<and> (r = Wok (length (take ?n p)) \<or> r = Wblock (length (take ?n p)))"
    with less.prems step show "post (oom al) ?P (?F x)"
      by (cases x) (simp only: prod.case if_False simp_thms, blast)
  qed
  then show ?case
    unfolding qwrite_unfold [of al q k p] Let_def .
qed

end
