(* ===== verification/QueueIO.thy ===== *)
theory QueueIO
  imports Queues "HOL-Library.Sublist"
begin

text \<open>
  The queues of \<open>9/port/qio.c\<close> as a system. First the contracts of the remaining operations (\<open>qiwrite\<close>,
  \<open>mem2bl\<close>, \<open>qcopy\<close>, \<open>qflush\<close>, \<open>qclose\<close>). Then the step relation \<open>qio\<close>: any call of any operation, by
  any process, in any order, with a reader that copies its blocks without holding the lock while \<open>qget\<close> and \<open>qconsume\<close> may
  take others (\<open>Overtook\<close>). The locale \<open>fifo_machine\<close> says what it means to implement a byte stream; \<open>qio\<close> is an instance. The
  last part adds \<open>sleep\<close> and \<open>wakeup\<close> of \<open>9/port/proc-l4.c\<close> (the step relation \<open>rio\<close>): a reader that is parked is woken, but
  between its test and its parking a wakeup is lost; and it shows where the code loses a write, a writer's
  wakeup and blocks.
\<close>

declare mem2bl.simps [simp del]

subsection \<open>The remaining operations\<close>




lemma mem2bl_post:
  assumes al: "al_ok al"
  shows "post (oom al) (\<lambda>(bs, k'). wf_blocks bs \<and> bs \<noteq> [] \<and> bsdata bs = p \<and> moves k {#} k' (owned bs)
    \<and> list_all (\<lambda>b. BLEN b \<le> Maxatomic) bs) (mem2bl al k p)"
proof (induction p arbitrary: k rule: measure_induct_rule [of length])
  case (less p)
  let ?n = "min (length p) Maxatomic"
  let ?P = "\<lambda>(bs, k'). wf_blocks bs \<and> bs \<noteq> [] \<and> bsdata bs = p \<and> moves k {#} k' (owned bs) \<and> list_all (\<lambda>b. BLEN b \<le> Maxatomic) bs"
  show ?case
    unfolding mem2bl.simps [of al k p] Let_def
  proof (rule post_andthen [OF allocb_post [OF al]], clarify)
    fix b k1
    assume b: "fresh b ?n" "\<forall>A. moves k A k1 (add_mset (bid b) A)"
    then obtain b1 where b1: "bput b (take ?n p) = Inr b1" "wf_block b1" "bdata b1 = take ?n p" "bid b1 = bid b" "BLEN b1 = ?n"
      using put_ok [of b "take ?n p"] by (auto simp: fresh_def)
    have mv: "moves k {#} k1 {#bid b1#}"
      using b(2) b1(4) by simp
    show "post (oom al) ?P (andthen (bput b (take ?n p)) (\<lambda>b1. if length p - ?n > 0
           then andthen (mem2bl al k1 (drop ?n p)) (\<lambda>(bs, k2). Inr (b1 # bs, k2)) else Inr ([b1], k1)))"
    proof (cases "length p - ?n > 0")
      case False
      then show ?thesis using b1 mv by simp
    next
      case True
      then have lt: "length (drop ?n p) < length p"
        by (simp add: Maxatomic_def)
      have "post (oom al) ?P (andthen (mem2bl al k1 (drop ?n p)) (\<lambda>(bs, k2). Inr (b1 # bs, k2)))"
      proof (rule post_andthen [OF less.IH [OF lt, of k1]], clarify)
        fix bs k2
        assume i: "wf_blocks bs" "bs \<noteq> []" "bsdata bs = drop ?n p" "moves k1 {#} k2 (owned bs)" "list_all (\<lambda>b. BLEN b \<le> Maxatomic) bs"
        have "moves k {#} k2 (owned (b1 # bs))"
          using moves_trans [OF mv moves_frame [OF i(4), of "{#bid b1#}", simplified]] by simp
        then show "post (oom al) ?P (Inr (b1 # bs, k2))"
          using i(1,3,5) b1(2,3,5) append_take_drop_id [of ?n p] by (simp del: append_take_drop_id)
      qed
      with True show ?thesis
        unfolding b1(1) andthen_Inr by (simp only: if_True)
    qed
  qed
qed

text \<open>\<open>copy_seek\<close> finds the block of an offset; the copy takes the bytes from there.\<close>

lemma copy_seek_ok:
  "wf_blocks bs \<Longrightarrow> (case copy_seek bs off of
     None \<Rightarrow> drop off (bsdata bs) = []
   | Some (bs', start) \<Rightarrow> \<exists>b rest. bs' = b # rest \<and> wf_blocks bs' \<and> start < BLEN b \<and> drop off (bsdata bs) = drop start (bsdata bs'))"
proof (induction bs arbitrary: off)
  case (Cons b bs)
  show ?case
  proof (cases "off < BLEN b")
    case False
    with Cons.prems have "drop off (bsdata (b # bs)) = drop (off - BLEN b) (bsdata bs)"
      by simp
    with False Cons show ?thesis
      by (simp only: copy_seek.simps list.pred_inject if_False simp_thms)
  qed (use Cons.prems in simp)
qed simp

lemma qcopy_loop_ok:
  assumes "wf_blocks bs" "wf_block nb" "bwp nb + len \<le> length (bbuf nb)" "bs \<noteq> [] \<Longrightarrow> start \<le> BLEN (hd bs)"
  shows "\<exists>nb'. qcopy_loop nb bs start len = Inr nb' \<and> wf_block nb' \<and> bid nb' = bid nb
     \<and> bdata nb' = bdata nb @ take len (drop start (bsdata bs))"
  using assms
proof (induction bs arbitrary: nb start len)
  case (Cons b bs)
  show ?case
  proof (cases "len = 0")
    case False
    let ?n = "min (BLEN b - start) len"
    have d: "bget b start ?n = Inr (take ?n (drop start (bdata b)))"
      using Cons.prems by (subst bget_data) (auto simp: bslice_def)
    have wf: "wf_block nb" and len: "length (take ?n (drop start (bdata b))) = ?n" and "bwp nb + ?n \<le> length (bbuf nb)"
      using Cons.prems by auto
    then have "bwp nb + length (take ?n (drop start (bdata b))) \<le> length (bbuf nb)"
      by simp
    from bput_ok [OF wf this] obtain nb1 where nb1:
      "bput nb (take ?n (drop start (bdata b))) = Inr nb1" "wf_block nb1" "bdata nb1 = bdata nb @ take ?n (drop start (bdata b))"
      "bid nb1 = bid nb" "bwp nb1 = bwp nb + ?n" "length (bbuf nb1) = length (bbuf nb)"
      unfolding len by metis
    have "\<exists>nb'. qcopy_loop nb1 bs 0 (len - ?n) = Inr nb' \<and> wf_block nb' \<and> bid nb' = bid nb1
       \<and> bdata nb' = bdata nb1 @ take (len - ?n) (drop 0 (bsdata bs))"
      using Cons.prems nb1 by (intro Cons.IH) auto
    moreover have "take ?n (drop start (bdata b)) @ take (len - ?n) (bsdata bs) = take len (drop start (bsdata (b # bs)))"
      using Cons.prems by (simp add: min_def)
    ultimately show ?thesis
      using False d nb1 by (auto simp: Let_def)
  qed (use Cons.prems in simp)
qed simp

lemma qcopy_post:
  assumes al: "al_ok al" and wf: "wf_queue q"
  shows "post (oom al) (\<lambda>(nb, k'). wf_block nb \<and> bdata nb = take len (drop off (stream q)) \<and> moves k {#} k' {#bid nb#})
     (qcopy al q k len off)"
  unfolding qcopy_def
proof (rule post_andthen [OF allocb_post [OF al]], clarify)
  fix b k1
  assume b: "fresh b len" "\<forall>A. moves k A k1 (add_mset (bid b) A)"
  then have b': "wf_block b" "bdata b = []" "bwp b + len \<le> length (bbuf b)" "moves k {#} k1 {#bid b#}"
    by (auto simp: fresh_data fresh_def)
  have seek: "wf_blocks (q_blocks q)"
    using wf by (simp add: wf_queue_def)
  show "post (oom al) (\<lambda>(nb, k'). wf_block nb \<and> bdata nb = take len (drop off (stream q)) \<and> moves k {#} k' {#bid nb#})
     (case copy_seek (q_blocks q) off of None \<Rightarrow> Inr (b, k1)
      | Some (bs, start) \<Rightarrow> andthen (qcopy_loop b bs start len) (\<lambda>nb1. Inr (nb1, k1)))"
  proof (cases "copy_seek (q_blocks q) off")
    case None
    with copy_seek_ok [OF seek, of off] b' show ?thesis
      by (simp add: stream_def)
  next
    case (Some p)
    then obtain c rest start where c: "copy_seek (q_blocks q) off = Some (c # rest, start)" "wf_blocks (c # rest)" "start < BLEN c"
      "drop off (stream q) = drop start (bsdata (c # rest))"
      using copy_seek_ok [OF seek, of off] by (cases p) (auto simp: stream_def)
    from qcopy_loop_ok [OF c(2) b'(1,3), of start] c(3) obtain nb where
      "qcopy_loop b (c # rest) start len = Inr nb" "wf_block nb" "bid nb = bid b" "bdata nb = take len (drop start (bsdata (c # rest)))"
      using b'(2) by auto
    then show ?thesis
      using b'(4) unfolding c(1,4) by (simp del: bsdata_simps)
  qed
qed

subsection \<open>The system: one queue and everyone who uses it\<close>

text \<open>What one step does to the bytes: \<open>Put\<close> appends; \<open>Got d r\<close> hands \<open>d\<close> to a reader and discards \<open>r\<close> behind it, the
  rest of a message; \<open>Overtook d r\<close> does the same behind bytes that another reader has already taken but not yet
  copied; \<open>Dropped\<close> discards.\<close>

datatype act = Put "byte list" | Got "byte list" "byte list" | Overtook "byte list" "byte list" | Dropped "byte list"













text \<open>The state: the queue, the kernel's block state, the blocks that are neither released nor in the queue
  (held by drivers and protocols, or lost), and the reader that has taken blocks off the queue and copies them without the
  lock (\<open>qread\<close>), with the length it asked for. Only one reader can be there: it holds \<open>rlock\<close>.\<close>

type_synonym qsys = "queue \<times> kst \<times> nat multiset \<times> (nat \<times> block list) option"




text \<open>Whether a queue takes a block that is written to it: it is open, and not over its limit with \<open>noblock\<close> set.\<close>

definition accepts :: "queue \<Rightarrow> bool" where
  "accepts q \<longleftrightarrow> Qclosed \<notin> q_state q \<and> \<not> (q_limit q \<le> q_len q \<and> q_noblock q)"

text \<open>The calls that write, on a queue without \<open>bypass\<close>, with the bytes they queue. A \<open>qwrite\<close> of more than \<open>Maxatomic\<close> bytes is several
  of its steps (\<open>qwrite_runs\<close>), and others may come between them.\<close>

inductive qputs :: "allocator \<Rightarrow> queue \<times> kst \<times> nat multiset \<Rightarrow> byte list \<Rightarrow> queue \<times> kst \<times> nat multiset \<Rightarrow> bool" for al where
  Put_write: "qwrite al q k p = Inr (r, q', k') \<Longrightarrow> length p \<le> Maxatomic \<Longrightarrow> \<not> q_bypass q \<Longrightarrow>
     d = (if accepts q then p else []) \<Longrightarrow> qputs al (q, k, h) d (q', k', h)"
| Put_bwrite: "qbwrite q k b = Inr (r, q', k') \<Longrightarrow> wf_block b \<Longrightarrow> \<not> q_bypass q \<Longrightarrow>
     d = (if accepts q then bdata b else []) \<Longrightarrow> qputs al (q, k, add_mset (bid b) h) d (q', k', h)"
| Put_iwrite: "qiwrite al q k p = Inr (n, q', k') \<Longrightarrow> qputs al (q, k, h) (take n p) (q', k', h)"
| Put_produce: "qproduce al q k d = Inr (n, q', k') \<Longrightarrow> qputs al (q, k, h) (take (nat n) d) (q', k', h)"
| Put_pass: "qpass q k bs = Inr (n, q', k') \<Longrightarrow> wf_blocks bs \<Longrightarrow> bs \<noteq> [] \<Longrightarrow>
     d = (if n = - 1 then [] else bsdata bs) \<Longrightarrow> qputs al (q, k, owned bs + h) d (q', k', h)"
| Put_passnolim: "qpassnolim q k bs = Inr (n, q', k') \<Longrightarrow> wf_blocks bs \<Longrightarrow> bs \<noteq> [] \<Longrightarrow>
     qputs al (q, k, owned bs + h) (bsdata bs) (q', k', h)"

text \<open>Bytes handed out while \<open>rd\<close> is, or is not, in the middle of a read.\<close>

definition handed :: "(nat \<times> block list) option \<Rightarrow> byte list \<Rightarrow> byte list \<Rightarrow> act" where
  "handed rd d r = (if rd = None then Got d r else Overtook d r)"

text \<open>One call of an operation of \<open>qio.c\<close>. A \<open>qread\<close> or \<open>qbread\<close> starts only when no other is in progress, since it takes
  \<open>rlock\<close>; all others may come at any time, also while a reader copies. \<open>qget\<close> and \<open>qconsume\<close> take no \<open>rlock\<close>.\<close>

inductive qio :: "allocator \<Rightarrow> qsys \<Rightarrow> act \<Rightarrow> qsys \<Rightarrow> bool" for al where
  Io_put: "qputs al (q, k, h) w (q', k', h') \<Longrightarrow>
     qio al (q, k, h, rd) (Put w) (q', k', h', rd)"
| Io_wait: "qread_take q k len = (r, q', k') \<Longrightarrow> r \<in> {Rsleep, Reof} \<union> range Rerror \<Longrightarrow>
     qio al (q, k, h, None) (Put []) (q', k', h, None)"
| Io_take: "qread_take q k len = (Rok bs, q', k') \<Longrightarrow>
     qio al (q, k, h, None) (Put []) (q', k', h, Some (len, bs))"
| Io_copy: "bl2mem k bs len = Inr (d, left, k1) \<Longrightarrow> qread_finish q k1 left = (q', k') \<Longrightarrow>
     qio al (q, k, h, Some (len, bs)) (Got d (if Qmsg \<in> q_state q then bsdata left else [])) (q', k', h, None)"
| Io_bread: "qbread al q k len = Inr (Rok nb, q', k') \<Longrightarrow>
     r = (if Qmsg \<in> q_state q then drop len (bdata (hd (q_blocks q))) else []) \<Longrightarrow>
     qio al (q, k, h, None) (Got (bdata nb) r) (q', k', add_mset (bid nb) h, None)"
| Io_bwait: "qbread al q k len = Inr (r, q', k') \<Longrightarrow> r \<in> {Rsleep, Reof} \<union> range Rerror \<Longrightarrow>
     qio al (q, k, h, None) (Put []) (q', k', h, None)"
| Io_get: "qget q k = (Some b, q', k') \<Longrightarrow>
     qio al (q, k, h, rd) (handed rd (bdata b) []) (q', k', add_mset (bid b) h, rd)"
| Io_get_empty: "qget q k = (None, q', k') \<Longrightarrow>
     qio al (q, k, h, rd) (Put []) (q', k', h, rd)"
| Io_consume: "qconsume q k len = Inr (Some d, q', k') \<Longrightarrow>
     r = (if Qmsg \<in> q_state q then drop len (bdata (hd (dropWhile (\<lambda>b. BLEN b = 0) (q_blocks q)))) else []) \<Longrightarrow>
     qio al (q, k, h, rd) (handed rd d r) (q', k', h, rd)"
| Io_consume_none: "qconsume q k len = Inr (None, q', k') \<Longrightarrow>
     qio al (q, k, h, rd) (Put []) (q', k', h + owned (q_blocks q), rd)"
| Io_discard: "qdiscard q k len = (n, q', k') \<Longrightarrow>
     qio al (q, k, h, rd) (Dropped (take n (stream q))) (q', k', h, rd)"
| Io_flush: "qflush q k = (q', k') \<Longrightarrow>
     qio al (q, k, h, rd) (Dropped (stream q)) (q', k', h, rd)"
| Io_close: "qclose q k = (q', k') \<Longrightarrow>
     qio al (q, k, h, rd) (Dropped (stream q)) (q', k', h, rd)"
| Io_hangup: "qhangup q k msg = (q', k') \<Longrightarrow>
     qio al (q, k, h, rd) (Put []) (q', k', h, rd)"
| Io_reopen: "qio al (q, k, h, rd) (Put []) (qreopen q, k, h, rd)"
| Io_setlimit: "qio al (q, k, h, rd) (Put []) (qsetlimit q lim, k, h, rd)"
| Io_noblock: "qio al (q, k, h, rd) (Put []) (qnoblock q onoff, k, h, rd)"











lemma post_InrD: "post E P m \<Longrightarrow> m = Inr x \<Longrightarrow> P x"
  by simp




text \<open>A long \<open>qwrite\<close> is a sequence of steps.\<close>

lemma qwrite_bypass: "qbwrite q k b = Inr (r, q', k') \<Longrightarrow> q_bypass q' = q_bypass q"
  by (cases "link_blocks q [b]")
    (auto simp: qbwrite_def Let_def case_prod_unfold qbwrite_wait_def dest: link_bypass split: if_splits)

lemma qwrite_runs:
  "qwrite al q k p = Inr (r, q', k') \<Longrightarrow> \<not> q_bypass q \<Longrightarrow> \<exists>ws. runs (qputs al) (q, k, h) ws (q', k', h)"
proof (induction p arbitrary: q k rule: measure_induct_rule [of length])
  case (less p)
  let ?n = "min (length p) Maxatomic"
  let ?t = "take ?n p"
  from less.prems(1) obtain r2 q2 k2 where
    c: "andthen (allocb al k (length ?t)) (\<lambda>(b, k1). andthen (bput b ?t) (\<lambda>b1. qbwrite q k1 b1)) = Inr (r2, q2, k2)"
    and t: "(case r2 of
         Wblock _ \<Rightarrow> Inr (if length p - ?n > 0 \<and> Qmsg \<notin> q_state q2 then Inl (drop ?n p) else Inl [], q2, k2)
       | _ \<Rightarrow> if length p - ?n > 0 \<and> Qmsg \<notin> q_state q2 then qwrite al q2 k2 (drop ?n p)
              else Inr (Inr (), q2, k2)) = Inr (r, q', k')"
    unfolding qwrite_unfold [of al q k p] Let_def by (auto simp: andthen_eq_Inr)
  have m: "min (length ?t) Maxatomic = length ?t" by simp
  have "\<exists>r1. qwrite al q k ?t = Inr (r1, q2, k2)"
    unfolding qwrite_unfold [of al q k ?t] m Let_def take_all [OF order_refl] c by (cases r2) simp_all
  then obtain r1 where r1: "qwrite al q k ?t = Inr (r1, q2, k2)" by blast
  have "qputs al (q, k, h) (if accepts q then ?t else []) (q2, k2, h)"
    by (rule Put_write [OF r1 _ less.prems(2) refl]) simp
  note one = runs_one [of "qputs al", OF this]
  have "\<not> q_bypass q2"
    using c less.prems(2) by (auto simp: andthen_eq_Inr dest: qwrite_bypass)
  moreover have "length (drop ?n p) < length p" if "length p - ?n > 0"
    using that by (simp add: Maxatomic_def)
  ultimately have "(q', k') = (q2, k2) \<or> (\<exists>ws. runs (qputs al) (q2, k2, h) ws (q', k', h))"
    using t less.IH [of "drop ?n p" q2 k2] by (auto split: wres.splits if_splits)
  then show ?case
    using one runs_append [OF one] by blast
qed









subsection \<open>Wakeups\<close>

text \<open>\<open>ext k k'\<close>: the events of \<open>k\<close> are followed by more; \<open>wakes k k'\<close>: among them a wakeup of the reader.\<close>

definition ext :: "kst \<Rightarrow> kst \<Rightarrow> bool" where
  "ext k k' \<longleftrightarrow> prefix (kev k) (kev k')"

definition wakes :: "kst \<Rightarrow> kst \<Rightarrow> bool" where
  "wakes k k' \<longleftrightarrow> (\<exists>es. kev k' = kev k @ es \<and> Wakeup_rr \<in> set es)"

lemma ext_refl [simp, intro]: "ext k k"
  by (simp add: ext_def)

lemma ext_event [simp, intro]: "ext k k' \<Longrightarrow> ext k (event e k')"
  by (auto simp: ext_def prefix_def)


lemma wakes_event [simp, intro]: "ext k k' \<Longrightarrow> wakes k (event Wakeup_rr k')"
  by (auto simp: ext_def wakes_def prefix_def)

lemma wakes_event2 [simp, intro]: "wakes k k' \<Longrightarrow> wakes k (event e k')"
  by (auto simp: wakes_def)


lemma wakes_after: "ext k k1 \<Longrightarrow> wakes k1 k2 \<Longrightarrow> wakes k k2"
  by (auto simp: ext_def wakes_def prefix_def)

lemma ext_freeb [simp]: "ext k k' \<Longrightarrow> ext k (freeb k' b)"
  by (auto simp: freeb_def ext_def event_def Let_def prefix_def)

lemma ext_freeblist [simp]: "ext k k' \<Longrightarrow> ext k (freeblist k' bs)"
  by (induction bs arbitrary: k') auto

lemma kev_same_ext: "kev k' = kev k \<Longrightarrow> ext k k'"
  by (simp add: ext_def)

text \<open>Linking into an empty queue cannot fail.\<close>

lemma link_empty: "q_blocks q = [] \<Longrightarrow> bs \<noteq> [] \<Longrightarrow> link_blocks q bs = Inr (q\<lparr>q_blocks := bs, q_last := Some (bid (last bs))\<rparr>)"
  by (simp add: link_blocks_def)









lemma link_state: "link_blocks q bs = Inr q1 \<Longrightarrow> q_state q1 = q_state q"
  by (auto simp: link_blocks_def split: if_splits)





lemma empty_ops:
  assumes "q_blocks q = []" "Qclosed \<notin> q_state q"
  shows "qread_take q k len = (Rsleep, set_flag Qstarve q, k)" "qbread al q k len = Inr (Rsleep, set_flag Qstarve q, k)"
    "qget q k = (None, set_flag Qstarve q, k)" "qconsume q k len = Inr (None, set_flag Qstarve q, k)"
    "qdiscard q k len = (0, fst (restart (q_limit q) q k), snd (restart (q_limit q) q k))"
  using assms by (simp_all add: qread_take_def qwait_def qbread_def qget_def qconsume_def qdiscard_def case_prod_unfold)



subsection \<open>\<open>sleep\<close> and \<open>wakeup\<close>\<close>

text \<open>
  \<open>sleep\<close> and \<open>wakeup\<close> of \<open>9/port/proc-l4.c\<close>, step by step, for the reader of a queue. In \<open>qwait\<close> the reader sets \<open>Qstarve\<close>, gives up
  the lock and calls \<open>sleep\<close> (\<open>Called\<close>). \<open>sleep\<close> calls \<open>notempty\<close>, with no lock held, and returns if it holds; else
  (\<open>Tested\<close>) it stores its thread in \<open>r->p\<close> and waits for a message (\<open>Parked\<close>). \<open>wakeup\<close> does nothing when \<open>r->p\<close> is nil, and
  else clears it and sends the message. The operations on the queue decide under the lock whether to wake the
  reader, and call \<open>wakeup\<close> after they have given it up: \<open>n\<close> counts the calls that are still to come.
\<close>

datatype rphase = Running | Called | Tested | Parked

definition sleep_test :: "queue \<Rightarrow> rphase" where
  "sleep_test q = (if notempty q then Running else Tested)"

definition wakeup :: "rphase \<Rightarrow> rphase" where
  "wakeup ph = (if ph = Parked then Running else ph)"

definition new_wakeups :: "kst \<Rightarrow> kst \<Rightarrow> nat" where
  "new_wakeups k k' = length (filter ((=) Wakeup_rr) (drop (length (kev k)) (kev k')))"

datatype ract = Op act | Wake | Wait | Test | Park

inductive rio :: "allocator \<Rightarrow> qsys \<times> rphase \<times> nat \<Rightarrow> ract \<Rightarrow> qsys \<times> rphase \<times> nat \<Rightarrow> bool" for al where
  R_op: "qio al (q, k, h, rd) a (q', k', h', rd') \<Longrightarrow>
     rio al ((q, k, h, rd), ph, n) (Op a) ((q', k', h', rd'), ph, n + new_wakeups k k')"
| R_wake: "0 < n \<Longrightarrow> rio al (s, ph, n) Wake (s, wakeup ph, n - 1)"
| R_wait: "qwait q = (Wsleep, q') \<Longrightarrow> rio al ((q, k, h, None), Running, n) Wait ((q', k, h, None), Called, n)"
| R_test: "rio al ((q, k, h, rd), Called, n) Test ((q, k, h, rd), sleep_test q, n)"
| R_park: "rio al (s, Tested, n) Park (s, Parked, n)"




text \<open>Writers wake the reader only with \<open>Qstarve\<close> set, and do not set it.\<close>

definition quiet :: "queue \<times> kst \<times> nat multiset \<Rightarrow> queue \<times> kst \<times> nat multiset \<Rightarrow> bool" where
  "quiet s s' \<longleftrightarrow> Qstarve \<notin> q_state (fst s') \<and>
     (\<exists>es. kev (fst (snd s')) = kev (fst (snd s)) @ es \<and> Wakeup_rr \<notin> set es)"

lemma quiet_trans: "quiet s t \<Longrightarrow> quiet t u \<Longrightarrow> quiet s u"
  by (auto simp: quiet_def)

lemma quiet_new_wakeups: "quiet (q, k, h) (q', k', h') \<Longrightarrow> new_wakeups k k' = 0"
  by (auto simp: quiet_def new_wakeups_def filter_empty_conv)

lemma freeblist_silent: "\<exists>es. kev (freeblist k bs) = kev k @ es \<and> Wakeup_rr \<notin> set es"
proof (induction bs arbitrary: k)
  case (Cons b bs)
  obtain es where "kev (freeblist (freeb k b) bs) = kev (freeb k b) @ es" "Wakeup_rr \<notin> set es" using Cons by blast
  then show ?case by (auto simp: freeb_def Let_def)
qed simp

lemma unstarve_none: "Qstarve \<notin> q_state q \<Longrightarrow> unstarve q = (q, False)"
  by (simp add: unstarve_def)

lemma qbwrite_quiet:
  assumes "qbwrite q k b = Inr (r, q', k')" "Qstarve \<notin> q_state q"
  shows "quiet (q, k, h) (q', k', h')"
proof (cases "link_blocks q [b]")
  case (Inl e)
  then show ?thesis using assms by (auto simp: qbwrite_def Let_def quiet_def freeb_def split: if_splits)
next
  case (Inr q1)
  have "Qstarve \<notin> q_state q1" using link_state [OF Inr] assms(2) by simp
  then show ?thesis using assms Inr
    by (auto simp: qbwrite_def Let_def quiet_def freeb_def unstarve_none qbwrite_wait_def split: if_splits)
qed

lemma qiwrite_loop_quiet:
  assumes al: "al_ok al"
  shows "qiwrite_loop al False q k p = Inr (n, q', k') \<Longrightarrow> Qstarve \<notin> q_state q \<Longrightarrow> quiet (q, k, h) (q', k', h)"
proof (induction p arbitrary: q k n rule: measure_induct_rule [of length])
  case (less p)
  let ?n = "min (length p) Maxatomic"
  from less.prems(1) obtain r k1 where c: "iallocb al k ?n = Inr (r, k1)"
    unfolding qiwrite_loop.simps [of al False q k p] Let_def by (auto simp: andthen_eq_Inr)
  have k1: "kev k1 = kev k"
    using post_InrD [OF iallocb_post [OF al] c] by simp
  show ?case
  proof (cases r)
    case None
    then show ?thesis
      using less.prems c k1 unfolding qiwrite_loop.simps [of al False q k p] Let_def by (auto simp: quiet_def)
  next
    case (Some b)
    with less.prems(1) c obtain b1 where b1: "bput b (take ?n p) = Inr b1"
      unfolding qiwrite_loop.simps [of al False q k p] Let_def by (auto simp: andthen_eq_Inr)
    show ?thesis
    proof (cases "q_dlen q \<ge> 16 * 1024")
      case True
      then show ?thesis
        using less.prems c b1 Some k1 unfolding qiwrite_loop.simps [of al False q k p] Let_def
        by (auto simp: quiet_def freeb_def Let_def)
    next
      case False
      with less.prems(1) c b1 Some obtain q1 where q1: "link_blocks q [b1] = Inr q1"
        unfolding qiwrite_loop.simps [of al False q k p] Let_def by (auto simp: andthen_eq_Inr)
      define q2 where "q2 = q1\<lparr>q_len := q_len q1 + int (BALLOC b1), q_dlen := q_dlen q1 + int ?n\<rparr>"
      have ns: "Qstarve \<notin> q_state q2" using link_state [OF q1] less.prems(2) by (simp add: q2_def)
      have "(if length p - ?n > 0 \<and> Qmsg \<notin> q_state q2 then
                    andthen (qiwrite_loop al False q2 k1 (drop ?n p)) (\<lambda>(m, q4, k4). Inr (?n + m, q4, k4))
                  else Inr (?n, q2, k1)) = Inr (n, q', k')"
        using less.prems(1) False
        unfolding qiwrite_loop.simps [of al False q k p] Let_def c andthen_Inr prod.case Some option.case b1 q1 q2_def [symmetric]
          unstarve_none [OF ns] by (simp only: if_False simp_thms prod.case)
      then have "q' = q2 \<and> k' = k1 \<or> (\<exists>m. qiwrite_loop al False q2 k1 (drop ?n p) = Inr (m, q', k') \<and> ?n < length p)"
        by (auto simp: andthen_eq_Inr split: if_splits)
      moreover have "length (drop ?n p) < length p" if "?n < length p"
        using that by (simp add: Maxatomic_def)
      moreover have "quiet (q, k, h) (q2, k1, h)" using ns k1 by (simp add: quiet_def)
      ultimately show ?thesis
        using less.IH [of "drop ?n p" q2 k1] ns quiet_trans by blast
    qed
  qed
qed

lemma qpassnolim_quiet:
  assumes "qpassnolim q k bs = Inr (n, q', k')" "Qstarve \<notin> q_state q"
  shows "quiet (q, k, h) (q', k', h')"
proof (cases "link_blocks q bs")
  case (Inr q1)
  have "Qstarve \<notin> q_state q1" using link_state [OF Inr] assms(2) by simp
  then show ?thesis using assms Inr by (simp add: qpassnolim_def Let_def unstarve_none quiet_def split: if_splits) auto
qed (use assms in \<open>simp add: qpassnolim_def split: if_splits\<close>)

lemma qproduce_quiet:
  assumes al: "al_ok al" and p: "qproduce al q k d = Inr (n, q', k')" and ns: "Qstarve \<notin> q_state q"
  shows "quiet (q, k, h) (q', k', h')"
proof (cases "q_len q \<ge> q_limit q")
  case True
  then show ?thesis using p ns by (auto simp: qproduce_def quiet_def)
next
  case False
  with p obtain r k1 where c: "iallocb al k (length d) = Inr (r, k1)"
    by (auto simp: qproduce_def andthen_eq_Inr)
  have k1: "kev k1 = kev k"
    using post_InrD [OF iallocb_post [OF al] c] by simp
  show ?thesis
  proof (cases r)
    case None
    then show ?thesis using False p c k1 ns by (simp add: qproduce_def quiet_def)
  next
    case (Some b)
    with False p c obtain b1 q1 where b: "bput b d = Inr b1" "link_blocks q [b1] = Inr q1"
      by (auto simp: qproduce_def andthen_eq_Inr)
    have "Qstarve \<notin> q_state q1" using link_state [OF b(2)] ns by simp
    then show ?thesis using False p c k1 Some b
      by (simp add: qproduce_def Let_def unstarve_none quiet_def split: if_splits) auto
  qed
qed

lemma qputs_quiet:
  assumes al: "al_ok al" and st: "qputs al (q, k, h) w (q', k', h')" and ns: "Qstarve \<notin> q_state q"
  shows "quiet (q, k, h) (q', k', h')"
  using st
proof cases
  case (Put_write p r)
  then have n: "min (length p) Maxatomic = length p" by simp
  from Put_write(2) obtain b k1 b1 r2 q2 k2 where a: "allocb al k (length p) = Inr (b, k1)" and c: "qbwrite q k1 b1 = Inr (r2, q2, k2)"
    and t: "(case r2 of
         Wblock _ \<Rightarrow> Inr (if length p - length p > 0 \<and> Qmsg \<notin> q_state q2 then Inl (drop (length p) p) else Inl [], q2, k2)
       | _ \<Rightarrow> if length p - length p > 0 \<and> Qmsg \<notin> q_state q2 then qwrite al q2 k2 (drop (length p) p)
              else Inr (Inr (), q2, k2)) = Inr (r, q', k')"
    unfolding qwrite.simps [of al q k p] n Let_def by (auto simp: andthen_eq_Inr)
  have "q' = q2 \<and> k' = k2" using t by (cases r2) auto
  moreover have "kev k1 = kev k" using post_InrD [OF allocb_post [OF al] a] by simp
  ultimately show ?thesis using qbwrite_quiet [OF c ns, of h h'] by (simp add: quiet_def)
next
  case (Put_bwrite b r)
  show ?thesis by (rule qbwrite_quiet [OF Put_bwrite(2) ns])
next
  case (Put_iwrite p n)
  then show ?thesis using qiwrite_loop_quiet [OF al, of q k p n q' k'] ns by (simp add: qiwrite_def quiet_def)
next
  case (Put_produce d n)
  show ?thesis by (rule qproduce_quiet [OF al Put_produce(3) ns])
next
  case (Put_pass bs n)
  show ?thesis
  proof (cases "q_len q \<ge> q_limit q")
    case True
    then show ?thesis using Put_pass(2) ns freeblist_silent [of k bs] by (auto simp: qpass_def quiet_def)
  next
    case False
    then have "qpassnolim q k bs = Inr (n, q', k')" using Put_pass(2) by (simp add: qpass_def)
    then show ?thesis using qpassnolim_quiet ns by blast
  qed
next
  case (Put_passnolim bs n)
  show ?thesis by (rule qpassnolim_quiet [OF Put_passnolim(3) ns])
qed

lemma qputs_runs_quiet:
  assumes al: "al_ok al"
  shows "runs (qputs al) s ws s' \<Longrightarrow> Qstarve \<notin> q_state (fst s) \<Longrightarrow> quiet s s'"
proof (induction rule: runs.induct)
  case (runs_cons s a s1 as s')
  have "quiet s s1"
    using qputs_quiet [OF al, of "fst s" "fst (snd s)" "snd (snd s)" a "fst s1" "fst (snd s1)" "snd (snd s1)"] runs_cons.hyps(1) runs_cons.prems
    by (simp only: prod.collapse simp_thms)
  moreover from this have "quiet s1 s'" using runs_cons.IH by (simp add: quiet_def)
  ultimately show ?case by (rule quiet_trans)
qed (simp add: quiet_def)


subsection \<open>Properties\<close>

definition pipeq :: "int \<Rightarrow> qflag set \<Rightarrow> queue" where
  "pipeq lim fl = the (qopen True lim fl False)"

lemma pipeq_simps [simp]:
  "q_blocks (pipeq l f) = []" "q_last (pipeq l f) = None" "q_len (pipeq l f) = 0" "q_dlen (pipeq l f) = 0"
  "q_limit (pipeq l f) = l" "q_state (pipeq l f) = insert Qstarve f" "q_noblock (pipeq l f) = False" "q_bypass (pipeq l f) = False"
  "q_kick (pipeq l f) = False" "q_err (pipeq l f) = ''''" "wf_queue (pipeq l f)" "stream (pipeq l f) = []"
  by (simp_all add: pipeq_def qopen_def wf_queue_def stream_def)







text \<open>C40: before it is parked, a wakeup can be lost. The reader finds the queue empty, sets \<open>Qstarve\<close>, gives up the lock, and
  \<open>sleep\<close> finds \<open>notempty\<close> false; now a block is written, which clears \<open>Qstarve\<close>, and \<open>wakeup\<close> finds \<open>r->p\<close> nil and does nothing;
  then the reader stores its thread and waits. It is parked on a queue that is not empty with no wakeup
  to come, and whatever is written after that, no writer will call \<open>wakeup\<close> for it again.\<close>

theorem reader_wakeup_lost:
  assumes "al_ok al" "wf_queue q" "q_blocks q = []" "accepts q" "\<not> q_bypass q" "wf_block b"
  shows "\<exists>q' k'. runs (rio al) ((q, k, add_mset (bid b) h, None), Running, 0)
       [Wait, Test, Op (Put (bdata b)), Wake, Park] ((q', k', h, None), Parked, 0)
     \<and> notempty q' \<and> stream q' = bdata b
     \<and> (\<forall>ws q2 k2 h2. runs (qputs al) (q', k', h) ws (q2, k2, h2) \<longrightarrow> new_wakeups k' k2 = 0 \<and> Qstarve \<notin> q_state q2)"
proof -
  let ?q = "set_flag Qstarve q"
  have op: "Qclosed \<notin> q_state q" using assms(4) by (simp add: accepts_def)
  have w1: "rio al ((q, k, add_mset (bid b) h, None), Running, 0) Wait ((?q, k, add_mset (bid b) h, None), Called, 0)"
    by (rule R_wait) (simp add: qwait_def assms(3) op)
  have "sleep_test ?q = Tested" by (simp add: sleep_test_def notempty_def assms(3) op)
  then have w2: "rio al ((?q, k, add_mset (bid b) h, None), Called, 0) Test ((?q, k, add_mset (bid b) h, None), Tested, 0)"
    using R_test [of al ?q k "add_mset (bid b) h" None 0] by simp
  define q1 where "q1 = ?q\<lparr>q_blocks := [b], q_last := Some (bid b)\<rparr>"
  define q2 where "q2 = q1\<lparr>q_len := q_len q1 + int (BALLOC b), q_dlen := q_dlen q1 + int (BLEN b)\<rparr>"
  define q3 where "q3 = clear_flag Qstarve q2"
  define k1 where "k1 = event Wakeup_rr (if q_kick q3 \<and> (True \<or> Qkick \<in> q_state q3) then event Kick k else k)"
  obtain r q' where r: "qbwrite_wait q3 (BLEN b) = (r, q')" by (cases "qbwrite_wait q3 (BLEN b)")
  have l: "link_blocks ?q [b] = Inr q1" by (simp add: link_blocks_def assms(3) q1_def)
  have u: "unstarve q2 = (q3, True)" by (simp add: unstarve_def q3_def q2_def q1_def)
  have nb: "\<not> (q_len ?q \<ge> q_limit ?q \<and> q_noblock ?q)" "Qclosed \<notin> q_state ?q" "\<not> q_bypass ?q" "accepts ?q"
    using assms(4,5) by (auto simp: accepts_def)
  have bw: "qbwrite ?q k b = Inr (r, q', k1)"
    unfolding qbwrite_def Let_def if_not_P [OF nb(3)] if_not_P [OF nb(2)] if_not_P [OF nb(1)] l andthen_Inr
      q2_def [symmetric] u prod.case r k1_def by simp
  have q': "q_blocks q' = [b]" "Qstarve \<notin> q_state q'"
    using r by (auto simp: qbwrite_wait_def q3_def q2_def q1_def split: if_splits)
  have "qputs al (?q, k, add_mset (bid b) h) (bdata b) (q', k1, h)"
    by (rule Put_bwrite [OF bw assms(6) nb(3)]) (simp add: nb(4))
  from R_op [OF Io_put [OF this, of None], of Tested 0]
  have w3: "rio al ((?q, k, add_mset (bid b) h, None), Tested, 0) (Op (Put (bdata b))) ((q', k1, h, None), Tested, 1)"
    by (simp add: new_wakeups_def k1_def)
  have w4: "rio al ((q', k1, h, None), Tested, 1) Wake ((q', k1, h, None), Tested, 0)"
    using R_wake [of 1 al "(q', k1, h, None)" Tested] by (simp add: wakeup_def)
  have w5: "rio al ((q', k1, h, None), Tested, 0) Park ((q', k1, h, None), Parked, 0)" by (rule R_park)
  have "runs (rio al) ((q, k, add_mset (bid b) h, None), Running, 0) [Wait, Test, Op (Put (bdata b)), Wake, Park] ((q', k1, h, None), Parked, 0)"
    using w1 w2 w3 w4 w5 by (blast intro: runs.intros)
  moreover have "new_wakeups k1 kk = 0 \<and> Qstarve \<notin> q_state qq" if "runs (qputs al) (q', k1, h) ws (qq, kk, hh)" for ws qq kk hh
  proof -
    have "quiet (q', k1, h) (qq, kk, hh)" by (rule qputs_runs_quiet [OF assms(1) that]) (simp add: q'(2))
    then show ?thesis using quiet_new_wakeups by (auto simp: quiet_def)
  qed
  ultimately show ?thesis using q'(1) by (auto simp: notempty_def stream_def intro!: exI [of _ q'] exI [of _ k1])
qed

theorem reader_wakeup_lost_witness:
  "\<exists>q' k'. runs (rio bump) ((pipeq 100 {}, kst2, {#0, 1#}, None), Running, 0)
       [Wait, Test, Op (Put [7]), Wake, Park] ((q', k', {#1#}, None), Parked, 0) \<and> notempty q' \<and> stream q' = [7]"
  using reader_wakeup_lost [OF bump_ok(1), of "pipeq 100 {}" "blk 0 [7]" kst2 "{#1#}"] by (auto simp: accepts_def)

text \<open>C17: \<open>qread\<close> never faults. It returns the next bytes of the stream, at most \<open>len\<close>, and the count it returns is their number; what
  it does not return stays in the queue in order, except on a message queue, where the rest of the message goes. On an
  empty queue it sleeps with \<open>Qstarve\<close> set, or reports the end of a closed one, and takes nothing. Every block is
  accounted for.\<close>

theorem qread_spec:
  assumes "wf_queue q"
  shows "post {} (\<lambda>(r, q', k'). case r of
      Rok (n, d) \<Rightarrow> \<exists>s. qstep q k {#} q' k' {#} [] s \<and> d = take len s \<and> n = length d \<and> (Qmsg \<notin> q_state q \<longrightarrow> s = d)
    | Rsleep \<Rightarrow> qstep q k {#} q' k' {#} [] [] \<and> q_blocks q' = [] \<and> Qstarve \<in> q_state q' \<and> Qclosed \<notin> q_state q
    | _ \<Rightarrow> qstep q k {#} q' k' {#} [] [] \<and> q_blocks q' = [] \<and> Qclosed \<in> q_state q) (qread q k len)"
  using assms by (rule qread_qstep)

definition demoq :: queue where
  "demoq = (pipeq 100 {})\<lparr>q_blocks := [blk 0 [1, 2, 3], blk 1 [4]], q_last := Some 1, q_len := 14, q_dlen := 4\<rparr>"

lemma demoq_wf: "wf_queue demoq" "stream demoq = [1, 2, 3, 4]" "Qmsg \<notin> q_state demoq" "q_blocks demoq \<noteq> []" "Qclosed \<notin> q_state demoq"
  by (simp_all add: demoq_def wf_queue_def stream_def BALLOC_def) (simp add: blk_def)

theorem qread_spec_witness:
  "(\<exists>q' k'. qread (pipeq 100 {}) kst0 10 = Inr (Rsleep, q', k') \<and> wf_queue q' \<and> Qstarve \<in> q_state q')
   \<and> (\<exists>q' k'. qread demoq kst2 2 = Inr (Rok (2, [1, 2]), q', k') \<and> stream q' = [3, 4])"
proof -
  have "\<exists>q' k'. qread demoq kst2 2 = Inr (Rok (2, [1, 2]), q', k')"
    by (simp add: qread_def qread_take_def qwait_def qremove_def demoq_def unlink_def BLEN_def blk_def bget_def rdbytes_def bslice_def
      case_prod_unfold Let_def)
  then obtain q' k' where r: "qread demoq kst2 2 = Inr (Rok (2, [1, 2]), q', k')" by blast
  with qread_spec [OF demoq_wf(1), of kst2 2] have "\<exists>s. qstep demoq kst2 {#} q' k' {#} [] s \<and> s = [1, 2]"
    using demoq_wf(3) by auto
  then have "stream q' = [3, 4]" using demoq_wf(2) by (simp add: qstep_def)
  with r qread_spec [of "pipeq 100 {}" kst0 10] show ?thesis by (simp add: qread_def empty_ops)
qed

text \<open>C18: \<open>qbwrite\<close> on every branch. A closed queue gives \<open>q->err\<close> and releases the block; a full queue that does not block
  drops it and reports success; otherwise the block's bytes are appended, a starved reader is woken,
  and the writer goes on only with the queue below its limit, else it sleeps with \<open>Qflow\<close> set.\<close>

theorem qbwrite_spec:
  assumes "wf_queue q" "wf_block b" "\<not> q_bypass q"
  shows "post {} (\<lambda>(r, q', k').
     if Qclosed \<in> q_state q then r = Werr (q_err q) \<and> q' = q \<and> qstep q k {#bid b#} q' k' {#} [] []
     else if q_limit q \<le> q_len q \<and> q_noblock q then r = Wok (BLEN b) \<and> q' = q \<and> qstep q k {#bid b#} q' k' {#} [] []
     else qstep q k {#bid b#} q' k' {#} (bdata b) [] \<and> same_mode q q'
        \<and> (r = Wok (BLEN b) \<and> (q_noblock q \<or> q_len q' < q_limit q')
           \<or> r = Wblock (BLEN b) \<and> Qflow \<in> q_state q' \<and> q_limit q' \<le> q_len q')
        \<and> Qstarve \<notin> q_state q' \<and> (Qstarve \<in> q_state q \<longrightarrow> Wakeup_rr \<in> set (kev k'))) (qbwrite q k b)"
  using assms by (rule qbwrite_qstep)

theorem qbwrite_spec_witness:
  "\<exists>r q' k'. qbwrite (pipeq 2 {}) kst2 (blk 0 [1, 2, 3]) = Inr (r, q', k') \<and> stream q' = [1, 2, 3] \<and> Wakeup_rr \<in> set (kev k')"
proof -
  have b: "wf_block (blk 0 [1, 2, 3])" "bdata (blk 0 [1, 2, 3]) = [1, 2, 3]"
    by (simp_all add: blk_def wf_block_def bdata_def BLEN_def bslice_def)
  show ?thesis
    using post_value [OF qbwrite_spec [of "pipeq 2 {}" "blk 0 [1, 2, 3]" kst2]] b by (auto simp: qstep_def)
qed

text \<open>C19: \<open>qcopy\<close> gives a new block with the \<open>len\<close> bytes at offset \<open>off\<close> of the stream, or as many as there
  are, and leaves the queue alone.\<close>

theorem qcopy_spec:
  assumes "al_ok al" "wf_queue q"
  shows "post (oom al) (\<lambda>(nb, k'). wf_block nb \<and> bdata nb = take len (drop off (stream q)) \<and> moves k {#} k' {#bid nb#})
     (qcopy al q k len off)"
  using assms by (rule qcopy_post)

theorem qcopy_spec_witness:
  "\<exists>nb k'. qcopy bump demoq kst2 2 1 = Inr (nb, k') \<and> bdata nb = [2, 3]"
  using post_value [OF qcopy_spec [OF bump_ok(1) demoq_wf(1), of 2 1 kst2, unfolded bump_ok(2)]] by (auto simp: demoq_wf(2))

text \<open>C20: a write to a closed queue is lost silently: \<open>qwrite\<close> does not look at what \<open>qbwrite\<close> returns, so it
  reports all of its bytes as written although none reached the queue.\<close>

theorem qwrite_closed:
  assumes al: "al_ok al" and q: "wf_queue q" "\<not> q_bypass q" "Qclosed \<in> q_state q"
  shows "post (oom al) (\<lambda>(r, q', k'). r = Inr () \<and> q' = q \<and> qstep q k {#} q k' {#} [] []) (qwrite al q k p)"
proof (induction p arbitrary: k rule: measure_induct_rule [of length])
  case (less p)
  let ?n = "min (length p) Maxatomic"
  let ?P = "\<lambda>(r, q', k'). r = Inr () \<and> q' = q \<and> qstep q k {#} q k' {#} [] []"
  show ?case
    unfolding qwrite_unfold [of al q k p] Let_def
  proof (rule post_andthen [OF write_chunk [OF al q(1,2)]], clarify)
    fix r q2 k2
    assume "if Qclosed \<in> q_state q then r = Werr (q_err q) \<and> q2 = q \<and> qstep q k {#} q2 k2 {#} [] []
     else if q_limit q \<le> q_len q \<and> q_noblock q then r = Wok (length (take ?n p)) \<and> q2 = q \<and> qstep q k {#} q2 k2 {#} [] []
     else qstep q k {#} q2 k2 {#} (take ?n p) [] \<and> same_mode q q2 \<and> (r = Wok (length (take ?n p)) \<or> r = Wblock (length (take ?n p)))"
    with q(3) have r: "r = Werr (q_err q)" "q2 = q" and st: "qstep q k {#} q k2 {#} [] []"
      by auto
    have more: "post (oom al) ?P (qwrite al q k2 (drop ?n p))" if "length p - ?n > 0"
    proof -
      have "length (drop ?n p) < length p"
        using that by (simp add: Maxatomic_def)
      from less.IH [OF this, of k2] show ?thesis
        by (rule post_weaken) (use qstep_trans [OF st] in fastforce)+
    qed
    show "post (oom al) ?P (case r of
         Wblock _ \<Rightarrow> Inr (if length p - ?n > 0 \<and> Qmsg \<notin> q_state q2 then Inl (drop ?n p) else Inl [], q2, k2)
       | _ \<Rightarrow> if length p - ?n > 0 \<and> Qmsg \<notin> q_state q2 then qwrite al q2 k2 (drop ?n p) else Inr (Inr (), q2, k2))"
      unfolding r wres.case using st more by (cases "length p - ?n > 0 \<and> Qmsg \<notin> q_state q") (simp_all only: if_True if_False post_Inr prod.case simp_thms)
  qed
qed

theorem qwrite_closed_witness:
  "\<exists>k'. qwrite bump (fst (qclose (pipeq 100 {}) kst0)) kst0 [1, 2] = Inr (Inr (), fst (qclose (pipeq 100 {}) kst0), k')"
proof -
  let ?q = "fst (qclose (pipeq 100 {}) kst0)"
  have "wf_queue ?q" "\<not> q_bypass ?q" "Qclosed \<in> q_state ?q"
    by (simp_all add: qclose_def wf_queue_def)
  from post_value [OF qwrite_closed [OF bump_ok(1) this, of kst0 "[1, 2]", unfolded bump_ok(2)]] show ?thesis
    by auto
qed

text \<open>C21: a writer can be left asleep for ever. A coalescing queue filled to its limit by blocks without data has its writer
  asleep; the reader discards such blocks before it looks for data and then goes to sleep itself. The
  queue is empty, \<open>qnotfull\<close> holds, and nobody was woken.\<close>

theorem qread_writer_lost:
  assumes "wf_queue q" "q_blocks q = [b]" "BLEN b = 0" "\<not> bfree b" "Qcoalesce \<in> q_state q" "Qflow \<in> q_state q"
    "Qclosed \<notin> q_state q" "0 < q_limit q" "\<not> qnotfull q"
  shows "\<exists>q' k'. qread q k len = Inr (Rsleep, q', k') \<and> kev k' = kev k \<and> qnotfull q' \<and> Qflow \<in> q_state q' \<and> q_blocks q' = []"
proof -
  have "q_len q = int (BALLOC b)"
    using assms(1,2) by (simp add: wf_queue_def)
  then show ?thesis
    using assms by (simp add: qread_def qread_take_def qwait_def unlink_def qnotfull_def freeb_def)
qed

theorem qread_writer_lost_witness:
  "\<exists>q k q' k'. qbwrite (pipeq 5 {Qcoalesce}) kst2 (blk 0 []) = Inr (Wblock 0, q, k) \<and> \<not> qnotfull q
     \<and> qread q k 10 = Inr (Rsleep, q', k') \<and> kev k' = kev k \<and> qnotfull q'"
proof -
  let ?q = "(pipeq 5 {Qcoalesce})\<lparr>q_blocks := [blk 0 []], q_last := Some 0, q_len := 5, q_state := {Qflow, Qcoalesce}\<rparr>"
  let ?k = "event Wakeup_rr kst2"
  have w: "qbwrite (pipeq 5 {Qcoalesce}) kst2 (blk 0 []) = Inr (Wblock 0, ?q, ?k)"
    by (simp add: qbwrite_def link_blocks_def qbwrite_wait_def qnotfull_def unstarve_def Let_def BALLOC_def blk_def BLEN_def
        set_flag_def clear_flag_def insert_Diff_if)
  have q: "wf_queue ?q" "q_blocks ?q = [blk 0 []]" "BLEN (blk 0 []) = 0" "\<not> bfree (blk 0 [])" "Qcoalesce \<in> q_state ?q"
    "Qflow \<in> q_state ?q" "Qclosed \<notin> q_state ?q" "0 < q_limit ?q" "\<not> qnotfull ?q"
    by (simp_all add: wf_queue_def BALLOC_def blk_def wf_block_def BLEN_def qnotfull_def)
  from qread_writer_lost [OF q, of ?k 10] obtain q' k' where
    "qread ?q ?k 10 = Inr (Rsleep, q', k')" "kev k' = kev ?k" "qnotfull q'"
    by blast
  with w q(9) show ?thesis
    by blast
qed

text \<open>\<open>qconsume\<close> loses blocks: when the queue holds only blocks without data it takes them off, returns -1 and never
  releases them.\<close>

lemma qconsume_leaks:
  assumes "wf_queue q" "stream q = []" "q_blocks q \<noteq> []" "0 < len" "accounted k (h + owned (q_blocks q))"
  shows "\<exists>q'. qconsume q k len = Inr (None, q', k) \<and> q_blocks q' = [] \<and> \<not> accounted k (h + owned (q_blocks q'))"
proof -
  obtain r q' k' where c: "qconsume q k len = Inr (r, q', k')"
    using post_value [OF qconsume_qstep [OF assms(1), where k = k and len = len]] by auto
  note p = post_InrD [OF qconsume_qstep [OF assms(1), where k = k and len = len] c, simplified]
  have "r = None"
    using p assms(2,4) by (auto simp: qstep_def split: option.splits)
  with p have q': "q_blocks q' = []" "k' = k"
    by auto
  have "\<not> accounted k (h + owned (q_blocks q'))"
  proof
    assume "accounted k (h + owned (q_blocks q'))"
    then have "h + mset (freed k) = h + owned (q_blocks q) + mset (freed k)"
      using assms(5) q'(1) by (simp add: accounted_def)
    then show False
      using assms(3) by simp
  qed
  with c q' \<open>r = None\<close> show ?thesis
    by auto
qed

lemma qconsume_leaks_witness:
  "\<exists>q q'. q_blocks q = [blk 0 [], blk 1 []] \<and> qconsume q kst2 8 = Inr (None, q', kst2) \<and> q_blocks q' = []
     \<and> \<not> accounted kst2 (owned (q_blocks q'))"
proof -
  let ?q = "(pipeq 100 {})\<lparr>q_blocks := [blk 0 [], blk 1 []], q_last := Some 1, q_len := 10\<rparr>"
  have "wf_queue ?q" "stream ?q = []" "q_blocks ?q \<noteq> []" "0 < (8::nat)" "accounted kst2 ({#} + owned (q_blocks ?q))"
    using kst2_accounted [of "[]" "[]"] by (simp_all add: wf_queue_def stream_def BALLOC_def blk_def wf_block_def BLEN_def)
  from qconsume_leaks [OF this] obtain q' where "qconsume ?q kst2 8 = Inr (None, q', kst2)" "q_blocks q' = []"
    "\<not> accounted kst2 ({#} + owned (q_blocks q'))"
    by blast
  moreover have "q_blocks ?q = [blk 0 [], blk 1 []]"
    by simp
  ultimately show ?thesis
    unfolding add_0_left by blast
qed

end
