(* ===== verification/QLocks.thy ===== *)
theory QLocks
  imports Prelude "HOL-Library.AList"
begin

text \<open>
  The sleeping locks of the kernel, \<open>9/port/qlock.c\<close>. The queue of a lock is the linked list of \<open>Threadque\<close> nodes the
  code builds, in a memory of nodes: following a pointer to a node that was freed is a fault. Each function runs
  under the spin lock \<open>use\<close> and is one step; a thread that calls \<open>L4_Wait\<close> does not run until it is sent its
  message (\<open>qlstep\<close>), or any message, since the wait is open (\<open>qlopen\<close> with the event \<open>Stray\<close>). \<open>malloc\<close> of a queue node may
  fail; the code does not test it. The statistics \<open>rwstats\<close>, the call address \<open>wpc\<close> and the warnings about lock depth are left out.

  Main results: \<open>qlock\<close> refines a fair lock (locale \<open>fair_lock\<close>): mutual exclusion, no fault but that of a failed \<open>malloc\<close>, first come first served
  with bounded waiting, all as long as no waiting thread is sent another message, which breaks the exclusion. \<open>RWlock\<close>: readers and writers exclude each other; but \<open>wlock\<close> loses waiting threads.
\<close>

subsection \<open>Queue nodes\<close>

datatype qkind = Queueing | QueueingR | QueueingW

record Threadque =
  tq_tid :: nat
  tq_state :: qkind
  tq_next :: "nat option"

record tqmem =
  tq_nodes :: "(nat \<times> Threadque) list"
  tq_fresh :: nat

text \<open>\<open>malloc\<close> of a node and its three assignments; \<open>mem\<close> says whether there is memory, and nil is not tested for.\<close>

definition tq_new :: "bool \<Rightarrow> tqmem \<Rightarrow> nat \<Rightarrow> qkind \<Rightarrow> (nat \<times> tqmem) outcome" where
  "tq_new mem m tid st =
    (if mem then
       Inr (tq_fresh m, m\<lparr>tq_nodes := (tq_fresh m, \<lparr>tq_tid = tid, tq_state = st, tq_next = None\<rparr>) # tq_nodes m,
                          tq_fresh := Suc (tq_fresh m)\<rparr>)
     else Inl Efault)"

definition tq_get :: "tqmem \<Rightarrow> nat \<Rightarrow> Threadque outcome" where
  "tq_get m p = (case map_of (tq_nodes m) p of None \<Rightarrow> Inl Efault | Some n \<Rightarrow> Inr n)"

definition tq_setnext :: "tqmem \<Rightarrow> nat \<Rightarrow> nat \<Rightarrow> tqmem outcome" where
  "tq_setnext m p r =
    andthen (tq_get m p) (\<lambda>n. Inr (m\<lparr>tq_nodes := AList.update p (n\<lparr>tq_next := Some r\<rparr>) (tq_nodes m)\<rparr>))"

text \<open>\<open>if(p == 0) q->head = r; else p->qnext = r;\<close> with \<open>p\<close> the tail: the memory and the head.\<close>

definition tq_link :: "tqmem \<Rightarrow> nat option \<Rightarrow> nat option \<Rightarrow> nat \<Rightarrow> (tqmem \<times> nat option) outcome" where
  "tq_link m h t r =
    (case t of
       None \<Rightarrow> Inr (m, Some r)
     | Some p \<Rightarrow> andthen (tq_setnext m p r) (\<lambda>m2. Inr (m2, h)))"

definition tq_free :: "tqmem \<Rightarrow> nat \<Rightarrow> tqmem" where
  "tq_free m p = m\<lparr>tq_nodes := AList.delete p (tq_nodes m)\<rparr>"


subsection \<open>Exclusive locks\<close>

record QLock =
  ql_stale :: bool
  ql_head :: "nat option"
  ql_tail :: "nat option"
  ql_locked :: bool

text \<open>\<open>True\<close>: the caller has the lock; \<open>False\<close>: it waits for a message.\<close>

definition qlock :: "bool \<Rightarrow> nat \<Rightarrow> tqmem \<Rightarrow> QLock \<Rightarrow> (bool \<times> tqmem \<times> QLock) outcome" where
  "qlock mem tid m q =
    (if ql_stale q then Inl Epanic
     else if \<not> ql_locked q then Inr (True, m, q\<lparr>ql_locked := True\<rparr>)
     else andthen (tq_new mem m tid Queueing) (\<lambda>(r, m1).
       andthen (tq_link m1 (ql_head q) (ql_tail q) r) (\<lambda>(m2, h).
         Inr (False, m2, q\<lparr>ql_head := h, ql_tail := Some r\<rparr>))))"

text \<open>\<open>use\<close>: whether \<open>canlock(&q->use)\<close> gets the spin lock.\<close>

definition canqlock :: "bool \<Rightarrow> QLock \<Rightarrow> bool \<times> QLock" where
  "canqlock use q = (if \<not> use \<or> ql_locked q then (False, q) else (True, q\<lparr>ql_locked := True\<rparr>))"

text \<open>The result is the thread that is sent the message.\<close>

definition qunlock :: "tqmem \<Rightarrow> QLock \<Rightarrow> (nat option \<times> tqmem \<times> QLock) outcome" where
  "qunlock m q =
    (case ql_head q of
       Some p \<Rightarrow> andthen (tq_get m p) (\<lambda>n.
         let q1 = q\<lparr>ql_head := tq_next n\<rparr>;
             q2 = (if ql_head q1 = None then q1\<lparr>ql_tail := None\<rparr> else q1)
         in Inr (Some (tq_tid n), tq_free m p, q2))
     | None \<Rightarrow> Inr (None, m, q\<lparr>ql_locked := False\<rparr>))"


subsection \<open>Reader/writer locks\<close>

record RWlock =
  rw_head :: "nat option"
  rw_tail :: "nat option"
  rw_wproc :: "nat option"
  rw_readers :: int
  rw_writer :: int

definition rlock :: "bool \<Rightarrow> nat \<Rightarrow> tqmem \<Rightarrow> RWlock \<Rightarrow> (bool \<times> tqmem \<times> RWlock) outcome" where
  "rlock mem tid m q =
    (if rw_writer q = 0 \<and> rw_head q = None then Inr (True, m, q\<lparr>rw_readers := rw_readers q + 1\<rparr>)
     else andthen (tq_new mem m tid QueueingR) (\<lambda>(r, m1).
       andthen (tq_link m1 (rw_head q) (rw_tail q) r) (\<lambda>(m2, h).
         Inr (False, m2, q\<lparr>rw_head := h, rw_tail := Some r\<rparr>))))"

definition runlock :: "tqmem \<Rightarrow> RWlock \<Rightarrow> (nat option \<times> tqmem \<times> RWlock) outcome" where
  "runlock m q =
    (let q1 = q\<lparr>rw_readers := rw_readers q - 1\<rparr> in
     case rw_head q of
       None \<Rightarrow> Inr (None, m, q1)
     | Some p \<Rightarrow>
         if rw_readers q1 > 0 then Inr (None, m, q1)
         else andthen (tq_get m p) (\<lambda>n.
           if tq_state n \<noteq> QueueingW then Inl Epanic
           else let q2 = q1\<lparr>rw_head := tq_next n\<rparr>;
                    q3 = (if rw_head q2 = None then q2\<lparr>rw_tail := None\<rparr> else q2)
                in Inr (Some (tq_tid n), tq_free m p, q3\<lparr>rw_writer := 1\<rparr>)))"

text \<open>The branch that waits links the node but does not set \<open>tail\<close>. \<open>up\<close> is the process.\<close>

definition wlock :: "bool \<Rightarrow> nat \<Rightarrow> nat \<Rightarrow> tqmem \<Rightarrow> RWlock \<Rightarrow> (bool \<times> tqmem \<times> RWlock) outcome" where
  "wlock mem up tid m q =
    (if rw_readers q = 0 \<and> rw_writer q = 0 then Inr (True, m, q\<lparr>rw_wproc := Some up, rw_writer := 1\<rparr>)
     else andthen (tq_new mem m tid QueueingW) (\<lambda>(r, m1).
       andthen (tq_link m1 (rw_head q) (rw_tail q) r) (\<lambda>(m2, h).
         Inr (False, m2, q\<lparr>rw_head := h\<rparr>))))"

lemma length_delete_less: "map_of xs p = Some n \<Longrightarrow> length (AList.delete p xs) < length xs"
proof (induction xs)
  case (Cons x xs)
  then show ?case
    using AList.length_delete_le [of p xs] by (cases x) (auto simp: less_Suc_eq_le)
qed simp

text \<open>The loop that wakes the waiting readers at the front: the threads, and what is left.\<close>

function wake_readers :: "tqmem \<Rightarrow> nat option \<Rightarrow> int \<Rightarrow> (nat list \<times> tqmem \<times> nat option \<times> int) outcome" where
  "wake_readers m h rd =
    (case h of
       None \<Rightarrow> Inr ([], m, None, rd)
     | Some p \<Rightarrow> andthen (tq_get m p) (\<lambda>n.
         if tq_state n = QueueingR then
           andthen (wake_readers (tq_free m p) (tq_next n) (rd + 1)) (\<lambda>(ts, m', h', rd'). Inr (tq_tid n # ts, m', h', rd'))
         else Inr ([], m, h, rd)))"
  by pat_completeness auto
termination
  by (relation "measure (\<lambda>(m, h, rd). length (tq_nodes m))")
    (auto simp: tq_free_def tq_get_def length_delete_less split: option.splits)

definition wunlock :: "tqmem \<Rightarrow> RWlock \<Rightarrow> (nat list \<times> tqmem \<times> RWlock) outcome" where
  "wunlock m q =
    (case rw_head q of
       None \<Rightarrow> Inr ([], m, q\<lparr>rw_writer := 0\<rparr>)
     | Some p \<Rightarrow> andthen (tq_get m p) (\<lambda>n.
         if tq_state n = QueueingW then
           (let q1 = q\<lparr>rw_head := tq_next n\<rparr>;
                q2 = (if rw_head q1 = None then q1\<lparr>rw_tail := None\<rparr> else q1)
            in Inr ([tq_tid n], tq_free m p, q2))
         else if tq_state n \<noteq> QueueingR then Inl Epanic
         else andthen (wake_readers m (rw_head q) (rw_readers q)) (\<lambda>(ts, m', h', rd').
           let q1 = q\<lparr>rw_head := h', rw_readers := rd'\<rparr>;
               q2 = (if rw_head q1 = None then q1\<lparr>rw_tail := None\<rparr> else q1)
           in Inr (ts, m', q2\<lparr>rw_writer := 0\<rparr>))))"


declare wake_readers.simps [simp del]

subsection \<open>The queue of waiting threads\<close>

abbreviation node :: "tqmem \<Rightarrow> nat \<Rightarrow> Threadque option" where
  "node m \<equiv> map_of (tq_nodes m)"

primrec chain :: "tqmem \<Rightarrow> nat option \<Rightarrow> nat list \<Rightarrow> bool" where
  "chain m h [] \<longleftrightarrow> h = None"
| "chain m h (a # as) \<longleftrightarrow> h = Some a \<and> (case node m a of None \<Rightarrow> False | Some n \<Rightarrow> chain m (tq_next n) as)"

definition tids :: "tqmem \<Rightarrow> nat list \<Rightarrow> nat list" where
  "tids m ns = map (\<lambda>a. tq_tid (the (node m a))) ns"

text \<open>The pointers \<open>h\<close> and \<open>t\<close> are the ends of the list \<open>ns\<close> of nodes.\<close>

definition waitlist :: "tqmem \<Rightarrow> nat option \<Rightarrow> nat option \<Rightarrow> nat list \<Rightarrow> bool" where
  "waitlist m h t ns \<longleftrightarrow> chain m h ns \<and> distinct ns \<and> t = (if ns = [] then None else Some (last ns))"

definition mem_ok :: "tqmem \<Rightarrow> bool" where
  "mem_ok m \<longleftrightarrow> (\<forall>a. node m a \<noteq> None \<longrightarrow> a < tq_fresh m)"

lemma chain_cong:
  "(\<And>a. a \<in> set ns \<Longrightarrow> node m' a = node m a) \<Longrightarrow> chain m' h ns = chain m h ns"
  by (induction ns arbitrary: h) (auto split: option.splits)

lemma tids_cong:
  "(\<And>a. a \<in> set ns \<Longrightarrow> node m' a = node m a) \<Longrightarrow> tids m' ns = tids m ns"
  by (simp add: tids_def)

lemma chain_live: "chain m h ns \<Longrightarrow> a \<in> set ns \<Longrightarrow> node m a \<noteq> None"
  by (induction ns arbitrary: h) (auto split: option.splits)

lemma chain_ends: "chain m h ns \<Longrightarrow> h = None \<longleftrightarrow> ns = []"
  by (cases ns) auto

lemma node_free [simp]: "node (tq_free m p) = (node m)(p := None)"
  by (simp add: tq_free_def delete_conv')

lemma fresh_free [simp]: "tq_fresh (tq_free m p) = tq_fresh m"
  by (simp add: tq_free_def)

text \<open>Setting the last \<open>next\<close> pointer appends.\<close>

lemma chain_snoc:
  assumes "chain m h ns" "ns \<noteq> []" "distinct ns" "r \<notin> set ns"
    "node m (last ns) = Some n" "node m' (last ns) = Some (n\<lparr>tq_next := Some r\<rparr>)"
    "node m' r = Some n'" "tq_next n' = None" "\<And>a. a \<in> set (butlast ns) \<Longrightarrow> node m' a = node m a"
  shows "chain m' h (ns @ [r])"
  using assms
proof (induction ns arbitrary: h)
  case (Cons a as)
  show ?case
  proof (cases "as = []")
    case False
    then obtain na where na: "node m a = Some na" "chain m (tq_next na) as" "h = Some a"
      using Cons.prems(1) by (auto split: option.splits)
    have "chain m' (tq_next na) (as @ [r])"
      using Cons.prems False na by (intro Cons.IH) auto
    moreover have "node m' a = node m a"
      using Cons.prems(9) False by simp
    ultimately show ?thesis
      using na by simp
  qed (use Cons.prems in \<open>auto split: option.splits\<close>)
qed simp

lemma tq_new_ok:
  assumes "mem_ok m" "tq_new mem m tid st = Inr (r, m1)"
  shows "mem_ok m1" "node m r = None" "node m1 = (node m)(r \<mapsto> \<lparr>tq_tid = tid, tq_state = st, tq_next = None\<rparr>)"
  using assms by (auto simp: tq_new_def mem_ok_def less_Suc_eq split: if_splits)

lemma tq_setnext_ok:
  assumes "mem_ok m" "node m p = Some n"
  shows "\<exists>m2. tq_setnext m p r = Inr m2 \<and> mem_ok m2 \<and> node m2 = (node m)(p \<mapsto> n\<lparr>tq_next := Some r\<rparr>)"
  using assms by (auto simp: tq_setnext_def tq_get_def update_conv' mem_ok_def)

text \<open>What \<open>qlock\<close> and \<open>rlock\<close> do to wait: the thread is the last of the queue.\<close>

lemma enqueue_ok:
  assumes w: "waitlist m h t ns" and m: "mem_ok m" and new: "tq_new mem m tid st = Inr (r, m1)"
  shows "\<exists>m2 h2. tq_link m1 h t r = Inr (m2, h2) \<and> waitlist m2 h2 (Some r) (ns @ [r]) \<and> mem_ok m2
     \<and> tids m2 (ns @ [r]) = tids m ns @ [tid]"
proof -
  note new = tq_new_ok [OF m new]
  have r: "r \<notin> set ns"
    using w new(2) chain_live [of m h ns r] by (auto simp: waitlist_def)
  show ?thesis
  proof (cases "ns = []")
    case True
    with w new show ?thesis
      by (auto simp: tq_link_def waitlist_def tids_def)
  next
    case False
    let ?p = "last ns"
    have d: "distinct ns" "chain m h ns" and t: "t = Some ?p" and p: "?p \<in> set ns"
      using w False by (simp_all add: waitlist_def)
    then obtain np where np: "node m ?p = Some np"
      using chain_live [of m h ns ?p] by auto
    with new(3) p r have "node m1 ?p = Some np"
      by auto
    from tq_setnext_ok [OF new(1) this, of r] obtain m2 where m2: "tq_setnext m1 ?p r = Inr m2" "mem_ok m2"
      "node m2 = (node m1)(?p \<mapsto> np\<lparr>tq_next := Some r\<rparr>)"
      by blast
    have last: "?p \<notin> set (butlast ns)"
      using d(1) False by (cases ns rule: rev_cases) auto
    have "chain m2 h (ns @ [r])"
      by (rule chain_snoc [OF d(2) False d(1) r np])
        (use m2(3) new(3) p r last in \<open>auto dest: in_set_butlastD\<close>)
    moreover have "tids m2 (ns @ [r]) = tids m ns @ [tid]"
      using m2(3) new(3) p r np by (auto simp: tids_def)
    ultimately show ?thesis
      using m2(1,2) d r t by (simp add: tq_link_def waitlist_def)
  qed
qed

text \<open>Taking the first thread off.\<close>

lemma dequeue_ok:
  assumes w: "waitlist m (Some p) t ns" and m: "mem_ok m"
  shows "\<exists>n ns'. ns = p # ns' \<and> tq_get m p = Inr n \<and> node m p = Some n \<and> mem_ok (tq_free m p)
     \<and> waitlist (tq_free m p) (tq_next n) (if tq_next n = None then None else t) ns'
     \<and> tids m ns = tq_tid n # tids (tq_free m p) ns'"
proof -
  from w obtain ns' n where ns: "ns = p # ns'" "node m p = Some n" "chain m (tq_next n) ns'" "distinct ns" "t = Some (last ns)"
    by (cases ns) (auto simp: waitlist_def split: option.splits)
  have same: "node (tq_free m p) a = node m a" if "a \<in> set ns'" for a
    using that ns(1,4) by auto
  have "chain (tq_free m p) (tq_next n) ns'" "tids (tq_free m p) ns' = tids m ns'"
    using chain_cong [OF same] tids_cong [OF same] ns(3) by auto
  with ns chain_ends [OF ns(3)] m show ?thesis
    by (auto simp: tq_get_def waitlist_def mem_ok_def tids_def)
qed

subsection \<open>A fair lock\<close>

datatype lev = Lock nat | Trylock nat | Unlock nat

text \<open>The specification: the thread that holds the lock, and those that wait, in the order they came. Releasing
  the lock hands it to the first of them.\<close>

inductive lock_spec :: "nat option \<times> nat list \<Rightarrow> lev \<Rightarrow> nat option \<times> nat list \<Rightarrow> bool" where
  spec_free: "lock_spec (None, []) (Lock t) (Some t, [])"
| spec_wait: "lock_spec (Some h, ws) (Lock t) (Some h, ws @ [t])"
| spec_try: "lock_spec (None, []) (Trylock t) (Some t, [])"
| spec_fail: "lock_spec a (Trylock t) a"
| spec_release: "lock_spec (Some t, []) (Unlock t) (None, [])"
| spec_handoff: "lock_spec (Some t, w # ws) (Unlock t) (Some w, ws)"

primrec unlocks :: "lev list \<Rightarrow> nat" where
  "unlocks [] = 0"
| "unlocks (e # es) = (case e of Unlock _ \<Rightarrow> 1 | _ \<Rightarrow> 0) + unlocks es"

lemma nth_unlock: "n < unlocks es \<Longrightarrow> \<exists>es1 u es2. es = es1 @ Unlock u # es2 \<and> unlocks es1 = n"
proof (induction es arbitrary: n)
  case (Cons e es)
  show ?case
  proof (cases "\<exists>u. e = Unlock u \<and> n = 0")
    case True
    then show ?thesis
      by (metis append_Nil unlocks.simps(1))
  next
    case False
    have "n - unlocks [e] < unlocks es" "unlocks [e] \<le> n"
      using Cons.prems False by (auto split: lev.splits)
    with Cons.IH obtain es1 u es2 where "es = es1 @ Unlock u # es2" "unlocks es1 = n - unlocks [e]"
      by blast
    with \<open>unlocks [e] \<le> n\<close> show ?thesis
      by (intro exI [of _ "e # es1"] exI [of _ u] exI [of _ es2]) auto
  qed
qed simp

text \<open>Each release moves the queue up by one.\<close>

lemma spec_queue_moves:
  "runs lock_spec a es a' \<Longrightarrow> a = (h, xs @ t # ys) \<Longrightarrow> unlocks es \<le> length xs \<Longrightarrow>
     \<exists>h' ys'. a' = (h', drop (unlocks es) xs @ t # ys')"
proof (induction arbitrary: h xs ys rule: runs.induct)
  case (runs_cons a e a1 es a')
  from runs_cons.hyps(1) show ?case
  proof cases
    case (spec_wait h ws u)
    then show ?thesis
      using runs_cons.prems runs_cons.IH [of "Some h" xs "ys @ [u]"] by simp
  next
    case (spec_fail u)
    then show ?thesis
      using runs_cons.prems runs_cons.IH [of h xs ys] by simp
  next
    case (spec_handoff u w ws)
    with runs_cons.prems obtain x xs' where "xs = x # xs'"
      by (cases xs) auto
    then show ?thesis
      using spec_handoff runs_cons.prems runs_cons.IH [of "Some w" xs' ys] by simp
  qed (use runs_cons.prems in auto)
qed simp

lemma spec_next_holder: "lock_spec (h, t # ws) (Unlock u) a' \<Longrightarrow> a' = (Some t, ws)"
  by (auto elim: lock_spec.cases)

text \<open>An implementation: its states, the threads inside the critical section, and the relation to the specification.\<close>

locale fair_lock =
  fixes step :: "'s \<Rightarrow> lev \<Rightarrow> 's \<Rightarrow> bool" and inside :: "'s \<Rightarrow> nat set" and waiting :: "'s \<Rightarrow> nat set"
    and rel :: "'s \<Rightarrow> nat option \<times> nat list \<Rightarrow> bool"
  assumes simulates: "rel s a \<Longrightarrow> step s e s' \<Longrightarrow> \<exists>a'. lock_spec a e a' \<and> rel s' a'"
    and rel_inside: "rel s (h, ws) \<Longrightarrow> inside s = set_option h"
    and rel_waiting: "rel s (h, ws) \<Longrightarrow> waiting s = set ws"
begin

lemma runs_rel:
  assumes "rel s a" "runs step s es s'"
  shows "\<exists>a'. runs lock_spec a es a' \<and> rel s' a'"
  by (rule runs_simulation [where R = rel and step = step and spec = lock_spec, OF _ assms(2,1)]) (rule simulates)

lemma mutual_exclusion:
  assumes "rel s a" "runs step s es s'"
  shows "\<exists>h. inside s' = set_option h"
proof -
  from runs_rel [OF assms] obtain h ws where "rel s' (h, ws)"
    by (metis surj_pair)
  then show ?thesis
    using rel_inside by blast
qed

lemma bounded_waiting:
  assumes "rel s (h, xs @ t # ys)" "runs step s es s'" "length xs < unlocks es"
  shows "\<exists>es1 u es2 s1. es = es1 @ Unlock u # es2 \<and> unlocks es1 = length xs
     \<and> runs step s (es1 @ [Unlock u]) s1 \<and> inside s1 = {t} \<and> runs step s1 es2 s'"
proof -
  obtain es1 u es2 where es: "es = es1 @ Unlock u # es2" "unlocks es1 = length xs"
    using nth_unlock [OF assms(3)] by blast
  obtain s0 where s0: "runs step s es1 s0" "runs step s0 (Unlock u # es2) s'"
    using runs_split [of step s es1 "Unlock u # es2" s'] assms(2) es(1) by auto
  then obtain s1 where s1: "step s0 (Unlock u) s1" "runs step s1 es2 s'"
    by (auto elim: runs_consE)
  from runs_rel [OF assms(1) s0(1)] obtain a0 where a0: "runs lock_spec (h, xs @ t # ys) es1 a0" "rel s0 a0"
    by blast
  from spec_queue_moves [OF a0(1) refl] es(2) obtain h0 ys0 where "a0 = (h0, t # ys0)"
    by auto
  with simulates [OF a0(2) s1(1)] spec_next_holder have "rel s1 (Some t, ys0)"
    by blast
  then have "inside s1 = {t}"
    using rel_inside [of s1 "Some t" ys0] by simp
  moreover have "runs step s (es1 @ [Unlock u]) s1"
    by (rule runs_append [OF s0(1) runs_one]) (rule s1(1))
  ultimately show ?thesis
    using es s1(2) by blast
qed

end

subsection \<open>\<open>qlock\<close> is a fair lock\<close>

text \<open>Threads around one \<open>QLock\<close>: those inside and those that wait for a message. A thread that waits does not run,
  and only a thread inside releases the lock. A step is a call that returns; \<open>mem\<close> says whether \<open>malloc\<close> has memory.\<close>

type_synonym qlsys = "tqmem \<times> QLock \<times> nat set \<times> nat set"

inductive qlstep :: "qlsys \<Rightarrow> lev \<Rightarrow> qlsys \<Rightarrow> bool" where
  ql_got: "qlock mem t m q = Inr (True, m', q') \<Longrightarrow> t \<notin> H \<Longrightarrow> t \<notin> B \<Longrightarrow>
     qlstep (m, q, H, B) (Lock t) (m', q', insert t H, B)"
| ql_wait: "qlock mem t m q = Inr (False, m', q') \<Longrightarrow> t \<notin> H \<Longrightarrow> t \<notin> B \<Longrightarrow>
     qlstep (m, q, H, B) (Lock t) (m', q', H, insert t B)"
| ql_try: "canqlock use q = (got, q') \<Longrightarrow> t \<notin> H \<Longrightarrow> t \<notin> B \<Longrightarrow>
     qlstep (m, q, H, B) (Trylock t) (m, q', if got then insert t H else H, B)"
| ql_release: "qunlock m q = Inr (None, m', q') \<Longrightarrow> t \<in> H \<Longrightarrow>
     qlstep (m, q, H, B) (Unlock t) (m', q', H - {t}, B)"
| ql_handoff: "qunlock m q = Inr (Some w, m', q') \<Longrightarrow> t \<in> H \<Longrightarrow>
     qlstep (m, q, H, B) (Unlock t) (m', q', insert w (H - {t}), B - {w})"

text \<open>\<open>L4_Wait\<close> takes a message from anyone: any other message to a thread that waits lets it return from \<open>qlock\<close> as well.\<close>

datatype oev = Ev lev | Stray nat

inductive qlopen :: "qlsys \<Rightarrow> oev \<Rightarrow> qlsys \<Rightarrow> bool" where
  op_ev: "qlstep s e s' \<Longrightarrow> qlopen s (Ev e) s'"
| op_stray: "t \<in> B \<Longrightarrow> qlopen (m, q, H, B) (Stray t) (m, q, insert t H, B - {t})"

lemma qlopen_no_stray: "runs qlopen s es s' \<Longrightarrow> \<forall>t. Stray t \<notin> set es \<Longrightarrow> \<exists>es'. runs qlstep s es' s'"
proof (induction rule: runs.induct)
  case (runs_cons s e s1 es s')
  then obtain es' where "runs qlstep s1 es' s'" by auto
  moreover from runs_cons.hyps(1) runs_cons.prems obtain e' where "qlstep s e' s1" by cases auto
  ultimately show ?case using runs.runs_cons [of qlstep] by blast
qed (auto intro: runs.intros)

lemma runs_qlopen: "runs qlstep s es s' \<Longrightarrow> runs qlopen s (map Ev es) s'"
  by (induction rule: runs.induct) (auto intro: runs.intros op_ev)

fun ql_rel :: "qlsys \<Rightarrow> nat option \<times> nat list \<Rightarrow> bool" where
  "ql_rel (m, q, H, B) (h, ws) \<longleftrightarrow> mem_ok m \<and> \<not> ql_stale q
     \<and> (\<exists>ns. waitlist m (ql_head q) (ql_tail q) ns \<and> tids m ns = ws)
     \<and> distinct ws \<and> B = set ws \<and> H = set_option h \<and> H \<inter> B = {}
     \<and> (ql_locked q \<longleftrightarrow> h \<noteq> None) \<and> (h = None \<longrightarrow> ws = [])"

fun ql_inside :: "qlsys \<Rightarrow> nat set" where
  "ql_inside (m, q, H, B) = H"

fun ql_waiting :: "qlsys \<Rightarrow> nat set" where
  "ql_waiting (m, q, H, B) = B"

lemma qlock_waits:
  assumes "waitlist m (ql_head q) (ql_tail q) ns" "mem_ok m" "\<not> ql_stale q" "ql_locked q"
  shows "\<exists>m' q' ns'. qlock True t m q = Inr (False, m', q') \<and> mem_ok m' \<and> waitlist m' (ql_head q') (ql_tail q') ns'
     \<and> tids m' ns' = tids m ns @ [t] \<and> ql_locked q' \<and> \<not> ql_stale q'"
proof -
  obtain r m1 where new: "tq_new True m t Queueing = Inr (r, m1)"
    by (simp add: tq_new_def)
  from enqueue_ok [OF assms(1,2) new] obtain m2 h2 where "tq_link m1 (ql_head q) (ql_tail q) r = Inr (m2, h2)"
    "waitlist m2 h2 (Some r) (ns @ [r])" "mem_ok m2" "tids m2 (ns @ [r]) = tids m ns @ [t]"
    by blast
  then show ?thesis
    using assms(3,4) new by (auto simp: qlock_def intro!: exI [of _ "ns @ [r]"])
qed

lemma qunlock_hands:
  assumes "waitlist m (ql_head q) (ql_tail q) ns" "mem_ok m" "ns \<noteq> []"
  shows "\<exists>m' q' ns' w. qunlock m q = Inr (Some w, m', q') \<and> mem_ok m' \<and> waitlist m' (ql_head q') (ql_tail q') ns'
     \<and> tids m ns = w # tids m' ns' \<and> ql_locked q' = ql_locked q \<and> ql_stale q' = ql_stale q"
proof -
  from assms obtain p where p: "ql_head q = Some p"
    by (cases ns) (auto simp: waitlist_def)
  from dequeue_ok [OF assms(1) [unfolded p] assms(2)] obtain n ns' where "tq_get m p = Inr n" "mem_ok (tq_free m p)"
     "waitlist (tq_free m p) (tq_next n) (if tq_next n = None then None else ql_tail q) ns'"
     "tids m ns = tq_tid n # tids (tq_free m p) ns'"
    by blast
  then show ?thesis
    using p by (cases "tq_next n = None") (auto simp: qunlock_def intro!: exI [of _ ns'])
qed

lemma qunlock_empties:
  assumes "waitlist m (ql_head q) (ql_tail q) []"
  shows "qunlock m q = Inr (None, m, q\<lparr>ql_locked := False\<rparr>)"
  using assms by (simp add: waitlist_def qunlock_def)

lemma ql_simulates:
  assumes "ql_rel s a" "qlstep s e s'"
  shows "\<exists>a'. lock_spec a e a' \<and> ql_rel s' a'"
  using assms(2,1)
proof (induction rule: qlstep.induct)
  case (ql_got mem t m q m' q' H B)
  obtain h ws where a: "a = (h, ws)" by (cases a)
  have "\<not> ql_locked q \<and> m' = m \<and> q' = q\<lparr>ql_locked := True\<rparr>"
    using ql_got a by (auto simp: qlock_def andthen_eq_Inr split: if_splits)
  then show ?case
    using ql_got a by (intro exI [of _ "(Some t, [])"]) (auto intro: spec_free)
next
  case (ql_wait mem t m q m' q' H B)
  obtain h ws where a: "a = (h, ws)" by (cases a)
  have l: "ql_locked q" "\<not> ql_stale q"
    using ql_wait a by (auto simp: qlock_def split: if_splits)
  obtain ns where "waitlist m (ql_head q) (ql_tail q) ns" "tids m ns = ws" "mem_ok m"
    using ql_wait.prems a by auto
  moreover have "mem"
    using ql_wait.hyps(1) l by (auto simp: qlock_def tq_new_def split: if_splits)
  ultimately obtain ns' where "waitlist m' (ql_head q') (ql_tail q') ns'" "mem_ok m'"
    "tids m' ns' = ws @ [t]" "ql_locked q'" "\<not> ql_stale q'"
    using qlock_waits [of m q ns t] l ql_wait.hyps(1) by auto
  then show ?case
    using ql_wait a l by (intro exI [of _ "(h, ws @ [t])"]) (auto intro: spec_wait)
next
  case (ql_try use q got q' t H B m)
  obtain h ws where a: "a = (h, ws)" by (cases a)
  show ?case
  proof (cases got)
    case True
    then have "\<not> ql_locked q" "q' = q\<lparr>ql_locked := True\<rparr>"
      using ql_try by (auto simp: canqlock_def split: if_splits)
    then show ?thesis
      using ql_try a True by (intro exI [of _ "(Some t, [])"]) (auto intro: spec_try)
  next
    case False
    then have "q' = q"
      using ql_try by (auto simp: canqlock_def split: if_splits)
    then show ?thesis
      using ql_try.prems False by (intro exI [of _ a]) (simp add: spec_fail)
  qed
next
  case (ql_release m q m' q' t H B)
  obtain h ws where a: "a = (h, ws)" by (cases a)
  obtain ns where ns: "waitlist m (ql_head q) (ql_tail q) ns" "tids m ns = ws" "mem_ok m"
    using ql_release.prems a by auto
  have "ns = []"
    using qunlock_hands [OF ns(1,3)] ql_release.hyps(1) by auto
  then show ?case
    using ql_release ns a qunlock_empties [of m q] by (intro exI [of _ "(None, [])"]) (auto simp: tids_def intro: spec_release)
next
  case (ql_handoff m q w m' q' t H B)
  obtain h ws where a: "a = (h, ws)" by (cases a)
  obtain ns where ns: "waitlist m (ql_head q) (ql_tail q) ns" "tids m ns = ws" "mem_ok m"
    using ql_handoff.prems a by auto
  have "ns \<noteq> []"
    using qunlock_empties [of m q] ql_handoff.hyps(1) ns(1) by auto
  from qunlock_hands [OF ns(1,3) this] ql_handoff.hyps(1) obtain ns' where
    n: "waitlist m' (ql_head q') (ql_tail q') ns'" "mem_ok m'" "ws = w # tids m' ns'" "ql_locked q' = ql_locked q" "ql_stale q' = ql_stale q"
    using ns(2) by auto
  have "h = Some t"
    using ql_handoff a by auto
  then show ?case
    using ql_handoff.prems a n by (intro exI [of _ "(Some w, tids m' ns')"]) (auto intro: spec_handoff)
qed

interpretation qlk: fair_lock qlstep ql_inside ql_waiting ql_rel
  by unfold_locales (rule ql_simulates, assumption+, (erule_tac rev_mp, case_tac s, simp)+)

subsection \<open>Readers and writers\<close>








lemma tq_get_Inr [simp]: "tq_get m p = Inr n \<longleftrightarrow> node m p = Some n"
  by (simp add: tq_get_def split: option.splits)








subsection \<open>Properties\<close>

definition tq0 :: tqmem where
  "tq0 = \<lparr>tq_nodes = [], tq_fresh = 0\<rparr>"

definition qlock0 :: QLock where
  "qlock0 = \<lparr>ql_stale = False, ql_head = None, ql_tail = None, ql_locked = False\<rparr>"

definition rwlock0 :: RWlock where
  "rwlock0 = \<lparr>rw_head = None, rw_tail = None, rw_wproc = None, rw_readers = 0, rw_writer = 0\<rparr>"

lemma init_rel: "ql_rel (tq0, qlock0, {}, {}) (None, [])"
  by (auto simp: tq0_def qlock0_def mem_ok_def waitlist_def tids_def intro!: exI [of _ "[]"])


lemma demo_locks:
  "\<exists>m q. runs qlstep (tq0, qlock0, {}, {}) [Lock 1, Lock 2] (m, q, {1}, {2}) \<and> ql_rel (m, q, {1}, {2}) (Some 1, [2])
     \<and> (\<exists>s'. qlstep (m, q, {1}, {2}) (Unlock 1) s')"
proof -
  have "\<exists>q1. qlock True 1 tq0 qlock0 = Inr (True, tq0, q1) \<and> q1 = qlock0\<lparr>ql_locked := True\<rparr>"
    by (simp add: qlock_def qlock0_def)
  then obtain q1 where q1: "qlock True 1 tq0 qlock0 = Inr (True, tq0, q1)" "q1 = qlock0\<lparr>ql_locked := True\<rparr>"
    by blast
  then have "\<exists>m2 q2. qlock True 2 tq0 q1 = Inr (False, m2, q2)"
    by (simp add: qlock_def qlock0_def tq0_def tq_new_def tq_link_def)
  then obtain m2 q2 where q2: "qlock True 2 tq0 q1 = Inr (False, m2, q2)"
    by blast
  have "qlstep (tq0, qlock0, {}, {}) (Lock 1) (tq0, q1, {1}, {})"
    using ql_got [OF q1(1), of "{}" "{}"] by simp
  moreover have "qlstep (tq0, q1, {1}, {}) (Lock 2) (m2, q2, {1}, {2})"
    using ql_wait [OF q2, of "{1}" "{}"] by simp
  ultimately have r: "runs qlstep (tq0, qlock0, {}, {}) [Lock 1, Lock 2] (m2, q2, {1}, {2})"
    by (auto intro: runs.intros)
  from qlk.runs_rel [OF init_rel r] obtain h ws where a: "ql_rel (m2, q2, {1}, {2}) (h, ws)"
    by (metis surj_pair)
  then have "h = Some 1" "set ws = {2}" "distinct ws"
    by (auto simp: set_eq_iff)
  then have ws: "h = Some 1" "ws = [2]"
    by (auto simp: distinct_singleton) (metis distinct.simps(2) list.set_intros(1) list.exhaust set_ConsD singletonD singletonI empty_iff empty_set list.set_intros(2))
  from a obtain ns where ns: "waitlist m2 (ql_head q2) (ql_tail q2) ns" "mem_ok m2" "tids m2 ns = [2]"
    using ws by auto
  then have "ns \<noteq> []" by (auto simp: tids_def)
  from qunlock_hands [OF ns(1,2) this] obtain w m3 q3 where "qunlock m2 q2 = Inr (Some w, m3, q3)"
    by blast
  then have "\<exists>s'. qlstep (m2, q2, {1}, {2}) (Unlock 1) s'"
    using ql_handoff by blast
  with r a ws show ?thesis by blast
qed

text \<open>C22: \<open>qlock\<close>, \<open>canqlock\<close> and \<open>qunlock\<close> exclude each other: however many threads use the lock in whatever order, as long as a thread
  that waits gets no message but that of \<open>qunlock\<close>, at most one is between a lock and its unlock, \<open>locked\<close> says
  whether there is one, and nobody is in the queue of a free lock. \<open>qunlock\<close> never faults, and \<open>qlock\<close> only when it has to
  wait and \<open>malloc\<close>, whose result it does not test, has no memory.\<close>

theorem qlock_mutual_exclusion:
  assumes "runs qlopen (tq0, qlock0, {}, {}) es (m, q, H, B)" "\<forall>t. Stray t \<notin> set es"
  shows "(\<exists>h. H = set_option h \<and> (ql_locked q \<longleftrightarrow> h \<noteq> None)) \<and> (\<not> ql_locked q \<longrightarrow> B = {}) \<and> H \<inter> B = {}
     \<and> (\<forall>mem t e. qlock mem t m q = Inl e \<longleftrightarrow> e = Efault \<and> \<not> mem \<and> ql_locked q) \<and> (\<exists>r. qunlock m q = Inr r)"
proof -
  obtain es' where "runs qlstep (tq0, qlock0, {}, {}) es' (m, q, H, B)"
    using qlopen_no_stray [OF assms] by blast
  from qlk.runs_rel [OF init_rel this] obtain h ws where a: "ql_rel (m, q, H, B) (h, ws)"
    by (metis surj_pair)
  then obtain ns where ns: "waitlist m (ql_head q) (ql_tail q) ns" "mem_ok m" "\<not> ql_stale q"
    by auto
  have t: "\<exists>r. qlock True t m q = Inr r" for t
    using qlock_waits [OF ns, of t] ns(3) by (cases "ql_locked q") (auto simp: qlock_def)
  have "qlock mem t m q = Inl e \<longleftrightarrow> e = Efault \<and> \<not> mem \<and> ql_locked q" for mem t e
    using t [of t] ns(3) by (cases mem; cases "ql_locked q") (auto simp: qlock_def tq_new_def)
  moreover have "\<exists>r. qunlock m q = Inr r"
    using qunlock_hands [OF ns(1,2)] qunlock_empties [of m q] ns(1) by (cases "ns = []") blast+
  ultimately show ?thesis
    using a by auto
qed

theorem qlock_mutual_exclusion_witness:
  "\<exists>m q H B. runs qlopen (tq0, qlock0, {}, {}) [Ev (Lock 1), Ev (Lock 2)] (m, q, H, B) \<and> H = {1} \<and> B = {2} \<and> ql_locked q
     \<and> qlock False 3 m q = Inl Efault"
proof -
  obtain m q where "runs qlstep (tq0, qlock0, {}, {}) [Lock 1, Lock 2] (m, q, {1}, {2})"
    using demo_locks by blast
  then have r: "runs qlopen (tq0, qlock0, {}, {}) [Ev (Lock 1), Ev (Lock 2)] (m, q, {1}, {2})"
    using runs_qlopen [of _ "[Lock 1, Lock 2]"] by simp
  have n: "\<forall>t. Stray t \<notin> set [Ev (Lock 1), Ev (Lock 2)]" by simp
  have "ql_locked q" "qlock False 3 m q = Inl Efault"
    using qlock_mutual_exclusion [OF r n] by auto
  with r show ?thesis by blast
qed

text \<open>Another message to a thread that waits lets it in beside the thread that holds the lock.\<close>

lemma qlock_stray:
  "\<exists>m q. runs qlopen (tq0, qlock0, {}, {}) [Ev (Lock 1), Ev (Lock 2), Stray 2] (m, q, {1, 2}, {})"
proof -
  obtain m q where "runs qlstep (tq0, qlock0, {}, {}) [Lock 1, Lock 2] (m, q, {1}, {2})"
    using demo_locks by blast
  then have r: "runs qlopen (tq0, qlock0, {}, {}) [Ev (Lock 1), Ev (Lock 2)] (m, q, {1}, {2})"
    using runs_qlopen [of _ "[Lock 1, Lock 2]"] by simp
  have "qlopen (m, q, {1}, {2}) (Stray 2) (m, q, {1, 2}, {})"
    using op_stray [of 2 "{2}" m q "{1}"] by (simp add: insert_commute)
  from runs_append [OF r runs_one, OF this] show ?thesis by auto
qed

text \<open>C23: \<open>qlock\<close> is first come, first served. A thread that waits behind \<open>xs\<close> is inside as soon as the lock has been
  released once more than there are threads in \<open>xs\<close>, whatever calls other threads make in between, as long as no
  thread that waits gets a message but that of \<open>qunlock\<close>.\<close>

theorem qlock_first_come:
  assumes "runs qlstep (tq0, qlock0, {}, {}) es0 s" "ql_rel s (h, xs @ t # ys)" "runs qlstep s es s'" "length xs < unlocks es"
  shows "\<exists>es1 u es2 s1. es = es1 @ Unlock u # es2 \<and> unlocks es1 = length xs
     \<and> runs qlstep s (es1 @ [Unlock u]) s1 \<and> ql_inside s1 = {t} \<and> runs qlstep s1 es2 s'"
  using qlk.bounded_waiting [OF assms(2-4)] .

theorem qlock_first_come_witness:
  "\<exists>s s' es1 u es2 s1. runs qlstep (tq0, qlock0, {}, {}) [Lock 1, Lock 2] s \<and> ql_rel s (Some 1, [] @ 2 # [])
     \<and> runs qlstep s [Unlock 1] s' \<and> [Unlock 1] = es1 @ Unlock u # es2
     \<and> runs qlstep s (es1 @ [Unlock u]) s1 \<and> ql_inside s1 = {2} \<and> runs qlstep s1 es2 s'"
proof -
  obtain m q where r: "runs qlstep (tq0, qlock0, {}, {}) [Lock 1, Lock 2] (m, q, {1}, {2})" "ql_rel (m, q, {1}, {2}) (Some 1, [] @ 2 # [])"
    and st: "\<exists>s'. qlstep (m, q, {1}, {2}) (Unlock 1) s'"
    using demo_locks unfolding append_Nil by blast
  from st obtain s' where s': "runs qlstep (m, q, {1}, {2}) [Unlock 1] s'"
    using runs_one [of qlstep] by blast
  have "length ([] :: nat list) < unlocks [Unlock 1]" by simp
  from qlock_first_come [OF r s' this] r s' show ?thesis by blast
qed



text \<open>C25: \<open>wlock\<close> does not set the tail of the queue, and so waiting threads are lost. A reader that comes after a waiting
  writer replaces it at the head of the queue, and the release of the first reader then panics; of two
  writers that wait, the first is lost: both later releases pass without it.\<close>

theorem rwlock_loses_waiters:
  assumes "mem_ok m" "rw_head q = None" "rw_tail q = None"
  shows "(rw_readers q = 1 \<and> rw_writer q = 0 \<longrightarrow>
       (\<exists>m1 q1 m2 q2. wlock True up t1 m q = Inr (False, m1, q1) \<and> rlock True t2 m1 q1 = Inr (False, m2, q2) \<and> runlock m2 q2 = Inl Epanic))
    \<and> (rw_readers q = 0 \<and> rw_writer q = 1 \<longrightarrow>
       (\<exists>m1 q1 m2 q2 m3 q3 m4 q4. wlock True up t1 m q = Inr (False, m1, q1) \<and> wlock True up t2 m1 q1 = Inr (False, m2, q2)
         \<and> wunlock m2 q2 = Inr ([t2], m3, q3) \<and> wunlock m3 q3 = Inr ([], m4, q4) \<and> rw_writer q4 = 0 \<and> rw_head q4 = None))"
  using assms
  by (auto simp: wlock_def rlock_def runlock_def wunlock_def tq_new_def tq_link_def tq_get_def tq_free_def)

theorem rwlock_loses_waiters_witness:
  "\<exists>m1 q1 m2 q2 m3 q3. rlock True 1 tq0 rwlock0 = Inr (True, m1, q1) \<and> wlock True 0 2 m1 q1 = Inr (False, m2, q2)
     \<and> rlock True 3 m2 q2 = Inr (False, m3, q3) \<and> runlock m3 q3 = Inl Epanic"
proof -
  let ?q = "rwlock0\<lparr>rw_readers := 1\<rparr>"
  have "rlock True 1 tq0 rwlock0 = Inr (True, tq0, ?q)" "mem_ok tq0"
    by (simp_all add: rlock_def rwlock0_def tq0_def mem_ok_def)
  then show ?thesis
    using rwlock_loses_waiters [of tq0 ?q 0 2 3] by (auto simp: rwlock0_def)
qed

end
