(* ===== verification/Xmem.thy ===== *)
theory Xmem
  imports Fcall "HOL-Library.Multiset"
begin

text \<open>
  The kernel's page-level allocator, \<open>9/port/xalloc-l4.c\<close>: a table of holes sorted by address, first fit, and merging on release.
  The table is the list from \<open>xlists.table\<close>, the unused structures are the list from \<open>xlists.flist\<close>, both of places in the array
  \<open>hole\<close>. Addresses and sizes are 32-bit words and wrap; memory is a function from addresses to bytes. What an
  operation does under \<open>xlists._lock\<close> is one step; \<open>xallocz\<close> clears and marks its chunk in a second one, without the lock.
  The mapping of the pool by the pager (\<open>xphysmap\<close>) is a parameter of \<open>xinit\<close>, which calls the debugger when it fails and
  then goes on.

  Main results: the invariant of the table; \<open>xallocz\<close> and \<open>xhole\<close> are exact on the set of free addresses; chunks in use never
  overlap (locale \<open>chunk_heap\<close>); and two flaws: the clearing overruns the chunk, and the size wraps.
\<close>

unbundle bit_operations_syntax

subsection \<open>State\<close>

definition Nhole :: nat where
  "Nhole = 128"

definition Magichole :: u32 where
  "Magichole = 0x484F4C45"

definition BY2V :: u32 where
  "BY2V = 8"

text \<open>\<open>sizeof(Xhdr)\<close> and the offset of \<open>data\<close> in it.\<close>

definition sizeof_Xhdr :: u32 where
  "sizeof_Xhdr = 12"

definition datoff :: u32 where
  "datoff = 8"

text \<open>A hole; \<open>h_id\<close> is its place in the array \<open>hole\<close>.\<close>

record Hole =
  h_id :: nat
  h_addr :: u32
  h_size :: u32
  h_top :: u32

record Xalloc =
  xflist :: "nat list"
  xtable :: "Hole list"

type_synonym memory = "u32 \<Rightarrow> byte"

text \<open>Words in memory.\<close>

definition rd32 :: "memory \<Rightarrow> u32 \<Rightarrow> u32" where
  "rd32 m a = gbit32 [m a, m (a + 1), m (a + 2), m (a + 3)]"

definition wr32 :: "memory \<Rightarrow> u32 \<Rightarrow> u32 \<Rightarrow> memory" where
  "wr32 m a v = (\<lambda>x. if unat (x - a) < 4 then pbit32 v ! unat (x - a) else m x)"

definition memzero :: "memory \<Rightarrow> u32 \<Rightarrow> u32 \<Rightarrow> memory" where
  "memzero m a n = (\<lambda>x. if x - a < n then 0 else m x)"


subsection \<open>Operations\<close>

text \<open>The search of \<open>xallocz\<close>: the address, the table, and the hole structure that became free.\<close>

primrec take_hole :: "u32 \<Rightarrow> Hole list \<Rightarrow> (u32 \<times> Hole list \<times> nat list) option" where
  "take_hole sz [] = None"
| "take_hole sz (h # hs) =
    (if h_size h \<ge> sz then
       (let h1 = h\<lparr>h_addr := h_addr h + sz, h_size := h_size h - sz\<rparr> in
        if h_size h1 = 0 then Some (h_addr h, hs, [h_id h]) else Some (h_addr h, h1 # hs, []))
     else map_option (\<lambda>(p, t, f). (p, h # t, f)) (take_hole sz hs))"

definition xsize :: "u32 \<Rightarrow> u32" where
  "xsize sz = (sz + (BY2V + sizeof_Xhdr)) AND NOT (BY2V - 1)"

text \<open>\<open>xallocz\<close>: under the lock a chunk is taken out of the table; after the lock is given up the chunk is cleared and its header
  is written.\<close>

definition xtake :: "Xalloc \<Rightarrow> u32 \<Rightarrow> (u32 \<times> Xalloc) option" where
  "xtake x sz1 = map_option (\<lambda>(p, t, f). (p, x\<lparr>xtable := t, xflist := f @ xflist x\<rparr>)) (take_hole sz1 (xtable x))"

definition xfill :: "memory \<Rightarrow> u32 \<Rightarrow> u32 \<Rightarrow> bool \<Rightarrow> memory" where
  "xfill m p sz1 zero =
    (let m1 = (if zero then memzero m (p + datoff) sz1 else m);
         m2 = wr32 m1 (p + 4) Magichole
     in wr32 m2 p sz1)"

definition xallocz :: "Xalloc \<Rightarrow> memory \<Rightarrow> u32 \<Rightarrow> bool \<Rightarrow> u32 \<times> Xalloc \<times> memory" where
  "xallocz x m sz zero =
    (case xtake x (xsize sz) of
       None \<Rightarrow> (0, x, m)
     | Some (p, x1) \<Rightarrow> (p + datoff, x1, xfill m p (xsize sz) zero))"

definition xalloc :: "Xalloc \<Rightarrow> memory \<Rightarrow> u32 \<Rightarrow> u32 \<times> Xalloc \<times> memory" where
  "xalloc x m sz = xallocz x m sz True"

text \<open>The insertion of \<open>xhole\<close>: the table and the free structures. Without a free structure the bytes are leaked.\<close>

definition new_hole :: "u32 \<Rightarrow> u32 \<Rightarrow> nat list \<Rightarrow> Hole list \<Rightarrow> Hole list \<times> nat list" where
  "new_hole addr sz fl hs =
    (case fl of
       [] \<Rightarrow> (hs, [])
     | i # fl1 \<Rightarrow> (\<lparr>h_id = i, h_addr = addr, h_size = sz, h_top = addr + sz\<rparr> # hs, fl1))"

primrec put_hole :: "u32 \<Rightarrow> u32 \<Rightarrow> nat list \<Rightarrow> Hole list \<Rightarrow> Hole list \<times> nat list" where
  "put_hole addr sz fl [] = new_hole addr sz fl []"
| "put_hole addr sz fl (h # hs) =
    (if h_top h = addr then
       (let h1 = h\<lparr>h_size := h_size h + sz, h_top := h_addr h + (h_size h + sz)\<rparr> in
        case hs of
          [] \<Rightarrow> ([h1], fl)
        | c # cs \<Rightarrow>
            if h_top h1 = h_addr c then
              (h1\<lparr>h_top := h_top h1 + h_size c, h_size := h_size h1 + h_size c\<rparr> # cs, h_id c # fl)
            else (h1 # c # cs, fl))
     else if h_addr h > addr then
       (if addr + sz = h_addr h then (h\<lparr>h_addr := h_addr h - sz, h_size := h_size h + sz\<rparr> # hs, fl)
        else new_hole addr sz fl (h # hs))
     else (let (t, fl1) = put_hole addr sz fl hs in (h # t, fl1)))"

definition xhole :: "Xalloc \<Rightarrow> u32 \<Rightarrow> u32 \<Rightarrow> Xalloc" where
  "xhole x addr sz =
    (if sz = 0 then x
     else (let (t, fl) = put_hole addr sz (xflist x) (xtable x) in x\<lparr>xtable := t, xflist := fl\<rparr>))"

definition xfree :: "Xalloc \<Rightarrow> memory \<Rightarrow> u32 \<Rightarrow> Xalloc outcome" where
  "xfree x m p =
    (let a = p - datoff in
     if rd32 m (a + 4) \<noteq> Magichole then Inl Epanic
     else Inr (xhole x a (rd32 m a)))"

definition xmerge :: "memory \<Rightarrow> u32 \<Rightarrow> u32 \<Rightarrow> bool \<times> memory" where
  "xmerge m vp vq =
    (if vp + rd32 m vp = vq then (True, wr32 m vp (rd32 m vp + rd32 m vq)) else (False, m))"

text \<open>\<open>align\<close> is an \<open>int\<close>: its comparison is signed.\<close>

definition xspanalloc :: "Xalloc \<Rightarrow> memory \<Rightarrow> u32 \<Rightarrow> u32 \<Rightarrow> u32 \<Rightarrow> (u32 \<times> Xalloc \<times> memory) outcome" where
  "xspanalloc x m sz align span =
    (let (a, x1, m1) = xalloc x m (sz + align + span) in
     if a = 0 then Inl Epanic
     else
       (let (v, x3) =
          (if span > 2 then
             (let v = (a + span) AND NOT (span - 1);
                  t = v - a;
                  x2 = (if t > 0 then xhole x1 a t else x1);
                  t2 = a + span - v;
                  x3 = (if t2 > 0 then xhole x2 (v + sz + align) t2 else x2)
              in (v, x3))
           else (a, x1));
            v1 = (if sint align > 1 then (v + align) AND NOT (align - 1) else v)
        in Inr (v1, x3, m1)))"

text \<open>\<open>xinit\<close>: the pool that the pager maps; \<open>mapped\<close> says whether it did. If not, the kernel debugger is entered, which the first
  result says, and \<open>xinit\<close> goes on all the same.\<close>

definition XMAP_LADDR :: u32 where
  "XMAP_LADDR = 20 * 1024 * 1024"

definition XMAP_LOG2SIZE :: nat where
  "XMAP_LOG2SIZE = 22"

definition xinit :: "bool \<Rightarrow> bool \<times> Xalloc" where
  "xinit mapped = (\<not> mapped, xhole \<lparr>xflist = [0..<Nhole], xtable = []\<rparr> XMAP_LADDR (push_bit XMAP_LOG2SIZE 1))"

text \<open>\<open>xsummary\<close>: the holes free and the bytes free.\<close>

definition xsummary :: "Xalloc \<Rightarrow> nat \<times> u32" where
  "xsummary x = (length (xflist x), sum_list (map h_size (xtable x)))"

lemma xallocz_eq:
  "xallocz x m sz zero =
    (let sz1 = xsize sz in
     case take_hole sz1 (xtable x) of
       None \<Rightarrow> (0, x, m)
     | Some (p, t, f) \<Rightarrow>
         (let m1 = (if zero then memzero m (p + datoff) sz1 else m);
              m2 = wr32 m1 (p + 4) Magichole;
              m3 = wr32 m2 p sz1
          in (p + datoff, x\<lparr>xtable := t, xflist := f @ xflist x\<rparr>, m3)))"
  by (simp add: xallocz_def xtake_def xfill_def Let_def split: option.splits)

subsection \<open>The table of holes\<close>

abbreviation hrange :: "u32 \<Rightarrow> u32 \<Rightarrow> nat set" where
  "hrange a n \<equiv> {unat a..<unat a + unat n}"

definition hole_ok :: "Hole \<Rightarrow> bool" where
  "hole_ok h \<longleftrightarrow> 0 < unat (h_size h) \<and> unat (h_addr h) + unat (h_size h) < 2 ^ 32 \<and> h_top h = h_addr h + h_size h"

text \<open>In order, apart from each other, and none below \<open>lo\<close>.\<close>

primrec holes_from :: "nat \<Rightarrow> Hole list \<Rightarrow> bool" where
  "holes_from lo [] \<longleftrightarrow> True"
| "holes_from lo (h # hs) \<longleftrightarrow> lo \<le> unat (h_addr h) \<and> hole_ok h \<and> holes_from (Suc (unat (h_addr h) + unat (h_size h))) hs"

primrec free_in :: "Hole list \<Rightarrow> nat set" where
  "free_in [] = {}"
| "free_in (h # hs) = hrange (h_addr h) (h_size h) \<union> free_in hs"

lemma unat_add_ok: "unat a + unat b < 2 ^ 32 \<Longrightarrow> unat (a + b) = unat a + unat b" for a b :: u32
  by (simp add: unat_word_ariths)

lemma unat_sub_ok: "b \<le> a \<Longrightarrow> unat (a - b) = unat a - unat b" for a b :: u32
  by (rule unat_sub)

lemma top_ok: "hole_ok h \<Longrightarrow> unat (h_top h) = unat (h_addr h) + unat (h_size h)"
  by (simp add: hole_ok_def unat_add_ok)

lemma holes_mono: "holes_from lo hs \<Longrightarrow> lo' \<le> lo \<Longrightarrow> holes_from lo' hs"
  by (cases hs) auto

lemma free_above: "holes_from lo hs \<Longrightarrow> x \<in> free_in hs \<Longrightarrow> lo \<le> x"
proof (induction hs arbitrary: lo)
  case (Cons h hs)
  then show ?case
    using Cons.IH [of "Suc (unat (h_addr h) + unat (h_size h))"] by fastforce
qed simp

lemma take_hole_ok:
  assumes "holes_from lo hs" "0 < unat sz" "take_hole sz hs = Some (p, t, f)"
  shows "holes_from lo t \<and> lo \<le> unat p \<and> unat p + unat sz < 2 ^ 32 \<and> hrange p sz \<subseteq> free_in hs
     \<and> free_in t = free_in hs - hrange p sz \<and> mset f + mset (map h_id t) = mset (map h_id hs)"
  using assms
proof (induction hs arbitrary: lo t)
  case (Cons h hs)
  let ?a = "h_addr h" and ?n = "h_size h"
  have h: "lo \<le> unat ?a" "0 < unat ?n" "unat ?a + unat ?n < 2 ^ 32" "h_top h = ?a + ?n"
    and hs: "holes_from (Suc (unat ?a + unat ?n)) hs"
    using Cons.prems(1) by (auto simp: hole_ok_def)
  have above: "\<forall>x \<in> free_in hs. unat ?a + unat ?n < x"
    using free_above [OF hs] by (simp add: Suc_le_eq)
  show ?case
  proof (cases "sz \<le> ?n")
    case True
    then have le: "unat sz \<le> unat ?n"
      by (simp add: word_le_nat_alt)
    have a: "unat (?a + sz) = unat ?a + unat sz" "unat (?n - sz) = unat ?n - unat sz"
      using h le unat_sub_ok [OF True] by (auto intro: unat_add_ok)
    show ?thesis
    proof (cases "?n - sz = 0")
      case True
      then have "?n = sz" by simp
      then show ?thesis
        using Cons.prems(3) h hs True holes_mono [OF hs] above by auto
    next
      case False
      then have "unat (?n - sz) \<noteq> 0"
        by (simp add: unat_eq_zero)
      moreover have "free_in hs \<inter> hrange ?a sz = {}"
        using above le by fastforce
      ultimately show ?thesis
        using Cons.prems(3) h hs True False a le by (auto simp: hole_ok_def Let_def)
    qed
  next
    case False
    with Cons.prems(3) obtain t' where t': "take_hole sz hs = Some (p, t', f)" "t = h # t'"
      by auto
    from Cons.IH [OF hs Cons.prems(2) t'(1)] show ?thesis
      using h hs t'(2) by (auto simp: hole_ok_def)
  qed
qed simp

lemma take_hole_none: "take_hole sz hs = None \<longleftrightarrow> (\<forall>h \<in> set hs. h_size h < sz)"
  by (induction hs) (auto simp: Let_def)

lemma new_hole_ok:
  assumes "holes_from lo' hs" "Suc (unat addr + unat sz) \<le> lo'" "lo \<le> unat addr" "0 < unat sz" "unat addr + unat sz < 2 ^ 32"
    "new_hole addr sz fl hs = (t, fl')"
  shows "holes_from lo t \<and> mset fl' + mset (map h_id t) = mset fl + mset (map h_id hs)
     \<and> (if fl = [] then free_in t = free_in hs else free_in t = free_in hs \<union> hrange addr sz)"
  using assms holes_mono [OF assms(1), of lo] holes_mono [OF assms(1), of "Suc (unat addr + unat sz)"]
  by (auto simp: new_hole_def hole_ok_def split: list.splits)

text \<open>\<open>xhole\<close>: the bytes are free afterwards, unless there is no structure left for a hole of their own.\<close>

lemma put_hole_ok:
  assumes "holes_from lo hs" "lo \<le> unat addr" "0 < unat sz" "unat addr + unat sz < 2 ^ 32" "hrange addr sz \<inter> free_in hs = {}"
    "put_hole addr sz fl hs = (t, fl')"
  shows "holes_from lo t \<and> mset fl' + mset (map h_id t) = mset fl + mset (map h_id hs)
     \<and> (free_in t = free_in hs \<union> hrange addr sz \<or> fl = [] \<and> t = hs)"
  using assms
proof (induction hs arbitrary: lo t)
  case Nil
  then show ?case
    using new_hole_ok [of "Suc (unat addr + unat sz)" "[]" addr sz lo fl t fl'] by (auto simp: new_hole_def split: list.splits)
next
  case (Cons h hs)
  let ?a = "h_addr h" and ?n = "h_size h"
  have h: "lo \<le> unat ?a" "0 < unat ?n" "unat ?a + unat ?n < 2 ^ 32" "h_top h = ?a + ?n"
    and hs: "holes_from (Suc (unat ?a + unat ?n)) hs"
    using Cons.prems(1) by (auto simp: hole_ok_def)
  have top: "unat (?a + ?n) = unat ?a + unat ?n"
    using h(3) by (rule unat_add_ok)
  have last: "unat addr + unat sz - 1 \<in> hrange addr sz" "unat addr \<in> hrange addr sz"
    using Cons.prems(3) by auto
  have gap: "unat addr + unat sz \<le> unat a'" if "hrange a' n' \<subseteq> free_in (h # hs)" "unat addr < unat a'" "0 < unat n'" for a' n'
  proof (rule ccontr)
    assume "\<not> ?thesis"
    then have "unat a' \<in> hrange addr sz" "unat a' \<in> hrange a' n'"
      using that by auto
    then show False
      using that(1) Cons.prems(5) by blast
  qed
  consider (after) "?a + ?n = addr" | (before) "?a + ?n \<noteq> addr" "addr < ?a" | (later) "?a + ?n \<noteq> addr" "\<not> addr < ?a"
    by blast
  then show ?case
  proof cases
    case after
    then have eq: "unat addr = unat ?a + unat ?n"
      using top by simp
    have sum: "unat (?n + sz) = unat ?n + unat sz" "unat (?a + (?n + sz)) = unat addr + unat sz"
      using Cons.prems(4) eq by (simp_all add: unat_add_ok)
    let ?h1 = "h\<lparr>h_size := ?n + sz, h_top := ?a + (?n + sz)\<rparr>"
    have h1: "hole_ok ?h1" "hrange (h_addr ?h1) (h_size ?h1) = hrange ?a ?n \<union> hrange addr sz"
      using Cons.prems(3,4) eq sum by (auto simp: hole_ok_def)
    show ?thesis
    proof (cases hs)
      case Nil
      then have "t = [?h1]" "fl' = fl"
        using Cons.prems(6) after h(4) by (simp_all add: Let_def)
      then show ?thesis
        using h(1) h1 Nil by simp
    next
      case hs': (Cons c cs)
      have c: "unat addr < unat (h_addr c)" "hole_ok c" "holes_from (Suc (unat (h_addr c) + unat (h_size c))) cs"
        using hs eq by (simp_all add: hs')
      then have le: "unat addr + unat sz \<le> unat (h_addr c)"
        using gap [of "h_addr c" "h_size c"] by (auto simp: hs' hole_ok_def)
      show ?thesis
      proof (cases "?a + (?n + sz) = h_addr c")
        case True
        then have ca: "unat (h_addr c) = unat addr + unat sz"
          using sum by simp
        have cn: "unat (h_addr c) + unat (h_size c) < 2 ^ 32"
          using c(2) by (simp add: hole_ok_def)
        let ?h2 = "?h1\<lparr>h_top := ?a + (?n + sz) + h_size c, h_size := ?n + sz + h_size c\<rparr>"
        have s2: "unat (?n + sz + h_size c) = unat ?n + unat sz + unat (h_size c)"
          using cn ca eq sum by (subst unat_add_ok) auto
        have "hole_ok ?h2" "hrange (h_addr ?h2) (h_size ?h2) = hrange ?a ?n \<union> hrange addr sz \<union> hrange (h_addr c) (h_size c)"
          "unat (h_addr ?h2) + unat (h_size ?h2) = unat (h_addr c) + unat (h_size c)"
          using s2 ca cn eq h(2) by (auto simp: hole_ok_def add.assoc)
        moreover have "t = ?h2 # cs" "fl' = h_id c # fl"
          using Cons.prems(6) after h True by (simp_all add: hs' Let_def)
        ultimately show ?thesis
          using c(3) h(1) by (auto simp: hs')
      next
        case False
        then have "unat (?a + (?n + sz)) \<noteq> unat (h_addr c)"
          unfolding word_unat_eq_iff .
        with le sum eq have lt: "Suc (unat ?a + unat (?n + sz)) \<le> unat (h_addr c)"
          by simp
        have "t = ?h1 # hs" "fl' = fl"
          using Cons.prems(6) after h False by (simp_all add: hs' Let_def)
        moreover have "holes_from (Suc (unat ?a + unat (?n + sz))) hs"
          using lt c by (simp add: hs')
        ultimately show ?thesis
          using h1 h(1) by auto
      qed
    qed
  next
    case before
    then have lt: "unat addr < unat ?a"
      by (simp add: word_less_nat_alt)
    then have le: "unat addr + unat sz \<le> unat ?a"
      using gap [of ?a ?n] h(2) by simp
    have sum: "unat (addr + sz) = unat addr + unat sz"
      using Cons.prems(4) by (rule unat_add_ok)
    show ?thesis
    proof (cases "addr + sz = ?a")
      case True
      then have a: "unat ?a = unat addr + unat sz" "?a - sz = addr"
        using sum by (simp_all add: True [symmetric])
      then have n: "unat (?n + sz) = unat ?n + unat sz"
        using h(3) by (intro unat_add_ok) simp
      have "t = h\<lparr>h_addr := ?a - sz, h_size := ?n + sz\<rparr> # hs" "fl' = fl"
        using Cons.prems(6) before h True by simp_all
      moreover have e: "unat addr + (unat ?n + unat sz) = unat ?a + unat ?n"
        using a by simp
      moreover have "holes_from (Suc (unat addr + unat (?n + sz))) hs"
        unfolding n e by (rule hs)
      moreover have "hrange addr (?n + sz) = hrange addr sz \<union> hrange ?a ?n"
        using a(1) n by auto
      ultimately show ?thesis
        using a(2) n h Cons.prems(2) by (auto simp: hole_ok_def)
    next
      case False
      then have "unat (addr + sz) \<noteq> unat ?a"
        unfolding word_unat_eq_iff .
      with le sum have lt: "Suc (unat addr + unat sz) \<le> unat ?a"
        by simp
      have "new_hole addr sz fl (h # hs) = (t, fl')"
        using Cons.prems(6) before h False by simp
      moreover have "holes_from (unat ?a) (h # hs)"
        using Cons.prems(1) by simp
      ultimately show ?thesis
        using new_hole_ok [of "unat ?a" "h # hs" addr sz lo fl t fl'] lt Cons.prems(2-4)
        by (cases fl) (auto simp: new_hole_def)
    qed
  next
    case later
    have "unat addr \<notin> hrange ?a ?n"
      using Cons.prems(5) last(2) unfolding free_in.simps by blast
    with later have "unat ?a + unat ?n \<le> unat addr"
      by (auto simp: word_less_nat_alt)
    moreover have "unat ?a + unat ?n \<noteq> unat addr"
      using later(1) top by (metis word_unat_eq_iff)
    ultimately have lo': "Suc (unat ?a + unat ?n) \<le> unat addr" by simp
    obtain t' f where p: "put_hole addr sz fl hs = (t', f)"
      by (rule prod.exhaust)
    with Cons.prems(6) later h(4) have t': "put_hole addr sz fl hs = (t', fl')" "t = h # t'"
      by simp_all
    have "hrange addr sz \<inter> free_in hs = {}"
      using Cons.prems(5) by auto
    from Cons.IH [OF hs lo' Cons.prems(3,4) this t'(1)] show ?thesis
      using h(1) Cons.prems(1) unfolding t'(2) by auto
  qed
qed

subsection \<open>Memory\<close>

lemma in_range: "unat a + unat n < 2 ^ 32 \<Longrightarrow> x - a < n \<longleftrightarrow> unat x \<in> hrange a n" for a n x :: u32
  using unat_u32_less [of x] by (auto simp: word_less_nat_alt unat_sub_if' split: if_splits)

lemma rd32_wr32 [simp]: "rd32 (wr32 m a v) a = v"
proof -
  have "[pbit32 v ! 0, pbit32 v ! 1, pbit32 v ! 2, pbit32 v ! 3] = pbit32 v"
    by (simp add: pbit32_def)
  then show ?thesis
    by (simp add: rd32_def wr32_def)
qed

lemma rd32_cong: "(\<And>x. x - a < 4 \<Longrightarrow> m' x = m x) \<Longrightarrow> rd32 m' a = rd32 m a"
  by (simp add: rd32_def)

lemma rd32_outside:
  assumes "\<And>x. unat x \<in> hrange a 4 \<Longrightarrow> m' x = m x" "unat a + 4 < 2 ^ 32"
  shows "rd32 m' a = rd32 m a"
  using assms in_range [of a 4] by (intro rd32_cong) simp

lemma wr32_outside: "unat x \<notin> hrange a 4 \<Longrightarrow> unat a + 4 < 2 ^ 32 \<Longrightarrow> wr32 m a v x = m x"
  using in_range [of a 4 x] by (auto simp: wr32_def word_less_nat_alt)

lemma memzero_in: "unat a + unat n < 2 ^ 32 \<Longrightarrow> memzero m a n x = (if unat x \<in> hrange a n then 0 else m x)"
  using in_range [of a n x] by (simp add: memzero_def)

subsection \<open>Sizes\<close>

lemma and_not_7: "unat (w AND NOT 7) = 8 * (unat w div 8)" for w :: u32
proof -
  have "w AND NOT 7 = push_bit 3 (drop_bit 3 w)"
    by (rule bit_eqI) (simp add: bit_simps, auto simp: numeral_eq_Suc less_Suc_eq)
  moreover have "8 * (unat w div 8) < 2 ^ 32"
    using unat_u32_less [of w] by (rule le_less_trans [rotated]) simp
  ultimately show ?thesis
    by (simp add: push_bit_eq_mult unat_word_ariths drop_bit_eq_div unat_div mult.commute)
qed

lemma and_minus_8: "unat (w AND - 8) = 8 * (unat w div 8)" for w :: u32
  using and_not_7 [of w] by simp

lemma xsize_bounds:
  assumes "unat sz + 20 < 2 ^ 32"
  shows "8 dvd unat (xsize sz)" "unat sz + 13 \<le> unat (xsize sz)" "unat (xsize sz) \<le> unat sz + 20"
proof -
  have "unat (sz + 20) = unat sz + 20"
    using unat_add_ok [of sz 20] assms by simp
  then have e: "unat (xsize sz) = 8 * ((unat sz + 20) div 8)"
    by (simp add: xsize_def BY2V_def sizeof_Xhdr_def and_minus_8)
  then show "8 dvd unat (xsize sz)" "unat (xsize sz) \<le> unat sz + 20"
    by simp_all
  show "unat sz + 13 \<le> unat (xsize sz)"
    unfolding e using div_mult_mod_eq [of "unat sz + 20" 8] mod_less_divisor [of 8 "unat sz + 20"] by linarith
qed

subsection \<open>A heap of chunks\<close>

text \<open>The interface: a set of free addresses, allocation that takes a range out of it, release that gives at most that
  range back.\<close>

datatype hev = Alloc "nat \<times> nat" | Fill "nat \<times> nat" | Free "nat \<times> nat" | Write "nat \<times> nat"

abbreviation span :: "nat \<times> nat \<Rightarrow> nat set" where
  "span c \<equiv> {fst c..<fst c + snd c}"

definition apart :: "(nat \<times> nat) set \<Rightarrow> bool" where
  "apart L \<longleftrightarrow> (\<forall>c \<in> L. \<forall>d \<in> L. c \<noteq> d \<longrightarrow> span c \<inter> span d = {})"

lemma apart_insert: "apart L \<Longrightarrow> (\<And>d. d \<in> L \<Longrightarrow> span c \<inter> span d = {}) \<Longrightarrow> apart (insert c L)"
  unfolding apart_def by blast

lemma apart_remove: "apart L \<Longrightarrow> apart (L - {c})"
  unfolding apart_def by blast

locale chunk_heap =
  fixes inv :: "'s \<Rightarrow> bool" and free :: "'s \<Rightarrow> nat set"
    and alloc :: "'s \<Rightarrow> nat \<times> nat \<Rightarrow> 's \<Rightarrow> bool" and release :: "'s \<Rightarrow> nat \<times> nat \<Rightarrow> 's \<Rightarrow> bool"
  assumes alloc: "inv s \<Longrightarrow> alloc s c s' \<Longrightarrow> inv s' \<and> span c \<subseteq> free s \<and> free s' = free s - span c \<and> span c \<noteq> {}"
    and release: "inv s \<Longrightarrow> span c \<inter> free s = {} \<Longrightarrow> release s c s' \<Longrightarrow> inv s' \<and> free s' \<subseteq> free s \<union> span c"
begin

text \<open>The chunks in use do not overlap each other or a free address.\<close>

definition used_ok :: "'s \<Rightarrow> (nat \<times> nat) set \<Rightarrow> bool" where
  "used_ok s L \<longleftrightarrow> inv s \<and> apart L \<and> (\<forall>c \<in> L. span c \<inter> free s = {})"

lemma used_alloc:
  assumes "used_ok s L" "alloc s c s'"
  shows "used_ok s' (insert c L)" "c \<notin> L" "\<And>d. d \<in> L \<Longrightarrow> span c \<inter> span d = {}"
proof -
  have c: "inv s'" "span c \<subseteq> free s" "free s' = free s - span c" "span c \<noteq> {}"
    using alloc [OF _ assms(2)] assms(1) unfolding used_ok_def by blast+
  have d: "span d \<inter> free s = {}" if "d \<in> L" for d
    using assms(1) that by (simp add: used_ok_def)
  show disj: "span c \<inter> span d = {}" if "d \<in> L" for d
    using c(2) d [OF that] by blast
  show "c \<notin> L"
    using disj c(4) by blast
  have "apart L"
    using assms(1) by (simp add: used_ok_def)
  then have "apart (insert c L)"
    using disj by (rule apart_insert)
  moreover have "\<forall>d \<in> insert c L. span d \<inter> free s' = {}"
    unfolding c(3) using d by blast
  ultimately show "used_ok s' (insert c L)"
    unfolding used_ok_def using c(1) by blast
qed

lemma used_release:
  assumes "used_ok s L" "c \<in> L" "release s c s'"
  shows "used_ok s' (L - {c})"
proof -
  have "inv s" "span c \<inter> free s = {}" "apart L"
    using assms(1,2) by (auto simp: used_ok_def)
  with release [OF _ _ assms(3)] have r: "inv s'" "free s' \<subseteq> free s \<union> span c"
    by blast+
  have "span d \<inter> free s' = {}" if "d \<in> L" "d \<noteq> c" for d
  proof -
    have "span d \<inter> span c = {}" "span d \<inter> free s = {}"
      using \<open>apart L\<close> assms(1,2) that by (auto simp: used_ok_def apart_def)
    then show ?thesis using r(2) by blast
  qed
  with r(1) \<open>apart L\<close> show ?thesis
    by (auto simp: used_ok_def apart_remove)
qed

end

subsection \<open>\<open>xalloc\<close> is a heap of chunks\<close>

definition x_inv :: "Xalloc \<Rightarrow> bool" where
  "x_inv x \<longleftrightarrow> holes_from 0 (xtable x) \<and> mset (xflist x) + mset (map h_id (xtable x)) = mset [0..<Nhole]"

definition x_free :: "Xalloc \<Rightarrow> nat set" where
  "x_free x = free_in (xtable x)"

definition x_alloc :: "Xalloc \<Rightarrow> nat \<times> nat \<Rightarrow> Xalloc \<Rightarrow> bool" where
  "x_alloc x c x' \<longleftrightarrow> (\<exists>sz p. unat sz + 20 < 2 ^ 32 \<and> xtake x (xsize sz) = Some (p, x') \<and> c = (unat p, unat (xsize sz)))"

definition x_release :: "Xalloc \<Rightarrow> nat \<times> nat \<Rightarrow> Xalloc \<Rightarrow> bool" where
  "x_release x c x' \<longleftrightarrow> (\<exists>a n. c = (unat a, unat n) \<and> unat a + unat n < 2 ^ 32 \<and> x' = xhole x a n)"

text \<open>What \<open>xallocz\<close> returns and does, on both branches.\<close>

lemma xtake_ok:
  assumes "x_inv x" "unat sz + 20 < 2 ^ 32" "xtake x (xsize sz) = Some (p, x')"
  shows "x_inv x' \<and> unat (p + 8) = unat p + 8 \<and> unat p + unat (xsize sz) < 2 ^ 32
     \<and> hrange p (xsize sz) \<subseteq> x_free x \<and> x_free x' = x_free x - hrange p (xsize sz)"
proof -
  obtain t f where t: "take_hole (xsize sz) (xtable x) = Some (p, t, f)" and x': "x' = x\<lparr>xtable := t, xflist := f @ xflist x\<rparr>"
    using assms(3) by (auto simp: xtake_def)
  note b = xsize_bounds [OF assms(2)]
  from take_hole_ok [OF _ _ t, of 0] assms(1) b have k: "holes_from 0 t" "unat p + unat (xsize sz) < 2 ^ 32"
    "hrange p (xsize sz) \<subseteq> x_free x" "free_in t = x_free x - hrange p (xsize sz)"
    "mset f + mset (map h_id t) = mset (map h_id (xtable x))"
    by (auto simp: x_inv_def x_free_def)
  have e: "mset (f @ xflist x) + mset (map h_id t) = mset (xflist x) + mset (map h_id (xtable x))"
    unfolding k(5) [symmetric] by (simp add: ac_simps)
  have f: "xflist x' = f @ xflist x" "xtable x' = t"
    by (simp_all add: x')
  have "x_inv x'"
    using assms(1) k(1) unfolding x_inv_def f by (simp only: e simp_thms)
  moreover have "unat (p + 8) = unat p + 8"
    using k(2) b(2) unat_add_ok [of p 8] by simp
  ultimately show ?thesis
    using k(2-4) by (simp add: x_free_def f)
qed

lemma xallocz_ok:
  assumes "x_inv x" "unat sz + 20 < 2 ^ 32" "xallocz x m sz zero = (r, x', m')"
  shows "r = 0 \<and> x' = x \<and> m' = m \<and> (\<forall>h \<in> set (xtable x). h_size h < xsize sz)
     \<or> (\<exists>p. r = p + 8 \<and> unat r = unat p + 8 \<and> x_inv x' \<and> unat p + unat (xsize sz) < 2 ^ 32
         \<and> hrange p (xsize sz) \<subseteq> x_free x \<and> x_free x' = x_free x - hrange p (xsize sz)
         \<and> m' = wr32 (wr32 (if zero then memzero m (p + 8) (xsize sz) else m) (p + 4) Magichole) p (xsize sz))"
proof (cases "xtake x (xsize sz)")
  case None
  then show ?thesis
    using assms(3) take_hole_none [of "xsize sz" "xtable x"] by (auto simp: xallocz_def xtake_def)
next
  case (Some q)
  then obtain p where p: "xtake x (xsize sz) = Some (p, x')" "r = p + 8" "m' = xfill m p (xsize sz) zero"
    using assms(3) by (cases q) (auto simp: xallocz_def datoff_def)
  from xtake_ok [OF assms(1,2) p(1)] show ?thesis
    using p(2,3) by (auto simp: xfill_def Let_def datoff_def)
qed

lemma xhole_ok:
  assumes "x_inv x" "unat a + unat n < 2 ^ 32" "hrange a n \<inter> x_free x = {}"
  shows "x_inv (xhole x a n) \<and> (x_free (xhole x a n) = x_free x \<union> hrange a n \<or> xflist x = [] \<and> xhole x a n = x)"
proof (cases "n = 0")
  case False
  then have "0 < unat n"
    by (simp add: unat_gt_0)
  obtain t fl where t: "put_hole a n (xflist x) (xtable x) = (t, fl)"
    by (rule prod.exhaust)
  from put_hole_ok [OF _ _ \<open>0 < unat n\<close> assms(2) _ t, of 0] assms(1,3) have
    k: "holes_from 0 t" "mset fl + mset (map h_id t) = mset (xflist x) + mset (map h_id (xtable x))"
      "free_in t = x_free x \<union> hrange a n \<or> xflist x = [] \<and> t = xtable x"
    by (auto simp: x_inv_def x_free_def)
  have fl: "fl = []" if "xflist x = []" "t = xtable x"
    using k(2) that by simp
  have "xhole x a n = x\<lparr>xtable := t, xflist := fl\<rparr>"
    using False t by (simp add: xhole_def)
  moreover have "x_inv (x\<lparr>xtable := t, xflist := fl\<rparr>)"
    using assms(1) k(1,2) by (simp add: x_inv_def)
  ultimately show ?thesis
    using k(3) fl by (auto simp: x_free_def)
qed (use assms in \<open>simp add: xhole_def\<close>)

interpretation xheap: chunk_heap x_inv x_free x_alloc x_release
proof
  fix x c x'
  assume inv: "x_inv x"
  {
    assume "x_alloc x c x'"
    then obtain sz p where a: "unat sz + 20 < 2 ^ 32" "xtake x (xsize sz) = Some (p, x')" "c = (unat p, unat (xsize sz))"
      by (auto simp: x_alloc_def)
    with xtake_ok [OF inv a(1,2)] xsize_bounds [OF a(1)]
    show "x_inv x' \<and> span c \<subseteq> x_free x \<and> x_free x' = x_free x - span c \<and> span c \<noteq> {}"
      by auto
  next
    assume "span c \<inter> x_free x = {}" "x_release x c x'"
    then show "x_inv x' \<and> x_free x' \<subseteq> x_free x \<union> span c"
      using xhole_ok [OF inv] by (fastforce simp: x_release_def)
  }
qed

subsection \<open>Chunks, their headers and their users\<close>

lemma dvd8_add: "8 dvd unat a \<Longrightarrow> 8 dvd unat b \<Longrightarrow> 8 dvd unat (a + b)" for a b :: u32
  by (simp add: unat_word_ariths dvd_mod)

lemma dvd8_sub: "8 dvd unat a \<Longrightarrow> 8 dvd unat b \<Longrightarrow> 8 dvd unat (a - b)" for a b :: u32
  by (auto simp: unat_sub_if' intro!: dvd_diff_nat dvd_add)

definition hole_al :: "Hole \<Rightarrow> bool" where
  "hole_al h \<longleftrightarrow> 8 dvd unat (h_addr h) \<and> 8 dvd unat (h_size h)"

lemma take_hole_al:
  "list_all hole_al hs \<Longrightarrow> 8 dvd unat sz \<Longrightarrow> take_hole sz hs = Some (p, t, f) \<Longrightarrow> list_all hole_al t \<and> 8 dvd unat p"
  by (induction hs arbitrary: t) (auto simp: hole_al_def Let_def dvd8_add dvd8_sub split: if_splits)

lemma put_hole_al:
  "list_all hole_al hs \<Longrightarrow> 8 dvd unat a \<Longrightarrow> 8 dvd unat n \<Longrightarrow> list_all hole_al (fst (put_hole a n fl hs))"
  by (induction hs) (auto simp: hole_al_def Let_def new_hole_def dvd8_add dvd8_sub case_prod_unfold split: list.splits)

definition pool :: "nat set" where
  "pool = {unat XMAP_LADDR..<unat XMAP_LADDR + 2 ^ XMAP_LOG2SIZE}"

text \<open>The header of a chunk is intact, or its magic number was zeroed.\<close>

definition hdr :: "memory \<Rightarrow> nat \<times> nat \<Rightarrow> bool" where
  "hdr m c \<longleftrightarrow> rd32 m (word_of_nat (fst c)) = word_of_nat (snd c) \<and> rd32 m (word_of_nat (fst c) + 4) = Magichole
     \<or> rd32 m (word_of_nat (fst c) + 4) = 0"

definition chunk_ok :: "nat \<times> nat \<Rightarrow> bool" where
  "chunk_ok c \<longleftrightarrow> span c \<subseteq> pool \<and> 8 dvd fst c \<and> 8 dvd snd c \<and> 16 \<le> snd c"

text \<open>The allocator, the memory, the chunks in use, and among them those that an \<open>xallocz\<close> has taken and not yet filled.\<close>

type_synonym xsys = "Xalloc \<times> memory \<times> (nat \<times> nat) set \<times> (nat \<times> nat) set"

text \<open>The users of the allocator: they allocate, in two steps, release what they have, and write into the data of their chunks.
  Any number of calls can be between the two steps of \<open>xallocz\<close>.\<close>

inductive xstep :: "xsys \<Rightarrow> hev \<Rightarrow> xsys \<Rightarrow> bool" where
  Xs_take: "xtake x (xsize sz) = Some (p, x') \<Longrightarrow> unat sz + 20 < 2 ^ 32 \<Longrightarrow> c = (unat p, unat (xsize sz)) \<Longrightarrow>
     xstep (x, m, L, P) (Alloc c) (x', m, insert c L, insert c P)"
| Xs_fill: "(unat p, unat n) \<in> P \<Longrightarrow> m' = xfill m p n zero \<Longrightarrow>
     xstep (x, m, L, P) (Fill (unat p, unat n)) (x, m', L, P - {(unat p, unat n)})"
| Xs_free: "xfree x m (a + datoff) = Inr x' \<Longrightarrow> (unat a, n) \<in> L - P \<Longrightarrow>
     xstep (x, m, L, P) (Free (unat a, n)) (x', m, L - {(unat a, n)}, P)"
| Xs_write: "c \<in> L - P \<Longrightarrow> (\<And>y. unat y \<notin> {fst c + 8..<fst c + snd c} \<Longrightarrow> m' y = m y) \<Longrightarrow>
     xstep (x, m, L, P) (Write c) (x, m', L, P)"

fun xsys_ok :: "xsys \<Rightarrow> bool" where
  "xsys_ok (x, m, L, P) \<longleftrightarrow> xheap.used_ok x L \<and> x_free x \<subseteq> pool \<and> list_all hole_al (xtable x)
     \<and> (\<forall>c \<in> L. chunk_ok c) \<and> P \<subseteq> L \<and> (\<forall>c \<in> L - P. hdr m c)"

lemma pool_bounds: "span c \<subseteq> pool \<Longrightarrow> 0 < snd c \<Longrightarrow> fst c + snd c \<le> 24 * 1024 * 1024"
  using subsetD [of "span c" pool "fst c + snd c - 1"] by (auto simp: pool_def XMAP_LADDR_def XMAP_LOG2SIZE_def)

text \<open>A header that is written over only as a whole, and with zeros.\<close>

lemma hdr_kept:
  assumes "hdr m c" "fst c + 8 < 2 ^ 32" "\<And>y. unat y \<in> {fst c..<fst c + 8} \<Longrightarrow> m' y = m y"
  shows "hdr m' c"
proof -
  let ?a = "word_of_nat (fst c) :: u32"
  have a: "unat ?a = fst c"
    using assms(2) by (simp add: unat_of_nat)
  then have a4: "unat (?a + 4) = fst c + 4"
    using assms(2) unat_add_ok [of ?a 4] by simp
  have "rd32 m' ?a = rd32 m ?a" "rd32 m' (?a + 4) = rd32 m (?a + 4)"
    using assms(2,3) a a4 by (auto intro!: rd32_outside)
  then show ?thesis
    using assms(1) by (simp add: hdr_def)
qed

lemma rd32_zero: "(\<And>y. y - a < 4 \<Longrightarrow> m y = 0) \<Longrightarrow> rd32 m a = 0"
  by (simp add: rd32_def gbit32_def)

lemma hdr_zeroed:
  assumes "fst c + 8 < 2 ^ 32" "\<And>y. unat y \<in> {fst c..<fst c + 8} \<Longrightarrow> m y = 0"
  shows "hdr m c"
proof -
  let ?a = "word_of_nat (fst c) :: u32"
  have a: "unat ?a = fst c"
    using assms(1) by (simp add: unat_of_nat)
  then have a4: "unat (?a + 4) = fst c + 4"
    using assms(1) unat_add_ok [of ?a 4] by simp
  have "rd32 m (?a + 4) = 0"
    using assms in_range [of "?a + 4" 4] a4 by (intro rd32_zero) auto
  then show ?thesis
    by (simp add: hdr_def)
qed

lemma alloc_memory:
  assumes "unat p + unat n + 8 < 2 ^ 32" "16 \<le> unat n"
    "m' = wr32 (wr32 (if zero then memzero m (p + 8) n else m) (p + 4) Magichole) p n"
  shows "unat y \<notin> {unat p..<unat p + unat n + 8} \<Longrightarrow> m' y = m y"
    "unat y \<in> {unat p + unat n..<unat p + unat n + 8} \<Longrightarrow> m' y = (if zero then 0 else m y)"
    "unat y \<in> {unat p + 8..<unat p + unat n} \<Longrightarrow> zero \<Longrightarrow> m' y = 0"
    "hdr m' (unat p, unat n)"
proof -
  have u: "unat (p + 8) = unat p + 8" "unat (p + 4) = unat p + 4"
    using assms(1,2) unat_add_ok [of p 8] unat_add_ok [of p 4] by simp_all
  have w: "wr32 (wr32 m1 (p + 4) v) p n y = m1 y" if "unat y \<notin> {unat p..<unat p + 8}" for m1 v y
  proof -
    have "unat y \<notin> hrange p 4" "unat y \<notin> hrange (p + 4) 4"
      using that u by auto
    then show ?thesis
      using u assms(1,2) by (simp add: wr32_outside)
  qed
  have z: "memzero m (p + 8) n y = (if unat y \<in> {unat p + 8..<unat p + 8 + unat n} then 0 else m y)" for y
    using memzero_in [of "p + 8" n m y] u assms(1) by simp
  show "unat y \<notin> {unat p..<unat p + unat n + 8} \<Longrightarrow> m' y = m y"
    using w z assms by auto
  show "unat y \<in> {unat p + unat n..<unat p + unat n + 8} \<Longrightarrow> m' y = (if zero then 0 else m y)"
    using w z assms by auto
  show "unat y \<in> {unat p + 8..<unat p + unat n} \<Longrightarrow> zero \<Longrightarrow> m' y = 0"
    using w z assms by auto
  have "rd32 m' (p + 4) = Magichole"
    unfolding assms(3) using u assms(1,2) by (subst rd32_outside [where m = "wr32 (if zero then memzero m (p + 8) n else m) (p + 4) Magichole"])
      (auto simp: wr32_outside)
  then show "hdr m' (unat p, unat n)"
    unfolding hdr_def by (simp add: assms(3))
qed

lemma chunk_bound: "chunk_ok c \<Longrightarrow> fst c + snd c + 8 < 2 ^ 32 \<and> fst c + 8 < 2 ^ 32"
  using pool_bounds [of c] by (auto simp: chunk_ok_def)

text \<open>Filling one chunk leaves the header of every other intact, or zeroes it.\<close>

lemma fill_hdr:
  assumes c: "chunk_ok (unat p, unat n)" and d: "chunk_ok d" "span (unat p, unat n) \<inter> span d = {}" "hdr m d"
  shows "hdr (xfill m p n zero) d"
proof -
  have ok: "8 dvd fst d" "16 \<le> snd d" "8 dvd unat p" "8 dvd unat n" "16 \<le> unat n"
    using c d(1) by (simp_all add: chunk_ok_def)
  have top: "unat p + unat n + 8 < 2 ^ 32" using chunk_bound [OF c] by simp
  have lt: "fst d + 8 < 2 ^ 32" using chunk_bound [OF d(1)] by simp
  have "xfill m p n zero = wr32 (wr32 (if zero then memzero m (p + 8) n else m) (p + 4) Magichole) p n"
    by (simp add: xfill_def Let_def datoff_def)
  note mem = alloc_memory [OF top ok(5) this]
  have sides: "fst d + snd d \<le> unat p \<or> unat p + unat n \<le> fst d"
    using d(2) ok(2,5) by (auto simp: ivl_disj_un)
  show ?thesis
  proof (cases "fst d = unat p + unat n \<and> zero")
    case True
    then show ?thesis
      using lt mem(2) by (intro hdr_zeroed) auto
  next
    case False
    have "unat p + unat n + 8 \<le> fst d" if "unat p + unat n < fst d"
    proof -
      have "8 dvd fst d - (unat p + unat n)"
        using ok(1,3,4) by (intro dvd_diff_nat dvd_add)
      from dvd_imp_le [OF this] that show ?thesis
        by simp
    qed
    then show ?thesis
      using False sides ok(2) mem(1,2) by (intro hdr_kept [OF d(3) lt]) (cases zero; force)
  qed
qed

lemma fill_own: "chunk_ok (unat p, unat n) \<Longrightarrow> hdr (xfill m p n zero) (unat p, unat n)"
  using chunk_bound [of "(unat p, unat n)"] by (intro alloc_memory(4) [where zero = zero and m = m])
    (simp_all add: chunk_ok_def xfill_def Let_def datoff_def)

lemma take_step_ok:
  assumes "xsys_ok (x, m, L, P)" "xtake x (xsize sz) = Some (p, x')" "unat sz + 20 < 2 ^ 32" "c = (unat p, unat (xsize sz))"
  shows "xsys_ok (x', m, insert c L, insert c P)"
proof -
  have used: "xheap.used_ok x L" and pool: "x_free x \<subseteq> pool" and al: "list_all hole_al (xtable x)" and L: "\<forall>c \<in> L. chunk_ok c"
    and P: "P \<subseteq> L" and H: "\<forall>c \<in> L - P. hdr m c"
    using assms(1) by simp_all
  let ?n = "xsize sz"
  have inv: "x_inv x"
    using used by (simp add: xheap.used_ok_def)
  note b = xsize_bounds [OF assms(3)] and k = xtake_ok [OF inv assms(3,2)]
  have xa: "x_alloc x c x'"
    using assms(2-4) unfolding x_alloc_def by blast
  obtain t f where t: "take_hole ?n (xtable x) = Some (p, t, f)" "xtable x' = t"
    using assms(2) by (auto simp: xtake_def)
  have al': "list_all hole_al (xtable x')" "8 dvd unat p"
    using take_hole_al [OF al b(1) t(1)] t(2) by auto
  have cp: "span c \<subseteq> pool"
    using k pool assms(4) by auto
  have n16: "16 \<le> unat ?n"
    using b(1,2) by (auto simp: dvd_def)
  have "chunk_ok c"
    using cp assms(4) al'(2) b(1) n16 by (simp add: chunk_ok_def)
  moreover have "x_free x' \<subseteq> pool" using k pool by auto
  moreover have "insert c L - insert c P \<subseteq> L - P" by blast
  ultimately show ?thesis
    using xheap.used_alloc(1) [OF used xa] al'(1) L P H by auto
qed

lemma fill_step_ok:
  assumes "xsys_ok (x, m, L, P)" "(unat p, unat n) \<in> P"
  shows "xsys_ok (x, xfill m p n zero, L, P - {(unat p, unat n)})"
proof -
  have L: "\<forall>c \<in> L. chunk_ok c" and P: "P \<subseteq> L" and H: "\<forall>c \<in> L - P. hdr m c" and ap: "apart L"
    using assms(1) by (simp_all add: xheap.used_ok_def)
  let ?c = "(unat p, unat n)"
  have c: "?c \<in> L" "chunk_ok ?c" using assms(2) L P by auto
  have "hdr (xfill m p n zero) d" if "d \<in> L - (P - {?c})" for d
  proof (cases "d = ?c")
    case True
    then show ?thesis using fill_own [OF c(2)] by simp
  next
    case False
    then have "d \<in> L" "hdr m d" using that H by auto
    moreover have "span ?c \<inter> span d = {}" using ap c(1) \<open>d \<in> L\<close> False unfolding apart_def by blast
    ultimately show ?thesis using fill_hdr [OF c(2)] L by blast
  qed
  then show ?thesis using assms(1) by auto
qed

lemma free_step_ok:
  assumes "xsys_ok (x, m, L, P)" "xfree x m (a + datoff) = Inr x'" "(unat a, n) \<in> L - P"
  shows "xsys_ok (x', m, L - {(unat a, n)}, P)"
proof -
  have used: "xheap.used_ok x L" and pool: "x_free x \<subseteq> pool" and al: "list_all hole_al (xtable x)" and L: "\<forall>c \<in> L. chunk_ok c"
    and P: "P \<subseteq> L" and H: "\<forall>c \<in> L - P. hdr m c"
    using assms(1) by simp_all
  have c: "chunk_ok (unat a, n)" "hdr m (unat a, n)" "(unat a, n) \<in> L"
    using L H assms(3) by auto
  then have ok: "span (unat a, n) \<subseteq> pool" "8 dvd unat a" "8 dvd n" "16 \<le> n"
    by (simp_all add: chunk_ok_def)
  have lt: "unat a + n < 2 ^ 32"
    using chunk_bound [OF c(1)] by simp
  have magic: "rd32 m (a + 4) = Magichole" "x' = xhole x a (rd32 m a)"
    using assms(2) by (auto simp: xfree_def datoff_def Let_def split: if_splits)
  then have n: "rd32 m a = word_of_nat n" "unat (word_of_nat n :: u32) = n"
    using c(2) lt by (auto simp: hdr_def Magichole_def unat_of_nat)
  then have rel: "x_release x (unat a, n) x'"
    using magic(2) lt unfolding x_release_def by (intro exI [of _ a] exI [of _ "word_of_nat n"]) simp
  have "list_all hole_al (xtable x')"
    using put_hole_al [OF al ok(2), of "word_of_nat n"] n ok(3) al magic(2) by (simp add: xhole_def case_prod_unfold Let_def)
  moreover have "x_free x' \<subseteq> pool"
  proof -
    have inv: "x_inv x" and disj: "\<forall>c \<in> L. span c \<inter> x_free x = {}"
      using used by (simp_all add: xheap.used_ok_def)
    from xheap.release [OF inv bspec [OF disj c(3)] rel] have "x_free x' \<subseteq> x_free x \<union> span (unat a, n)"
      by (rule conjunct2)
    then show ?thesis
      using pool ok(1) by (meson Un_least subset_trans)
  qed
  moreover have "P \<subseteq> L - {(unat a, n)}" using P assms(3) by blast
  ultimately show ?thesis
    using xheap.used_release [OF used c(3) rel] L H by simp
qed

lemma write_hdr:
  assumes "chunk_ok d" "c = d \<or> span c \<inter> span d = {}" "hdr m d" "chunk_ok c"
    "\<And>y. unat y \<notin> {fst c + 8..<fst c + snd c} \<Longrightarrow> m' y = m y"
  shows "hdr m' d"
proof -
  have lt: "fst d + 8 < 2 ^ 32" "16 \<le> snd d"
    using assms(1) chunk_bound [OF assms(1)] by (auto simp: chunk_ok_def)
  have sub: "{fst d..<fst d + 8} \<subseteq> span d" "{fst c + 8..<fst c + snd c} \<subseteq> span c"
    using lt(2) by auto
  have "{fst d..<fst d + 8} \<inter> {fst c + 8..<fst c + snd c} = {}"
  proof (cases "c = d")
    case False
    with assms(2) sub show ?thesis by blast
  qed auto
  then have same: "unat y \<in> {fst d..<fst d + 8} \<Longrightarrow> m' y = m y" for y
    using assms(5) by blast
  show ?thesis
    by (rule hdr_kept [OF assms(3) lt(1) same])
qed

lemma xstep_ok:
  assumes "xsys_ok s" "xstep s e s'"
  shows "xsys_ok s'"
  using assms(2,1)
proof (induction rule: xstep.induct)
  case (Xs_take x sz p x' c m L P)
  then show ?case using take_step_ok by blast
next
  case (Xs_fill p n P m' m zero x L)
  then show ?case using fill_step_ok by blast
next
  case (Xs_free x m a x' n L P)
  then show ?case using free_step_ok by blast
next
  case (Xs_write c L P m' m x)
  then have used: "apart L" and L: "\<forall>c \<in> L. chunk_ok c" and H: "\<forall>c \<in> L - P. hdr m c" and c: "c \<in> L"
    by (simp_all add: xheap.used_ok_def)
  have "hdr m' d" if "d \<in> L - P" for d
  proof (rule write_hdr [OF _ _ _ _ Xs_write.hyps(2)])
    show "c = d \<or> span c \<inter> span d = {}" using used c that unfolding apart_def by blast
  qed (use L H c that in auto)
  with Xs_write.prems show ?case by simp
qed

subsection \<open>Properties\<close>

definition x0 :: Xalloc where
  "x0 = \<lparr>xflist = [1..<Nhole], xtable = [\<lparr>h_id = 0, h_addr = XMAP_LADDR, h_size = 0x400000, h_top = XMAP_LADDR + 0x400000\<rparr>]\<rparr>"

lemma upt_Nhole: "[0..<Nhole] = 0 # [1..<Nhole]"
proof -
  have "0 < Nhole"
    by (simp add: Nhole_def)
  from upt_conv_Cons [OF this] show ?thesis
    by (simp only: One_nat_def)
qed

lemma xinit_x0: "xinit mapped = (\<not> mapped, x0)"
  unfolding xinit_def upt_Nhole x0_def xhole_def
  by (simp add: new_hole_def XMAP_LOG2SIZE_def push_bit_eq_mult)

lemma x0_ok: "xsys_ok (x0, m, {}, {})"
proof -
  have "mset (xflist x0) + mset (map h_id (xtable x0)) = mset [0..<Nhole]"
    unfolding upt_Nhole x0_def by simp
  moreover have "holes_from 0 (xtable x0)" "list_all hole_al (xtable x0)" "x_free x0 \<subseteq> pool"
    by (simp_all add: x0_def hole_ok_def hole_al_def XMAP_LADDR_def x_free_def pool_def XMAP_LOG2SIZE_def)
  ultimately show ?thesis
    by (simp only: xsys_ok.simps xheap.used_ok_def x_inv_def apart_def ball_empty simp_thms empty_subsetI Diff_empty)
qed

lemma xsize_100: "xsize 100 = 120"
  by code_simp

lemma alloc_100:
  "\<exists>x' m'. xallocz x0 m 100 True = (XMAP_LADDR + 8, x', m')"
  by (simp add: xallocz_eq xsize_100 x0_def datoff_def Let_def)

text \<open>C26: the kernel allocator never hands out memory twice. From \<open>xinit\<close> on, whatever is allocated with \<open>xallocz\<close> in requests of less than
  \<open>2^32 - 20\<close> bytes, released with \<open>xfree\<close> and written by its owner, with any number of calls of \<open>xallocz\<close> still to clear and mark
  the chunk they took, the chunks in use lie in the pool and do not overlap each other or any hole, the
  table of holes is sorted with its \<open>top\<close> fields right, no hole structure is lost, and the header of a chunk that was
  handed out is intact or has a zero magic number, for which \<open>xfree\<close> panics.\<close>

theorem xalloc_disjoint:
  assumes "runs xstep (snd (xinit mapped), m, {}, {}) es (x', m', L, P)"
  shows "apart L \<and> (\<forall>c \<in> L. span c \<subseteq> pool \<and> span c \<inter> x_free x' = {}) \<and> (\<forall>c \<in> L - P. hdr m' c) \<and> x_inv x' \<and> x_free x' \<subseteq> pool"
proof -
  have "xsys_ok (snd (xinit mapped), m, {}, {})"
    unfolding xinit_x0 snd_conv by (rule x0_ok)
  with assms have "xsys_ok (x', m', L, P)"
    by (rule runs_invariant [where I = xsys_ok and step = xstep, rotated]) (rule xstep_ok)
  then show ?thesis
    by (auto simp: xheap.used_ok_def chunk_ok_def)
qed

theorem xalloc_disjoint_witness:
  "\<exists>x' m'. runs xstep (snd (xinit True), \<lambda>_. 0, {}, {}) [Alloc (unat XMAP_LADDR, 120), Fill (unat XMAP_LADDR, 120)]
      (x', m', {(unat XMAP_LADDR, 120)}, {})
     \<and> span (unat XMAP_LADDR, 120) \<inter> x_free x' = {} \<and> hdr m' (unat XMAP_LADDR, 120)"
proof -
  let ?c = "(unat XMAP_LADDR, 120)" and ?m = "xfill (\<lambda>_. 0) XMAP_LADDR 120 True"
  obtain x' where a: "xtake x0 (xsize 100) = Some (XMAP_LADDR, x')"
    by (simp add: xtake_def xsize_100 x0_def Let_def)
  have "xstep (x0, \<lambda>_. 0, {}, {}) (Alloc ?c) (x', \<lambda>_. 0, {?c}, {?c})"
    using Xs_take [OF a _ refl, of "\<lambda>_. 0" "{}" "{}"] by (simp add: xsize_100)
  moreover have "xstep (x', \<lambda>_. 0, {?c}, {?c}) (Fill ?c) (x', ?m, {?c}, {})"
    using Xs_fill [of XMAP_LADDR 120 "{?c}" ?m "\<lambda>_. 0" True x' "{?c}"] by simp
  ultimately have r: "runs xstep (snd (xinit True), \<lambda>_. 0, {}, {}) [Alloc ?c, Fill ?c] (x', ?m, {?c}, {})"
    unfolding xinit_x0 snd_conv by (blast intro: runs.intros)
  from xalloc_disjoint [OF r] r show ?thesis
    by blast
qed



text \<open>C28: zeroing a chunk destroys the header of the next one. \<open>xallocz\<close> clears \<open>size\<close> bytes from \<open>data\<close> on, eight more than the chunk
  has; when it reuses a hole of exactly its size that lies before a chunk in use, the
  owner of that chunk can never release it: \<open>xfree\<close> panics.\<close>

theorem xallocz_clobbers:
  assumes "x_inv x" "unat sz + 20 < 2 ^ 32" "xallocz x m sz True = (r, x', m')" "r \<noteq> 0" "x_free x \<subseteq> pool"
    "p = r - 8 + xsize sz"
  shows "xfree x' m' (p + datoff) = Inl Epanic"
proof -
  note b = xsize_bounds [OF assms(2)]
  let ?n = "xsize sz"
  from xallocz_ok [OF assms(1-3)] assms(4) obtain a where a: "r = a + 8"
    "unat a + unat ?n < 2 ^ 32" "hrange a ?n \<subseteq> x_free x"
    "m' = wr32 (wr32 (if True then memzero m (a + 8) ?n else m) (a + 4) Magichole) a ?n"
    by auto
  have n16: "16 \<le> unat ?n"
    using b(1,2) by (auto simp: dvd_def)
  have top: "unat a + unat ?n + 8 < 2 ^ 32"
    using pool_bounds [of "(unat a, unat ?n)"] subset_trans [OF a(3) assms(5)] n16 by simp
  have p: "p = a + ?n" "unat p = unat a + unat ?n"
    using assms(6) a(1,2) by (simp_all add: unat_add_ok)
  have "unat (p + 4) = unat p + 4"
    using p(2) top unat_add_ok [of p 4] by simp
  then have "rd32 m' (p + 4) = 0"
    using alloc_memory(2) [OF top n16 a(4)] in_range [of "p + 4" 4] p(2) top by (intro rd32_zero) auto
  then show ?thesis
    by (simp add: xfree_def datoff_def Magichole_def)
qed

theorem xallocz_clobbers_witness:
  "\<exists>x' m'. xallocz x0 (\<lambda>_. 1) 100 True = (XMAP_LADDR + 8, x', m') \<and> xfree x' m' (XMAP_LADDR + 120 + datoff) = Inl Epanic"
proof -
  obtain x' m' where a: "xallocz x0 (\<lambda>_. 1) 100 True = (XMAP_LADDR + 8, x', m')"
    using alloc_100 by blast
  have x: "x_inv x0" "x_free x0 \<subseteq> pool"
    using x0_ok [of "\<lambda>_. 0"] by (simp_all add: xheap.used_ok_def)
  have "unat (100 :: u32) + 20 < 2 ^ 32" "XMAP_LADDR + 8 \<noteq> 0" "XMAP_LADDR + 120 = XMAP_LADDR + 8 - 8 + xsize 100"
    by (simp_all add: xsize_100 XMAP_LADDR_def)
  from xallocz_clobbers [OF x(1) this(1) a this(2) x(2) this(3)] a show ?thesis
    by blast
qed

text \<open>C29: the size wraps. A request of almost 4 gigabytes is rounded to a chunk of 16 bytes, which \<open>xallocz\<close>
  returns instead of nil.\<close>

theorem xallocz_size_wraps:
  assumes "xtable x = h # hs" "16 \<le> h_size h" "h_addr h + 8 \<noteq> 0"
  shows "fst (xallocz x m 0xFFFFFFFC zero) = h_addr h + 8 \<and> xsize 0xFFFFFFFC = 16"
proof -
  have n: "xsize 0xFFFFFFFC = 16"
    by code_simp
  then have "take_hole 16 (xtable x) \<noteq> None" "map_option fst (take_hole 16 (xtable x)) = Some (h_addr h)"
    using assms by (simp_all add: Let_def)
  then show ?thesis
    by (auto simp: xallocz_eq n datoff_def Let_def)
qed

theorem xallocz_size_wraps_witness:
  "fst (xallocz x0 (\<lambda>_. 0) 0xFFFFFFFC False) = XMAP_LADDR + 8"
  using xallocz_size_wraps [of x0 "\<lparr>h_id = 0, h_addr = XMAP_LADDR, h_size = 0x400000, h_top = XMAP_LADDR + 0x400000\<rparr>" "[]" "\<lambda>_. 0" False]
  by (simp add: x0_def XMAP_LADDR_def)

end
