(* ===== verification/Runes.thy ===== *)
theory Runes
  imports Prelude
begin

text \<open>
  UTF-8 in the C library: \<open>libc/port/rune.c\<close> and the string functions built on it (\<open>utflen\<close>,
  \<open>utfnlen\<close>, \<open>utfrune\<close>, \<open>utfrrune\<close>, \<open>utfecpy\<close>, \<open>strchr\<close>, \<open>strrchr\<close>, \<open>memccpy\<close>, \<open>strecpy\<close>,
  \<open>runestrchr\<close>, \<open>runestrlen\<close>).  A \<open>Rune\<close> is an unsigned short, so an encoding has at most three bytes.

  A \<open>char*\<close> is the list of bytes from the pointer to the end of the buffer; a read past that end is
  \<open>Efault\<close>.  The arithmetic of the C code, on \<open>int\<close> and \<open>long\<close>, is on \<open>32 word\<close>.  Loops that advance by
  what \<open>chartorune\<close> returned are recursive in the rest of the string; \<open>chartorune_count\<close> makes them end.

  The proofs describe the bytes bit by bit (\<open>bit_rune2\<close>, \<open>bit_rune3\<close>, \<open>bit_enc\<close>) and then reason by the
  three forms of an encoding (\<open>chartorune_cases\<close>, \<open>runetochar_cases\<close>, \<open>runetochar_shape\<close>).  \<open>enc\<close> is
  the encoding of a sequence of runes, the abstraction the string functions are specified on.
\<close>

subsection \<open>Constants\<close>

definition Rune1 :: u32 where "Rune1 = 0x7F"
definition Rune2 :: u32 where "Rune2 = 0x7FF"
definition Rune3 :: u32 where "Rune3 = 0xFFFF"
definition Tx :: u32 where "Tx = 0x80"
definition T2 :: u32 where "T2 = 0xC0"
definition T3 :: u32 where "T3 = 0xE0"
definition T4 :: u32 where "T4 = 0xF0"
definition Maskx :: u32 where "Maskx = 0x3F"
definition Testx :: u32 where "Testx = 0xC0"
definition Runeerror :: u16 where "Runeerror = 0xFFFD"
definition Runeself :: u32 where "Runeself = 0x80"
definition Runesync :: u32 where "Runesync = 0x80"


subsection \<open>Runes\<close>

text \<open>The byte at \<open>str+i\<close>; a string is the list of bytes from its pointer to the end of its buffer.\<close>

definition rb :: "'a list \<Rightarrow> nat \<Rightarrow> 'a outcome" where
  "rb s i = (if i < length s then Inr (s ! i) else Inl Efault)"

text \<open>The rune and the count.\<close>

definition chartorune :: "byte list \<Rightarrow> (u16 \<times> nat) outcome" where
  "chartorune str =
    andthen (rb str 0) (\<lambda>b.
      let c = ucast b :: u32; bad = Inr (Runeerror, 1) in
      if c < Tx then Inr (ucast c, 1)
      else andthen (rb str 1) (\<lambda>b1.
        let c1 = ucast b1 XOR Tx in
        if c1 AND Testx \<noteq> 0 then bad
        else if c < T3 then
          (if c < T2 then bad
           else let l = (push_bit 6 c OR c1) AND Rune2 in
             if l \<le> Rune1 then bad else Inr (ucast l, 2))
        else andthen (rb str 2) (\<lambda>b2.
          let c2 = ucast b2 XOR Tx in
          if c2 AND Testx \<noteq> 0 then bad
          else if c < T4 then
            (let l = (push_bit 6 (push_bit 6 c OR c1) OR c2) AND Rune3 in
             if l \<le> Rune2 then bad else Inr (ucast l, 3))
          else bad)))"

text \<open>The bytes written to \<open>str\<close>; their number is the result.\<close>

definition runetochar :: "u16 \<Rightarrow> byte list" where
  "runetochar r =
    (let c = ucast r :: u32 in
     if c \<le> Rune1 then [ucast c]
     else if c \<le> Rune2 then [ucast (T2 OR drop_bit 6 c), ucast (Tx OR (c AND Maskx))]
     else [ucast (T3 OR drop_bit 12 c), ucast (Tx OR (drop_bit 6 c AND Maskx)), ucast (Tx OR (c AND Maskx))])"

definition runelen :: "u32 \<Rightarrow> nat" where
  "runelen c = length (runetochar (ucast c))"

primrec runenlen :: "u16 list \<Rightarrow> nat" where
  "runenlen [] = 0"
| "runenlen (r # rs) =
    (let c = ucast r :: u32 in if c \<le> Rune1 then 1 else if c \<le> Rune2 then 2 else 3) + runenlen rs"

definition fullrune :: "byte list \<Rightarrow> int \<Rightarrow> bool outcome" where
  "fullrune str n =
    (if n > 0 then andthen (rb str 0) (\<lambda>b.
       let c = ucast b :: u32 in
       Inr (c < Tx \<or> n > 1 \<and> (c < T3 \<or> n > 2)))
     else Inr False)"


subsection \<open>Strings\<close>

text \<open>\<open>strchr\<close> and \<open>runestrchr\<close>: the index, or nil.\<close>

primrec chr_nul :: "'a::zero list \<Rightarrow> nat outcome" where
  "chr_nul [] = Inl Efault"
| "chr_nul (x # xs) = (if x = 0 then Inr 0 else andthen (chr_nul xs) (\<lambda>i. Inr (Suc i)))"

primrec chr_loop :: "'a::zero \<Rightarrow> 'a list \<Rightarrow> nat option outcome" where
  "chr_loop c0 [] = Inl Efault"
| "chr_loop c0 (x # xs) =
    (if x = 0 then Inr None
     else if x = c0 then Inr (Some 0)
     else andthen (chr_loop c0 xs) (\<lambda>i. Inr (map_option Suc i)))"

definition strchr :: "byte list \<Rightarrow> u32 \<Rightarrow> nat option outcome" where
  "strchr s c = (if c = 0 then andthen (chr_nul s) (\<lambda>i. Inr (Some i)) else chr_loop (ucast c) s)"

definition runestrchr :: "u16 list \<Rightarrow> u16 \<Rightarrow> nat option outcome" where
  "runestrchr s c = (if c = 0 then andthen (chr_nul s) (\<lambda>i. Inr (Some i)) else chr_loop c s)"

definition runestrlen :: "u16 list \<Rightarrow> nat outcome" where
  "runestrlen s = andthen (runestrchr s 0) (\<lambda>p. case p of None \<Rightarrow> Inl Efault | Some i \<Rightarrow> Inr i)"

lemma chartorune_count: "chartorune s = Inr (r, n) \<Longrightarrow> 1 \<le> n \<and> n \<le> length s"
  by (auto simp: chartorune_def andthen_eq_Inr rb_def Let_def Suc_le_eq split: if_splits)

function utflen :: "byte list \<Rightarrow> nat outcome" where
  "utflen s =
    andthen (rb s 0) (\<lambda>b.
      let c = ucast b :: u32 in
      if c < Runeself then
        (if c = 0 then Inr 0 else andthen (utflen (drop 1 s)) (\<lambda>n. Inr (Suc n)))
      else andthen (chartorune s) (\<lambda>(r, k). andthen (utflen (drop k s)) (\<lambda>n. Inr (Suc n))))"
  by pat_completeness auto
termination
  by (relation "measure length") (auto simp: rb_def split: if_splits dest!: chartorune_count)

text \<open>\<open>m\<close> is \<open>es-s\<close>.\<close>

function utfnlen :: "byte list \<Rightarrow> int \<Rightarrow> nat outcome" where
  "utfnlen s m =
    (if m \<le> 0 then Inr 0
     else andthen (rb s 0) (\<lambda>b.
       let c = ucast b :: u32 in
       if c < Runeself then
         (if c = 0 then Inr 0 else andthen (utfnlen (drop 1 s) (m - 1)) (\<lambda>n. Inr (Suc n)))
       else andthen (fullrune s m) (\<lambda>full.
         if \<not> full then Inr 0
         else andthen (chartorune s) (\<lambda>(r, k). andthen (utfnlen (drop k s) (m - int k)) (\<lambda>n. Inr (Suc n))))))"
  by pat_completeness auto
termination
  by (relation "measure (\<lambda>(s, m). length s)") (auto simp: rb_def split: if_splits dest!: chartorune_count)

text \<open>The search for a rune: the index at which it starts.\<close>

function utfrune_loop :: "u32 \<Rightarrow> byte list \<Rightarrow> nat option outcome" where
  "utfrune_loop c s =
    andthen (rb s 0) (\<lambda>b.
      let c1 = ucast b :: u32 in
      if c1 < Runeself then
        (if c1 = 0 then Inr None
         else if c1 = c then Inr (Some 0)
         else andthen (utfrune_loop c (drop 1 s)) (\<lambda>i. Inr (map_option Suc i)))
      else andthen (chartorune s) (\<lambda>(r, n).
        if ucast r = c then Inr (Some 0)
        else andthen (utfrune_loop c (drop n s)) (\<lambda>i. Inr (map_option (\<lambda>i. n + i) i))))"
  by pat_completeness auto
termination
  by (relation "measure (\<lambda>(c, s). length s)") (auto simp: rb_def split: if_splits dest!: chartorune_count)

text \<open>\<open>c\<close> is a \<open>long\<close> and compared with its sign.\<close>

definition utfrune :: "byte list \<Rightarrow> u32 \<Rightarrow> nat option outcome" where
  "utfrune s c = (if sint c < sint Runesync then strchr s c else utfrune_loop c s)"

text \<open>The searches from the right keep the last match, as an index \<open>p\<close> into the whole string.\<close>

lemma chr_loop_bound: "chr_loop c s = Inr (Some i) \<Longrightarrow> i < length s"
  by (induction s arbitrary: i) (auto simp: andthen_eq_Inr split: if_splits)

lemma chr_nul_bound: "chr_nul s = Inr i \<Longrightarrow> i < length s"
  by (induction s arbitrary: i) (auto simp: andthen_eq_Inr split: if_splits)

lemma strchr_bound: "strchr s c = Inr (Some i) \<Longrightarrow> i < length s"
  by (auto simp: strchr_def andthen_eq_Inr dest: chr_nul_bound chr_loop_bound split: if_splits)

function strrchr_loop :: "u32 \<Rightarrow> byte list \<Rightarrow> nat \<Rightarrow> nat option \<Rightarrow> nat option outcome" where
  "strrchr_loop c s p r =
    andthen (strchr s c) (\<lambda>q. case q of
      None \<Rightarrow> Inr r
    | Some i \<Rightarrow> strrchr_loop c (drop (i + 1) s) (p + i + 1) (Some (p + i)))"
  by pat_completeness auto
termination
  by (relation "measure (\<lambda>(c, s, p, r). length s)") (auto dest: strchr_bound)

definition strrchr :: "byte list \<Rightarrow> u32 \<Rightarrow> nat option outcome" where
  "strrchr s c = (if c = 0 then strchr s 0 else strrchr_loop c s 0 None)"

function utfrrune_loop :: "u32 \<Rightarrow> byte list \<Rightarrow> nat \<Rightarrow> nat option \<Rightarrow> nat option outcome" where
  "utfrrune_loop c s p s1 =
    andthen (rb s 0) (\<lambda>b.
      let c1 = ucast b :: u32 in
      if c1 < Runeself then
        (if c1 = 0 then Inr s1
         else utfrrune_loop c (drop 1 s) (p + 1) (if c1 = c then Some p else s1))
      else andthen (chartorune s) (\<lambda>(r, n).
        utfrrune_loop c (drop n s) (p + n) (if ucast r = c then Some p else s1)))"
  by pat_completeness auto
termination
  by (relation "measure (\<lambda>(c, s, p, s1). length s)") (auto simp: rb_def split: if_splits dest!: chartorune_count)

definition utfrrune :: "byte list \<Rightarrow> u32 \<Rightarrow> nat option outcome" where
  "utfrrune s c = (if sint c < sint Runesync then strrchr s c else utfrrune_loop c s 0 None)"

text \<open>\<open>memccpy\<close> into the buffer \<open>to\<close>: the buffer, and the index after the byte found.\<close>

primrec memccpy_loop :: "byte list \<Rightarrow> nat \<Rightarrow> byte list \<Rightarrow> byte \<Rightarrow> nat \<Rightarrow> (byte list \<times> nat option) outcome" where
  "memccpy_loop to i from c 0 = Inr (to, None)"
| "memccpy_loop to i from c (Suc n) =
    (case from of
       [] \<Rightarrow> Inl Efault
     | b # from1 \<Rightarrow>
         if i < length to then
           (if b = c then Inr (to[i := b], Some (Suc i)) else memccpy_loop (to[i := b]) (Suc i) from1 c n)
         else Inl Efault)"

definition memccpy :: "byte list \<Rightarrow> byte list \<Rightarrow> u32 \<Rightarrow> nat \<Rightarrow> (byte list \<times> nat option) outcome" where
  "memccpy to from c n = memccpy_loop to 0 from (ucast (c AND 0xFF)) n"

text \<open>The loop of \<open>utfecpy\<close> that backs over the continuation bytes, from \<open>end\<close> down to \<open>to\<close>.\<close>

primrec back_up :: "byte list \<Rightarrow> nat \<Rightarrow> nat" where
  "back_up to 0 = 0"
| "back_up to (Suc e) = (if to ! e AND 0xC0 = 0x80 then back_up to e else e)"

text \<open>\<open>to\<close> is the buffer from \<open>to\<close> on and \<open>e\<close> the index of its end.\<close>

definition utfecpy :: "byte list \<Rightarrow> nat \<Rightarrow> byte list \<Rightarrow> (byte list \<times> nat) outcome" where
  "utfecpy to e from =
    (if e = 0 then Inr (to, 0)
     else andthen (memccpy to from 0 e) (\<lambda>(to1, end).
       case end of
         None \<Rightarrow> (let k = back_up to1 (e - 1) in Inr (to1[k := 0], k))
       | Some i \<Rightarrow> Inr (to1, i - 1)))"

definition strecpy :: "byte list \<Rightarrow> nat \<Rightarrow> byte list \<Rightarrow> (byte list \<times> nat) outcome" where
  "strecpy to e from =
    (if e = 0 then Inr (to, 0)
     else andthen (memccpy to from 0 e) (\<lambda>(to1, end).
       case end of
         None \<Rightarrow> Inr (to1[e - 1 := 0], e - 1)
       | Some i \<Rightarrow> Inr (to1, i - 1)))"

declare utflen.simps [simp del] utfnlen.simps [simp del] utfrune_loop.simps [simp del] utfrrune_loop.simps [simp del] strrchr_loop.simps [simp del]

text \<open>The ranges of the first byte, by its four high bits.\<close>

lemma nibble_bits:
  "\<forall>v\<in>set [0..<16]. (v < 8 \<longleftrightarrow> \<not> odd (v div 8)) \<and>
     (v < 12 \<longleftrightarrow> \<not> (odd (v div 8) \<and> odd (v div 4))) \<and>
     (v < 14 \<longleftrightarrow> \<not> (odd (v div 8) \<and> odd (v div 4) \<and> odd (v div 2))) \<and>
     (v < (15::nat) \<longleftrightarrow> \<not> (odd (v div 8) \<and> odd (v div 4) \<and> odd (v div 2) \<and> odd v))"
  by code_simp

lemma byte_bit_div: "bit (b::byte) k \<longleftrightarrow> odd (unat b div 2 ^ k)"
  by (simp add: bit_iff_odd [symmetric] bit_unsigned_iff)

lemma unat_byte: "unat (b::byte) < 256"
  using unsigned_less [of b, where 'a = nat] by simp

lemma byte_less: "(ucast (b::byte) :: u32) < numeral n \<longleftrightarrow> unat b < unat (numeral n :: u32)"
proof -
  have "unat (ucast b :: u32) = unat b"
    using unat_byte [of b] by (simp add: unsigned_ucast_eq take_bit_nat_eq_self_iff)
  then show ?thesis by (simp only: word_less_nat_alt)
qed

lemma lead_nibble:
  fixes b :: byte
  defines "v \<equiv> unat b div 16"
  shows "v \<in> set [0..<16]"
    "bit b 7 \<longleftrightarrow> odd (v div 8)" "bit b 6 \<longleftrightarrow> odd (v div 4)" "bit b 5 \<longleftrightarrow> odd (v div 2)" "bit b 4 \<longleftrightarrow> odd v"
    "(ucast b :: u32) < Tx \<longleftrightarrow> v < 8" "(ucast b :: u32) < T2 \<longleftrightarrow> v < 12"
    "(ucast b :: u32) < T3 \<longleftrightarrow> v < 14" "(ucast b :: u32) < T4 \<longleftrightarrow> v < 15"
proof -
  show "v \<in> set [0..<16]" using unat_byte [of b] by (simp add: v_def div_less_iff_less_mult)
  have d: "v div 8 = unat b div 2 ^ 7" "v div 4 = unat b div 2 ^ 6" "v div 2 = unat b div 2 ^ 5" "v = unat b div 2 ^ 4"
    by (simp_all add: v_def div_mult2_eq [symmetric])
  show "bit b 7 \<longleftrightarrow> odd (v div 8)" "bit b 6 \<longleftrightarrow> odd (v div 4)" "bit b 5 \<longleftrightarrow> odd (v div 2)" "bit b 4 \<longleftrightarrow> odd v"
    unfolding byte_bit_div d(1,2,3) by (simp_all only: d(4) [symmetric])
  show "(ucast b :: u32) < Tx \<longleftrightarrow> v < 8" "(ucast b :: u32) < T2 \<longleftrightarrow> v < 12"
    "(ucast b :: u32) < T3 \<longleftrightarrow> v < 14" "(ucast b :: u32) < T4 \<longleftrightarrow> v < 15"
    by (simp_all add: Tx_def T2_def T3_def T4_def byte_less v_def div_less_iff_less_mult)
qed

lemma lead_ascii: "(ucast (b::byte) :: u32) < Tx \<longleftrightarrow> \<not> bit b 7"
  using nibble_bits lead_nibble [of b] by metis

lemma lead_two: "(ucast (b::byte) :: u32) < T2 \<longleftrightarrow> \<not> (bit b 7 \<and> bit b 6)"
  using nibble_bits lead_nibble [of b] by metis

lemma lead_three: "(ucast (b::byte) :: u32) < T3 \<longleftrightarrow> \<not> (bit b 7 \<and> bit b 6 \<and> bit b 5)"
  using nibble_bits lead_nibble [of b] by metis

lemma lead_four: "(ucast (b::byte) :: u32) < T4 \<longleftrightarrow> \<not> (bit b 7 \<and> bit b 6 \<and> bit b 5 \<and> bit b 4)"
  using nibble_bits lead_nibble [of b] by metis

lemma rune_bits:
  "bit Tx n \<longleftrightarrow> n = 7" "bit T2 n \<longleftrightarrow> n = 6 \<or> n = 7" "bit T3 n \<longleftrightarrow> n = 5 \<or> n = 6 \<or> n = 7"
  "bit Testx n \<longleftrightarrow> n = 6 \<or> n = 7" "bit Maskx n \<longleftrightarrow> n < 6" "bit Rune2 n \<longleftrightarrow> n < 11" "bit Rune3 n \<longleftrightarrow> n < 16"
proof -
  have e: "Tx = 2 ^ 7" "T2 = 2 ^ 7 OR 2 ^ 6" "T3 = 2 ^ 7 OR (2 ^ 6 OR 2 ^ 5)" "Testx = 2 ^ 7 OR 2 ^ 6"
    "Maskx = mask 6" "Rune2 = mask 11" "Rune3 = mask 16"
    by (simp_all add: Tx_def T2_def T3_def Testx_def Maskx_def Rune2_def Rune3_def mask_eq_exp_minus_1)
  show "bit Tx n \<longleftrightarrow> n = 7" "bit T2 n \<longleftrightarrow> n = 6 \<or> n = 7" "bit T3 n \<longleftrightarrow> n = 5 \<or> n = 6 \<or> n = 7"
    "bit Testx n \<longleftrightarrow> n = 6 \<or> n = 7" "bit Maskx n \<longleftrightarrow> n < 6" "bit Rune2 n \<longleftrightarrow> n < 11" "bit Rune3 n \<longleftrightarrow> n < 16"
    unfolding e bit_or_iff bit_exp_iff bit_mask_iff possible_bit_word by (safe; simp)+
qed

lemma bit_u32: "bit (w::u32) i \<Longrightarrow> i < 32"
  using bit_imp_le_length [of w i] by simp

lemma bit_u16: "bit (w::u16) i \<Longrightarrow> i < 16"
  using bit_imp_le_length [of w i] by simp

lemma bit_u8: "bit (w::byte) i \<Longrightarrow> i < 8"
  using bit_imp_le_length [of w i] by simp

lemma continuation: "(ucast (b::byte) XOR Tx) AND Testx = 0 \<longleftrightarrow> bit b 7 \<and> \<not> bit b 6"
proof -
  have t: "bit ((ucast b XOR Tx) AND Testx) n \<longleftrightarrow> n = 6 \<and> bit b 6 \<or> n = 7 \<and> \<not> bit b 7" for n
    by (auto simp: bit_and_iff bit_xor_iff rune_bits bit_ucast_iff)
  have "(ucast b XOR Tx) AND Testx = 0 \<longleftrightarrow> (\<forall>n. \<not> bit ((ucast b XOR Tx) AND Testx) n)"
    by (auto intro: bit_eqI)
  then show ?thesis unfolding t by blast
qed

lemma le_bits:
  assumes "unat (m::u32) = 2 ^ n - 1"
  shows "w \<le> m \<longleftrightarrow> (\<forall>i. n \<le> i \<longrightarrow> \<not> bit w i)"
proof -
  have "w \<le> m \<longleftrightarrow> take_bit n (unat w) = unat w"
    unfolding word_le_nat_alt assms take_bit_nat_eq_self_iff
    by (metis Suc_diff_1 less_Suc_eq_le zero_less_numeral zero_less_power)
  also have "\<dots> \<longleftrightarrow> take_bit n w = w"
    by (simp add: word_unat_eq_iff unsigned_take_bit_eq)
  also have "\<dots> \<longleftrightarrow> (\<forall>i. n \<le> i \<longrightarrow> \<not> bit w i)"
    by (auto simp: bit_eq_iff bit_simps not_less [symmetric] dest: bit_u32)
  finally show ?thesis .
qed

lemma le_Rune1: "w \<le> Rune1 \<longleftrightarrow> (\<forall>i. 7 \<le> i \<longrightarrow> \<not> bit w i)"
  by (rule le_bits) (simp add: Rune1_def)

lemma le_Rune2: "w \<le> Rune2 \<longleftrightarrow> (\<forall>i. 11 \<le> i \<longrightarrow> \<not> bit w i)"
  by (rule le_bits) (simp add: Rune2_def)

lemma small_Rune1: "(ucast (r::u16) :: u32) \<le> Rune1 \<longleftrightarrow> (\<forall>i. 7 \<le> i \<longrightarrow> \<not> bit r i)"
proof -
  have "bit (ucast r :: u32) i \<longleftrightarrow> bit r i" for i
    using bit_u16 [of r i] by (auto simp: bit_simps)
  then show ?thesis by (simp only: le_Rune1)
qed

lemma small_Rune2: "(ucast (r::u16) :: u32) \<le> Rune2 \<longleftrightarrow> (\<forall>i. 11 \<le> i \<longrightarrow> \<not> bit r i)"
proof -
  have "bit (ucast r :: u32) i \<longleftrightarrow> bit r i" for i
    using bit_u16 [of r i] by (auto simp: bit_simps)
  then show ?thesis by (simp only: le_Rune2)
qed

lemma byte_eqI:
  "bit (a::byte) 0 = bit b 0 \<Longrightarrow> bit a 1 = bit b 1 \<Longrightarrow> bit a 2 = bit b 2 \<Longrightarrow> bit a 3 = bit b 3 \<Longrightarrow>
   bit a 4 = bit b 4 \<Longrightarrow> bit a 5 = bit b 5 \<Longrightarrow> bit a 6 = bit b 6 \<Longrightarrow> bit a 7 = bit b 7 \<Longrightarrow> a = b"
proof (rule bit_word_eqI)
  fix n assume a: "n < LENGTH(8)" "bit a 0 = bit b 0" "bit a 1 = bit b 1" "bit a 2 = bit b 2" "bit a 3 = bit b 3"
   "bit a 4 = bit b 4" "bit a 5 = bit b 5" "bit a 6 = bit b 6" "bit a 7 = bit b 7"
  have "n \<in> {..<8}" using a(1) by simp
  then have "n = 0 \<or> n = 1 \<or> n = 2 \<or> n = 3 \<or> n = 4 \<or> n = 5 \<or> n = 6 \<or> n = 7"
    by (simp only: lessThan_nat_numeral pred_numeral_simps lessThan_Suc lessThan_0 numeral_1_eq_Suc_0 One_nat_def BitM.simps) auto
  with a show "bit a n = bit b n" by metis
qed

lemma u16_eqI: "(\<And>n. n < 16 \<Longrightarrow> bit (a::u16) n = bit b n) \<Longrightarrow> a = b"
  by (rule bit_word_eqI) simp

text \<open>The rune of the two- and three-byte sequences, bit by bit.\<close>

definition rune2 :: "byte \<Rightarrow> byte \<Rightarrow> u32" where
  "rune2 b b1 = (push_bit 6 (ucast b) OR (ucast b1 XOR Tx)) AND Rune2"

definition rune3 :: "byte \<Rightarrow> byte \<Rightarrow> byte \<Rightarrow> u32" where
  "rune3 b b1 b2 = (push_bit 6 (push_bit 6 (ucast b) OR (ucast b1 XOR Tx)) OR (ucast b2 XOR Tx)) AND Rune3"

lemma bit_cont:
  assumes "bit (c::byte) 7" "\<not> bit c 6"
  shows "bit (ucast c XOR Tx) m \<longleftrightarrow> m < 6 \<and> bit c m"
proof (cases "m = 6 \<or> m = 7")
  case True then show ?thesis using assms by (auto simp: bit_xor_iff bit_ucast_iff rune_bits)
next
  case False then show ?thesis using bit_u8 [of c m] by (auto simp: bit_xor_iff bit_ucast_iff rune_bits)
qed

lemma bit_rune2:
  assumes "bit b1 7" "\<not> bit b1 6"
  shows "bit (rune2 b b1) n \<longleftrightarrow> (if n < 6 then bit b1 n else n < 11 \<and> bit b (n - 6))"
  unfolding rune2_def bit_and_iff bit_or_iff bit_push_bit_iff bit_cont [OF assms]
  by (auto simp: rune_bits bit_ucast_iff not_less)

lemma bit_rune3:
  assumes "bit b1 7" "\<not> bit b1 6" "bit b2 7" "\<not> bit b2 6"
  shows "bit (rune3 b b1 b2) n \<longleftrightarrow>
    (if n < 6 then bit b2 n else if n < 12 then bit b1 (n - 6) else n < 16 \<and> bit b (n - 12))"
  unfolding rune3_def bit_and_iff bit_or_iff bit_push_bit_iff bit_cont [OF assms(1,2)] bit_cont [OF assms(3,4)]
  by (auto simp: rune_bits bit_ucast_iff not_less)

lemma ucast_byte_rune: "ucast (ucast (b::byte) :: u32) = (ucast b :: u16)"
  by (rule bit_word_eqI) (auto simp: bit_ucast_iff)

text \<open>The decoder by the high bits of the bytes it reads.\<close>

lemma rb_simps [simp]: "rb (x # xs) 0 = Inr x" "rb (x # y # xs) (Suc 0) = Inr y" "rb (x # y # z # xs) 2 = Inr z"
  by (simp_all add: rb_def)

lemma chartorune_ascii: "\<not> bit b 7 \<Longrightarrow> chartorune (b # s) = Inr (ucast b, 1)"
  by (simp add: chartorune_def Let_def lead_ascii ucast_byte_rune)

lemma chartorune_two:
  assumes "bit b 7" "bit b 6" "\<not> bit b 5" "bit b1 7" "\<not> bit b1 6"
  shows "chartorune (b # b1 # s) = (if rune2 b b1 \<le> Rune1 then Inr (Runeerror, 1) else Inr (ucast (rune2 b b1), 2))"
  using assms by (simp add: chartorune_def Let_def lead_ascii lead_two lead_three continuation rune2_def)

lemma chartorune_three:
  assumes "bit b 7" "bit b 6" "bit b 5" "\<not> bit b 4" "bit b1 7" "\<not> bit b1 6" "bit b2 7" "\<not> bit b2 6"
  shows "chartorune (b # b1 # b2 # s) =
    (if rune3 b b1 b2 \<le> Rune2 then Inr (Runeerror, 1) else Inr (ucast (rune3 b b1 b2), 3))"
  using assms by (simp add: chartorune_def Let_def lead_ascii lead_two lead_three lead_four continuation rune3_def)

text \<open>Every result that is not the error comes from one of the three forms.\<close>

lemma chartorune_cases:
  assumes "chartorune s = Inr (r, n)" "(r, n) \<noteq> (Runeerror, 1)"
  obtains (ascii) b t where "s = b # t" "\<not> bit b 7" "r = ucast b" "n = 1"
    | (two) b b1 t where "s = b # b1 # t" "bit b 7" "bit b 6" "\<not> bit b 5" "bit b1 7" "\<not> bit b1 6"
        "\<not> rune2 b b1 \<le> Rune1" "r = ucast (rune2 b b1)" "n = 2"
    | (three) b b1 b2 t where "s = b # b1 # b2 # t" "bit b 7" "bit b 6" "bit b 5" "\<not> bit b 4"
        "bit b1 7" "\<not> bit b1 6" "bit b2 7" "\<not> bit b2 6"
        "\<not> rune3 b b1 b2 \<le> Rune2" "r = ucast (rune3 b b1 b2)" "n = 3"
proof -
  note d = chartorune_def Let_def lead_ascii lead_two lead_three lead_four continuation
  from assms(1) obtain b t where s: "s = b # t" by (cases s) (auto simp: chartorune_def rb_def)
  show thesis
  proof (cases "bit b 7")
    case False
    with assms(1) s show thesis using ascii chartorune_ascii [OF False, of t] by simp
  next
    case b7: True
    from assms(1) s b7 obtain b1 u where t: "t = b1 # u" by (cases t) (auto simp: d rb_def)
    have c1: "bit b1 7 \<and> \<not> bit b1 6" using assms s t b7 by (simp add: d split: if_splits)
    show thesis
    proof (cases "bit b 6 \<and> bit b 5")
      case False
      then have b6: "bit b 6" "\<not> bit b 5" using assms s t b7 c1 by (simp_all add: d split: if_splits)
      show thesis
        using assms two [OF _ b7 b6, of b1 u] chartorune_two [OF b7 b6, of b1 u] c1 s t by (simp split: if_splits)
    next
      case True
      then obtain b2 v where u: "u = b2 # v" using assms(1) s t b7 c1 by (cases u) (auto simp: d rb_def)
      have c2: "bit b2 7 \<and> \<not> bit b2 6 \<and> \<not> bit b 4"
        using assms s t u b7 c1 True by (simp add: d split: if_splits)
      show thesis
        using assms three [OF _ b7, of b1 b2 v] chartorune_three [OF b7, of b1 b2 v] c1 c2 s t u True by (simp split: if_splits)
    qed
  qed
qed

text \<open>The bytes of the encoder, bit by bit.\<close>

lemma bit_enc:
  fixes r :: u16
  shows "bit (ucast (T2 OR drop_bit 6 (ucast r :: u32)) :: byte) n \<longleftrightarrow> n < 8 \<and> (n = 6 \<or> n = 7 \<or> bit r (n + 6))"
    and "bit (ucast (T3 OR drop_bit 12 (ucast r :: u32)) :: byte) n \<longleftrightarrow> n < 8 \<and> (n = 5 \<or> n = 6 \<or> n = 7 \<or> bit r (n + 12))"
    and "bit (ucast (Tx OR (ucast r AND Maskx)) :: byte) n \<longleftrightarrow> n = 7 \<or> n < 6 \<and> bit r n"
    and "bit (ucast (Tx OR (drop_bit 6 (ucast r :: u32) AND Maskx)) :: byte) n \<longleftrightarrow> n = 7 \<or> n < 6 \<and> bit r (n + 6)"
  by (auto simp: bit_ucast_iff bit_or_iff bit_and_iff bit_drop_bit_eq rune_bits add.commute dest: bit_u16)

lemma runetochar_cases:
  obtains (ascii) "\<And>i. 7 \<le> i \<Longrightarrow> \<not> bit r i" "runetochar r = [ucast r]"
  | (two) b b1 where "\<not> (\<forall>i. 7 \<le> i \<longrightarrow> \<not> bit r i)" "\<And>i. 11 \<le> i \<Longrightarrow> \<not> bit r i" "runetochar r = [b, b1]"
      "\<And>n. bit b n \<longleftrightarrow> n < 8 \<and> (n = 6 \<or> n = 7 \<or> bit r (n + 6))" "\<And>n. bit b1 n \<longleftrightarrow> n = 7 \<or> n < 6 \<and> bit r n"
  | (three) b b1 b2 where "\<not> (\<forall>i. 11 \<le> i \<longrightarrow> \<not> bit r i)" "runetochar r = [b, b1, b2]"
      "\<And>n. bit b n \<longleftrightarrow> n < 8 \<and> (n = 5 \<or> n = 6 \<or> n = 7 \<or> bit r (n + 12))"
      "\<And>n. bit b1 n \<longleftrightarrow> n = 7 \<or> n < 6 \<and> bit r (n + 6)" "\<And>n. bit b2 n \<longleftrightarrow> n = 7 \<or> n < 6 \<and> bit r n"
proof -
  have u: "ucast (ucast r :: u32) = (ucast r :: byte)"
    by (rule bit_word_eqI) (auto simp: bit_ucast_iff)
  consider "(ucast r :: u32) \<le> Rune1" | "\<not> (ucast r :: u32) \<le> Rune1" "(ucast r :: u32) \<le> Rune2" | "\<not> (ucast r :: u32) \<le> Rune1" "\<not> (ucast r :: u32) \<le> Rune2"
    by blast
  then show thesis
  proof cases
    case 1
    then show thesis using ascii u by (simp add: runetochar_def Let_def small_Rune1)
  next
    case 2
    show thesis
      by (rule two [OF _ _ _ bit_enc(1,3) [of r]]) (use 2 in \<open>simp_all add: runetochar_def Let_def small_Rune1 small_Rune2\<close>)
  next
    case 3
    show thesis
      by (rule three [OF _ _ bit_enc(2) [of r] bit_enc(4) [of r] bit_enc(3) [of r]]) (use 3 in \<open>simp_all add: runetochar_def Let_def small_Rune2\<close>)
  qed
qed

lemma ascii_casts:
  assumes "\<And>i. 7 \<le> i \<Longrightarrow> \<not> bit (r::u16) i"
  shows "ucast (ucast r :: byte) = r"
proof (rule u16_eqI)
  fix n show "bit (ucast (ucast r :: byte) :: u16) n = bit r n"
    using assms [of n] bit_u16 [of r n] by (cases "n < 8") (auto simp: bit_ucast_iff)
qed

lemma decode_encode: "chartorune (runetochar r @ t) = Inr (r, length (runetochar r))"
proof (cases r rule: runetochar_cases)
  case ascii
  have "ucast (ucast r :: byte) = r" using ascii(1) by (rule ascii_casts)
  then show ?thesis using ascii(1) [of 7] by (simp add: ascii(2) chartorune_ascii bit_ucast_iff)
next
  case (two b b1)
  have v: "bit (rune2 b b1) n \<longleftrightarrow> bit r n" for n
    using two(2) [of n] by (cases "11 \<le> n") (auto simp: bit_rune2 two(4,5) not_less)
  have "ucast (rune2 b b1) = r" by (rule u16_eqI) (simp add: bit_ucast_iff v)
  moreover have "\<not> rune2 b b1 \<le> Rune1" using two(1) by (simp add: le_Rune1 v)
  moreover have "\<not> bit b 5" using two(2) [of 11] by (simp add: two(4))
  ultimately show ?thesis by (simp add: two(3) chartorune_two two(4,5))
next
  case (three b b1 b2)
  have v: "bit (rune3 b b1 b2) n \<longleftrightarrow> bit r n" for n
    using bit_u16 [of r n] by (auto simp: bit_rune3 three(3-5) not_less)
  have "ucast (rune3 b b1 b2) = r" by (rule u16_eqI) (simp add: bit_ucast_iff v)
  moreover have "\<not> rune3 b b1 b2 \<le> Rune2" using three(1) by (simp add: le_Rune2 v)
  moreover have "\<not> bit b 4" using bit_u16 [of r 16] by (auto simp: three(3))
  ultimately show ?thesis by (simp add: three(2) chartorune_three three(3-5))
qed

lemma runetochar_small: "(ucast r :: u32) \<le> Rune1 \<Longrightarrow> runetochar r = [ucast (ucast r :: u32)]"
  by (simp add: runetochar_def)

lemma encode_decode:
  assumes "chartorune s = Inr (r, n)" "(r, n) \<noteq> (Runeerror, 1)"
  shows "runetochar r = take n s"
  using assms
proof (cases rule: chartorune_cases)
  case (ascii b t)
  have "ucast (ucast b :: u16) = b" by (rule bit_word_eqI) (auto simp: bit_ucast_iff)
  moreover have "\<not> bit (ucast b :: u16) i" if "7 \<le> i" for i
    using ascii(2) bit_u8 [of b i] that by (cases "i = 7") (auto simp: bit_ucast_iff)
  ultimately show ?thesis using ascii by (cases r rule: runetochar_cases) auto
next
  case (two b b1 t)
  have v: "bit r n \<longleftrightarrow> (if n < 6 then bit b1 n else n < 11 \<and> bit b (n - 6))" for n
    using two by (auto simp: bit_ucast_iff bit_rune2)
  have w: "bit r n \<longleftrightarrow> bit (rune2 b b1) n" for n
    by (simp add: v bit_rune2 two(5,6))
  have big: "\<not> (\<forall>i. 7 \<le> i \<longrightarrow> \<not> bit r i)"
    using two(7) by (simp only: le_Rune1 w) simp
  have small: "\<not> bit r i" if "11 \<le> i" for i using that by (simp add: v)
  show ?thesis
  proof (cases r rule: runetochar_cases)
    case (two c c1)
    have "c = b" by (rule byte_eqI) (simp_all add: two(4) v \<open>bit b 7\<close> \<open>bit b 6\<close> \<open>\<not> bit b 5\<close>)
    moreover have "c1 = b1" by (rule byte_eqI) (simp_all add: two(5) v \<open>bit b1 7\<close> \<open>\<not> bit b1 6\<close>)
    ultimately show ?thesis using \<open>s = _\<close> \<open>n = 2\<close> two(3) by simp
  qed (use big small in auto)
next
  case (three b b1 b2 t)
  have v: "bit r n \<longleftrightarrow> (if n < 6 then bit b2 n else if n < 12 then bit b1 (n - 6) else n < 16 \<and> bit b (n - 12))" for n
    using three by (auto simp: bit_ucast_iff bit_rune3)
  have w: "bit r n \<longleftrightarrow> bit (rune3 b b1 b2) n" for n
    by (simp add: v bit_rune3 three(6-9))
  have big: "\<not> (\<forall>i. 11 \<le> i \<longrightarrow> \<not> bit r i)"
    using three(10) by (simp only: le_Rune2 w) simp
  show ?thesis
  proof (cases r rule: runetochar_cases)
    case (three c c1 c2)
    have "c = b" by (rule byte_eqI) (simp_all add: three(3) v \<open>bit b 7\<close> \<open>bit b 6\<close> \<open>bit b 5\<close> \<open>\<not> bit b 4\<close>)
    moreover have "c1 = b1" by (rule byte_eqI) (simp_all add: three(4) v \<open>bit b1 7\<close> \<open>\<not> bit b1 6\<close>)
    moreover have "c2 = b2" by (rule byte_eqI) (simp_all add: three(5) v \<open>bit b2 7\<close> \<open>\<not> bit b2 6\<close>)
    ultimately show ?thesis using \<open>s = _\<close> \<open>n = 3\<close> three(2) by simp
  qed (use big in auto)
qed

subsection \<open>Encoded strings\<close>

definition enc :: "u16 list \<Rightarrow> byte list" where
  "enc rs = concat (map runetochar rs)"

lemma enc_simps [simp]: "enc [] = []" "enc (r # rs) = runetochar r @ enc rs" "enc (rs @ qs) = enc rs @ enc qs"
  by (simp_all add: enc_def)

lemma runetochar_ascii_eq: "\<not> (\<exists>i\<ge>7. bit r i) \<Longrightarrow> runetochar r = [ucast r]"
  by (cases r rule: runetochar_cases) auto

text \<open>The bytes of an encoding: a first byte, which is the rune itself when it is below \<open>Runeself\<close>, and continuation bytes.\<close>

lemma runetochar_shape:
  obtains b bs where "runetochar r = b # bs" "\<not> (bit b 7 \<and> \<not> bit b 6)" "\<forall>c\<in>set bs. bit c 7 \<and> \<not> bit c 6"
    "bit b 7 \<or> bs = [] \<and> ucast b = r" "length bs \<le> 2"
proof (cases r rule: runetochar_cases)
  case ascii
  have "ucast (ucast r :: byte) = r" using ascii(1) by (rule ascii_casts)
  then show ?thesis using that ascii(1) [of 7] ascii(2) by (simp add: bit_ucast_iff)
next
  case (two b b1) then show ?thesis using that by simp
next
  case (three b b1 b2) then show ?thesis using that by simp
qed

lemma below_Runeself: "(ucast (b::byte) :: u32) < Runeself \<longleftrightarrow> \<not> bit b 7"
  using lead_ascii [of b] by (simp add: Runeself_def Tx_def)

lemma bit7_zero [simp]: "bit (0::byte) 7 = False" by simp

lemma ucast_byte_eq: "(ucast (a::byte) :: u32) = ucast b \<longleftrightarrow> a = b" "(ucast (a::byte) :: u16) = ucast b \<longleftrightarrow> a = b"
proof -
  have "a = b" if "\<And>n. n < 8 \<Longrightarrow> bit a n = bit b n" using that by (auto intro: bit_word_eqI)
  moreover have "bit (ucast a :: u32) n = bit a n" "bit (ucast a :: u16) n = bit a n" if "n < 8" for n and a :: byte
    using that by (simp_all add: bit_ucast_iff)
  ultimately show "(ucast a :: u32) = ucast b \<longleftrightarrow> a = b" "(ucast a :: u16) = ucast b \<longleftrightarrow> a = b" by metis+
qed

lemma ucast_byte_zero [simp]: "(ucast (a::byte) :: u32) = 0 \<longleftrightarrow> a = 0" "(ucast (a::byte) :: u16) = 0 \<longleftrightarrow> a = 0"
  using ucast_byte_eq [of a 0] by simp_all

lemma runetochar_zero: "runetochar 0 = [0]"
  by (simp add: runetochar_def Rune1_def)

lemma runetochar_nul: "0 \<in> set (runetochar r) \<longleftrightarrow> r = 0"
proof (cases r rule: runetochar_shape)
  case (1 b bs)
  have "r = 0 \<longleftrightarrow> b = 0"
  proof
    assume "r = 0" then show "b = 0" using 1(1) by (simp add: runetochar_zero)
  next
    assume "b = 0" then show "r = 0" using 1(4) by auto
  qed
  then show ?thesis using 1 by auto
qed

text \<open>One turn of the loops, at the encoding of a rune and at the terminator.\<close>

lemma utflen_turn:
  assumes "chartorune (b # s) = Inr (r, k)" "b \<noteq> 0"
  shows "utflen (b # s) = andthen (utflen (drop k (b # s))) (\<lambda>n. Inr (Suc n))"
proof (cases "bit b 7")
  case True
  then show ?thesis using assms by (subst utflen.simps) (simp add: below_Runeself Let_def)
next
  case False
  then have "k = 1" using assms(1) by (simp add: chartorune_ascii)
  then show ?thesis using assms False by (subst utflen.simps) (simp add: below_Runeself Let_def)
qed

lemma utflen_step:
  assumes "r \<noteq> 0"
  shows "utflen (runetochar r @ s) = andthen (utflen s) (\<lambda>n. Inr (Suc n))"
proof (cases r rule: runetochar_shape)
  case (1 b bs)
  have "b \<noteq> 0" using 1(1) assms runetochar_nul [of r] by auto
  then show ?thesis using decode_encode [of r s] utflen_turn [of b "bs @ s"] 1(1) by simp
qed

lemma utflen_nul [simp]: "utflen (0 # t) = Inr 0"
  by (subst utflen.simps) (simp add: Runeself_def)

lemma utflen_enc: "0 \<notin> set rs \<Longrightarrow> utflen (enc rs @ 0 # t) = Inr (length rs)"
  by (induction rs) (auto simp: utflen_step)

text \<open>The decoder stays within a string: every byte it takes after the first is a continuation byte, hence no terminator.\<close>

lemma chartorune_nul:
  assumes "x \<noteq> []" "0 \<notin> set x"
  obtains r n where "\<And>t. chartorune (x @ 0 # t) = Inr (r, n)" "1 \<le> n" "n \<le> length x"
proof -
  have z: "(ucast (0::byte) XOR Tx) AND Testx \<noteq> 0" using continuation [of 0] by simp
  obtain b y where x: "x = b # y" using assms(1) by (cases x) auto
  show thesis
  proof (cases y)
    case Nil
    then show thesis using that [of "if bit b 7 then Runeerror else ucast b" 1] x z
      by (simp add: chartorune_def Let_def lead_ascii ucast_byte_rune)
  next
    case (Cons c y1)
    then show thesis
    proof (cases y1)
      case Nil
      with Cons x z show thesis
        using that [of "fst (projr (chartorune [b, c, 0]))" "snd (projr (chartorune [b, c, 0]))"]
        by (auto simp: chartorune_def Let_def lead_ascii ucast_byte_rune split: if_splits)
    next
      case (Cons d y2)
      with \<open>y = _\<close> x show thesis
        using that [of "fst (projr (chartorune [b, c, d]))" "snd (projr (chartorune [b, c, d]))"]
        by (auto simp: chartorune_def Let_def lead_ascii ucast_byte_rune split: if_splits)
    qed
  qed
qed

lemma chartorune_bound:
  assumes "x \<noteq> []" "0 \<notin> set x"
  shows "\<exists>r n. (\<forall>t. chartorune (x @ 0 # t) = Inr (r, n)) \<and> 1 \<le> n \<and> n \<le> length x"
  by (rule chartorune_nul [OF assms]) blast

lemma chartorune_max: "chartorune s = Inr (r, n) \<Longrightarrow> n \<le> 3"
  by (cases "(r, n) = (Runeerror, 1)") (auto elim: chartorune_cases)

lemma utflen_total:
  "0 \<notin> set x \<Longrightarrow> \<exists>n. (\<forall>t. utflen (x @ 0 # t) = Inr n) \<and> n \<le> length x \<and> length x \<le> 3 * n"
proof (induction "length x" arbitrary: x rule: less_induct)
  case less
  show ?case
  proof (cases x)
    case Nil then show ?thesis by (intro exI [of _ 0]) simp
  next
    case (Cons b y)
    then have "x \<noteq> []" by simp
    from chartorune_bound [OF this less.prems]
    obtain r k where c: "\<forall>t. chartorune (x @ 0 # t) = Inr (r, k)" "1 \<le> k" "k \<le> length x"
      by blast
    have k3: "k \<le> 3" using spec [OF c(1), of "[]"] by (rule chartorune_max)
    have "length (drop k x) < length x" "0 \<notin> set (drop k x)" using c(2) Cons less.prems by (auto dest: in_set_dropD)
    from less.hyps [OF this] obtain n
      where n: "\<forall>t. utflen (drop k x @ 0 # t) = Inr n" "n \<le> length (drop k x)" "length (drop k x) \<le> 3 * n"
      by blast
    have "drop k (b # y @ 0 # t) = drop k x @ 0 # t" for t
      using drop_append [of k x "0 # t"] c(3) unfolding Cons by simp
    then have u: "\<forall>t. utflen (x @ 0 # t) = Inr (Suc n)"
      using utflen_turn [of b _ r k] c(1) n(1) less.prems by (auto simp: Cons simp del: drop_append)
    have "Suc n \<le> length x" "length x \<le> 3 * Suc n" using n(2,3) c(2,3) k3 by simp_all
    with u show ?thesis by blast
  qed
qed

subsection \<open>Searching\<close>

lemma ucast_byte_up: "ucast (ucast (b::byte) :: u16) = (ucast b :: u32)"
proof (rule bit_word_eqI)
  fix n show "bit (ucast (ucast b :: u16) :: u32) n = bit (ucast b :: u32) n"
    using bit_u8 [of b n] by (auto simp: bit_ucast_iff)
qed

lemma runetochar_byte: "\<not> bit (a::byte) 7 \<Longrightarrow> runetochar (ucast a) = [a]"
proof -
  assume a: "\<not> bit a 7"
  have "bit Runeerror 15" unfolding Runeerror_def by code_simp
  moreover have "\<not> bit (ucast a :: u16) 15" using bit_u8 [of a 15] by (auto simp: bit_ucast_iff)
  ultimately have "ucast a \<noteq> Runeerror" by metis
  then show ?thesis using encode_decode [of "[a]" "ucast a" 1] chartorune_ascii [OF a, of "[]"] by simp
qed

lemma utfrune_turn:
  assumes "chartorune (b # s) = Inr (r, k)" "b \<noteq> 0" "\<not> (c::u32) < Runeself"
  shows "utfrune_loop c (b # s) = (if ucast r = c then Inr (Some 0)
    else andthen (utfrune_loop c (drop k (b # s))) (\<lambda>i. Inr (map_option (\<lambda>i. k + i) i)))"
proof (cases "bit b 7")
  case True
  then show ?thesis using assms by (subst utfrune_loop.simps) (simp add: below_Runeself Let_def)
next
  case False
  then have "k = 1" "r = ucast b" using assms(1) by (simp_all add: chartorune_ascii)
  moreover have "ucast b \<noteq> c" using False assms(3) below_Runeself [of b] by auto
  moreover have "(+) (Suc 0) = Suc" by auto
  ultimately show ?thesis using assms False by (subst utfrune_loop.simps) (simp add: below_Runeself Let_def ucast_byte_up)
qed

lemma utfrrune_turn:
  assumes "chartorune (b # s) = Inr (r, k)" "b \<noteq> 0" "\<not> (c::u32) < Runeself"
  shows "utfrrune_loop c (b # s) p s1 = utfrrune_loop c (drop k (b # s)) (p + k) (if ucast r = c then Some p else s1)"
proof (cases "bit b 7")
  case True
  then show ?thesis using assms by (subst utfrrune_loop.simps) (simp add: below_Runeself Let_def)
next
  case False
  then have "k = 1" "r = ucast b" using assms(1) by (simp_all add: chartorune_ascii)
  moreover have "ucast b \<noteq> c" using False assms(3) below_Runeself [of b] by auto
  ultimately show ?thesis using assms False by (subst utfrrune_loop.simps) (simp add: below_Runeself Let_def ucast_byte_up)
qed

lemma ucast_rune_eq: "(ucast (a::u16) :: u32) = ucast b \<longleftrightarrow> a = b"
proof
  assume e: "(ucast a :: u32) = ucast b"
  have "bit (ucast a :: u32) n = bit a n" if "n < 16" for n and a :: u16
    using that by (simp add: bit_ucast_iff)
  then show "a = b" using e by (metis u16_eqI)
qed simp

text \<open>The first and the last place of a rune in a sequence, as offsets into its encoding.\<close>

primrec first_at :: "u16 \<Rightarrow> u16 list \<Rightarrow> nat option" where
  "first_at c [] = None"
| "first_at c (r # rs) = (if r = c then Some 0 else map_option (\<lambda>i. length (runetochar r) + i) (first_at c rs))"

primrec last_at :: "u16 \<Rightarrow> u16 list \<Rightarrow> nat \<Rightarrow> nat option \<Rightarrow> nat option" where
  "last_at c [] i p = p"
| "last_at c (r # rs) i p = last_at c rs (i + length (runetochar r)) (if r = c then Some i else p)"

lemma first_at_None: "c \<notin> set rs \<Longrightarrow> first_at c rs = None"
  by (induction rs) auto

lemma first_at_Some: "c \<notin> set p \<Longrightarrow> first_at c (p @ c # q) = Some (length (enc p))"
  by (induction p) auto

lemma last_at_None: "c \<notin> set rs \<Longrightarrow> last_at c rs i p = p"
  by (induction rs arbitrary: i p) auto

lemma last_at_Some: "c \<notin> set q \<Longrightarrow> last_at c (p @ c # q) i x = Some (i + length (enc p))"
  by (induction p arbitrary: i x) (auto simp: last_at_None)

lemma enc_first:
  assumes "r \<noteq> 0"
  obtains b s where "runetochar r @ t = b # s" "b \<noteq> 0" "chartorune (b # s) = Inr (r, length (runetochar r))"
    "drop (length (runetochar r)) (b # s) = t"
proof (cases r rule: runetochar_shape)
  case (1 b bs)
  have "b \<noteq> 0" using 1(1) assms runetochar_nul [of r] by auto
  then show thesis using that [of b "bs @ t"] decode_encode [of r t] 1(1) by simp
qed

lemma utfrune_loop_enc:
  assumes "0 \<notin> set rs" "\<not> (ucast c :: u32) < Runeself"
  shows "utfrune_loop (ucast c) (enc rs @ 0 # t) = Inr (first_at c rs)"
  using assms(1)
proof (induction rs)
  case Nil show ?case by (subst enc_simps, subst utfrune_loop.simps) (simp add: Runeself_def)
next
  case (Cons r rs)
  then have "r \<noteq> 0" by auto
  then obtain b s where s: "runetochar r @ enc rs @ 0 # t = b # s" "b \<noteq> 0" "chartorune (b # s) = Inr (r, length (runetochar r))"
    "drop (length (runetochar r)) (b # s) = enc rs @ 0 # t" by (rule enc_first)
  show ?case using Cons s(1) utfrune_turn [OF s(3,2) assms(2)] by (simp add: s(4) ucast_rune_eq)
qed

lemma utfrrune_loop_enc:
  assumes "0 \<notin> set rs" "\<not> (ucast c :: u32) < Runeself"
  shows "utfrrune_loop (ucast c) (enc rs @ 0 # t) i p = Inr (last_at c rs i p)"
  using assms(1)
proof (induction rs arbitrary: i p)
  case Nil show ?case by (subst enc_simps, subst utfrrune_loop.simps) (simp add: Runeself_def)
next
  case (Cons r rs)
  then have "r \<noteq> 0" by auto
  then obtain b s where s: "runetochar r @ enc rs @ 0 # t = b # s" "b \<noteq> 0" "chartorune (b # s) = Inr (r, length (runetochar r))"
    "drop (length (runetochar r)) (b # s) = enc rs @ 0 # t" by (rule enc_first)
  show ?case using Cons s(1) utfrrune_turn [OF s(3,2) assms(2)] by (simp add: s(4) ucast_rune_eq)
qed

text \<open>The bytes below \<open>Runeself\<close> are found by the byte searches: they never occur inside another rune.\<close>

lemma chr_loop_skip:
  "\<forall>x\<in>set bs. x \<noteq> 0 \<and> x \<noteq> a \<Longrightarrow>
   chr_loop a (bs @ s) = andthen (chr_loop a s) (\<lambda>i. Inr (map_option (\<lambda>i. length bs + i) i))"
proof (induction bs)
  case Nil show ?case by (cases "chr_loop a s") (simp_all add: option.map_ident)
next
  case (Cons x bs) then show ?case by (cases "chr_loop a s") (simp_all add: option.map_comp comp_def)
qed

lemma chr_loop_enc:
  assumes "0 \<notin> set rs" "\<not> bit (a::byte) 7"
  shows "chr_loop a (enc rs @ 0 # t) = Inr (first_at (ucast a) rs)"
  using assms(1)
proof (induction rs)
  case (Cons r rs)
  show ?case
  proof (cases r rule: runetochar_shape)
    case (1 b bs)
    show ?thesis
    proof (cases "r = ucast a")
      case True
      then show ?thesis using runetochar_byte [OF assms(2)] Cons.prems by auto
    next
      case False
      then have "\<forall>x\<in>set (runetochar r). x \<noteq> 0 \<and> x \<noteq> a"
        using 1 Cons.prems assms(2) runetochar_nul [of r] by auto
      then show ?thesis using Cons False by (simp add: chr_loop_skip)
    qed
  qed
qed simp

lemma small_rune:
  assumes "(ucast (c::u16) :: u32) < Runeself"
  obtains a :: byte where "c = ucast a" "\<not> bit a 7" "ucast (ucast c :: u32) = a"
proof -
  have c: "\<not> bit c i" if "7 \<le> i" for i
  proof -
    have "(ucast c :: u32) \<le> Rune1" using assms by (simp add: word_less_nat_alt word_le_nat_alt Runeself_def Rune1_def)
    then show ?thesis using that by (simp add: small_Rune1)
  qed
  have "ucast (ucast c :: u32) = (ucast c :: byte)" by (rule bit_word_eqI) (auto simp: bit_ucast_iff)
  then show thesis using that [of "ucast c"] ascii_casts [OF c] c [of 7] by (simp add: bit_ucast_iff)
qed

lemma sint_small: "unat (w::u32) < 2 ^ 31 \<Longrightarrow> sint w = int (unat w)"
proof -
  assume "unat w < 2 ^ 31"
  then have "unat w < 2147483648" by simp
  then have "uint w < 2147483648" using uint_nat [of w] by linarith
  moreover have "- 2147483648 \<le> uint w" using uint_nat [of w] by linarith
  ultimately have "sint w = uint w" unfolding sint_uint by (intro signed_take_bit_int_eq_self) simp_all
  then show ?thesis using uint_nat [of w] by linarith
qed

lemma unat_rune: "unat (ucast (c::u16) :: u32) = unat c" "unat c < 2 ^ 31"
proof -
  have "unat c < 2 ^ 16" by (rule unat_u16_less)
  then show "unat c < 2 ^ 31" by simp
  then show "unat (ucast c :: u32) = unat c" unfolding unsigned_ucast_eq by (intro take_bit_nat_eq_self) simp
qed

lemma sint_rune: "sint (ucast (c::u16) :: u32) < sint Runesync \<longleftrightarrow> (ucast c :: u32) < Runeself"
proof -
  have "sint (ucast c :: u32) = int (unat c)" using sint_small [of "ucast c"] unat_rune [of c] by simp
  moreover have "sint Runesync = 128" using sint_small [of Runesync] by (simp add: Runesync_def)
  moreover have "(ucast c :: u32) < Runeself \<longleftrightarrow> unat c < 128"
    using unat_rune [of c] by (simp add: word_less_nat_alt Runeself_def)
  ultimately show ?thesis by linarith
qed

lemma strchr_enc:
  assumes "0 \<notin> set rs" "c \<noteq> 0" "(ucast c :: u32) < Runeself"
  shows "strchr (enc rs @ 0 # t) (ucast c) = Inr (first_at c rs)"
proof -
  obtain a :: byte where a: "c = ucast a" "\<not> bit a 7" "ucast (ucast c :: u32) = a" using assms(3) by (rule small_rune)
  have "(ucast c :: u32) \<noteq> 0" using assms(2) ucast_rune_eq [of c 0] by simp
  then show ?thesis using chr_loop_enc [OF assms(1) a(2), of t] by (simp add: strchr_def a(3) a(1) [symmetric])
qed

lemma first_at_split:
  obtains (absent) "c \<notin> set rs" "first_at c rs = None"
  | (present) p q where "rs = p @ c # q" "c \<notin> set p" "first_at c rs = Some (length (enc p))"
proof (cases "c \<in> set rs")
  case True
  then obtain p q where "rs = p @ c # q" "c \<notin> set p" by (meson split_list_first)
  then show thesis using present first_at_Some [of c p q] by simp
next
  case False
  then show thesis using absent first_at_None [of c rs] by simp
qed

lemma last_at_skip: "c \<notin> set p \<Longrightarrow> last_at c (p @ q) i x = last_at c q (i + length (enc p)) x"
  by (induction p arbitrary: i x) (auto simp: add.assoc)

lemma strrchr_loop_enc:
  assumes "0 \<notin> set rs" "c \<noteq> 0" "(ucast c :: u32) < Runeself"
  shows "strrchr_loop (ucast c) (enc rs @ 0 # t) i p = Inr (last_at c rs i p)"
  using assms(1)
proof (induction "length rs" arbitrary: rs i p rule: less_induct)
  case less
  show ?case
  proof (cases rs rule: first_at_split [of c])
    case absent
    then show ?thesis
      by (subst strrchr_loop.simps) (simp add: strchr_enc less.prems assms last_at_None)
  next
    case (present x y)
    obtain a :: byte where "c = ucast a" "\<not> bit a 7" using assms(3) by (auto elim: small_rune)
    then have c1: "length (runetochar c) = 1" by (simp add: runetochar_byte)
    then have d: "drop (length (enc x) + 1) (enc rs @ 0 # t) = enc y @ 0 # t"
      by (simp add: present(1) del: append_assoc)
    have ih: "strrchr_loop (ucast c) (enc y @ 0 # t) j q = Inr (last_at c y j q)" for j q
      using less.hyps [of y] less.prems present(1) by simp
    have "strrchr_loop (ucast c) (enc rs @ 0 # t) i p =
      strrchr_loop (ucast c) (enc y @ 0 # t) (i + length (enc x) + 1) (Some (i + length (enc x)))"
      by (subst strrchr_loop.simps) (simp add: strchr_enc less.prems assms present(3) d [simplified])
    then show ?thesis using c1 by (simp add: ih present(1) last_at_skip [OF present(2)])
  qed
qed

lemma utfrune_enc:
  assumes "0 \<notin> set rs" "c \<noteq> 0"
  shows "utfrune (enc rs @ 0 # t) (ucast c) = Inr (first_at c rs)"
  by (simp add: utfrune_def sint_rune strchr_enc utfrune_loop_enc assms)

lemma utfrrune_enc:
  assumes "0 \<notin> set rs" "c \<noteq> 0"
  shows "utfrrune (enc rs @ 0 # t) (ucast c) = Inr (last_at c rs 0 None)"
  using assms ucast_rune_eq [of c 0]
  by (simp add: utfrrune_def sint_rune strrchr_def strrchr_loop_enc utfrrune_loop_enc)

subsection \<open>Counting in a bounded string\<close>

lemma fullrune_enc: "fullrune (runetochar r @ s) n = Inr (int (length (runetochar r)) \<le> n)"
proof (cases r rule: runetochar_cases)
  case ascii
  have "\<not> bit (ucast r :: byte) 7" using ascii(1) [of 7] by (simp add: bit_ucast_iff)
  then show ?thesis by (simp add: ascii(2) fullrune_def Let_def lead_ascii)
next
  case (two b b1)
  have "bit b 7" "\<not> bit b 5" using two(2) [of 11] by (simp_all add: two(4))
  then show ?thesis by (auto simp: two(3) fullrune_def Let_def lead_ascii lead_three)
next
  case (three b b1 b2)
  have "bit b 7" "bit b 6" "bit b 5" by (simp_all add: three(3))
  then show ?thesis by (auto simp: three(2) fullrune_def Let_def lead_ascii lead_three)
qed

text \<open>A full rune is decoded from the \<open>n\<close> bytes alone.\<close>

lemma chartorune_take:
  assumes "fullrune s (int n) = Inr True" "n \<le> length s"
  shows "chartorune (take n s) = chartorune s" "\<exists>r k. chartorune s = Inr (r, k) \<and> k \<le> n"
proof -
  have n: "0 < n" using assms(1) by (cases n) (auto simp: fullrune_def)
  have r: "rb (take n s) i = (if i < n then rb s i else Inl Efault)" for i using assms(2) by (auto simp: rb_def)
  have l: "rb s i = Inr (s ! i)" if "i < n" for i using that assms(2) by (auto simp: rb_def)
  have f: "\<not> bit (s ! 0) 7 \<or> 1 < n \<and> (\<not> (bit (s ! 0) 7 \<and> bit (s ! 0) 6 \<and> bit (s ! 0) 5) \<or> 2 < n)"
    using assms(1) n l [of 0] by (auto simp: fullrune_def Let_def lead_ascii lead_three)
  show "chartorune (take n s) = chartorune s"
    using f n l [of 1] l [of 2] by (auto simp: chartorune_def r l lead_ascii lead_three Let_def)
  show "\<exists>r k. chartorune s = Inr (r, k) \<and> k \<le> n"
    using f n l [of 1] l [of 2] by (auto simp: chartorune_def l lead_ascii lead_three Let_def)
qed

lemma utfnlen_turn:
  assumes "chartorune (b # s) = Inr (r, k)" "b \<noteq> 0" "fullrune (b # s) m = Inr (int k \<le> m)" "0 < m"
  shows "utfnlen (b # s) m =
    (if int k \<le> m then andthen (utfnlen (drop k (b # s)) (m - int k)) (\<lambda>n. Inr (Suc n)) else Inr 0)"
proof (cases "bit b 7")
  case True
  then show ?thesis using assms by (subst utfnlen.simps) (simp add: below_Runeself Let_def)
next
  case False
  then have "k = 1" using assms(1) by (simp add: chartorune_ascii)
  then show ?thesis using assms False by (subst utfnlen.simps) (simp add: below_Runeself Let_def)
qed

text \<open>The number of leading runes whose encodings fit in \<open>m\<close> bytes.\<close>

primrec fitting :: "u16 list \<Rightarrow> nat \<Rightarrow> nat" where
  "fitting [] m = 0"
| "fitting (r # rs) m = (if length (runetochar r) \<le> m then Suc (fitting rs (m - length (runetochar r))) else 0)"

lemma fitting_le: "fitting rs m \<le> length rs"
  by (induction rs arbitrary: m) auto

lemma fitting_fits: "length (enc (take (fitting rs m) rs)) \<le> m"
proof (induction rs arbitrary: m)
  case (Cons r rs) show ?case using Cons [of "m - length (runetochar r)"] by auto
qed simp

lemma fitting_most: "fitting rs m < length rs \<Longrightarrow> m < length (enc (take (Suc (fitting rs m)) rs))"
proof (induction rs arbitrary: m)
  case (Cons r rs) show ?case using Cons.prems Cons.IH [of "m - length (runetochar r)"] by (auto split: if_splits)
qed simp

lemma runetochar_pos [simp]: "0 < length (runetochar r)"
  by (cases r rule: runetochar_shape) simp

lemma runetochar_not_Nil [simp]: "runetochar r \<noteq> []"
  using runetochar_pos [of r] by (simp del: runetochar_pos)

lemma utfnlen_enc:
  assumes "0 \<notin> set rs"
  shows "utfnlen (enc rs @ 0 # t) (int m) = Inr (fitting rs m)"
  using assms
proof (induction rs arbitrary: m)
  case Nil show ?case by (subst enc_simps, subst utfnlen.simps) (simp add: Runeself_def)
next
  case (Cons r rs)
  show ?case
  proof (cases "m = 0")
    case True
    then show ?thesis using runetochar_pos [of r] by (subst utfnlen.simps) (simp del: runetochar_pos)
  next
    case False
    have "r \<noteq> 0" using Cons.prems by auto
    then obtain b s where s: "runetochar r @ enc rs @ 0 # t = b # s" "b \<noteq> 0" "chartorune (b # s) = Inr (r, length (runetochar r))"
      "drop (length (runetochar r)) (b # s) = enc rs @ 0 # t" by (rule enc_first)
    note turn = utfnlen_turn [OF s(3,2), of "int m"]
    have "fullrune (b # s) (int m) = Inr (int (length (runetochar r)) \<le> int m)"
      using fullrune_enc [of r "enc rs @ 0 # t" "int m"] s(1) by simp
    then show ?thesis
      using Cons.IH [of "m - length (runetochar r)"] Cons.prems s(1) turn False by (auto simp: s(4))
  qed
qed

subsection \<open>Copying into a bounded buffer\<close>

lemma memccpy_found:
  assumes "0 \<notin> set x" "length x < n" "i + length x < length to"
  shows "memccpy_loop to i (x @ 0 # t) 0 n =
    Inr (take i to @ x @ 0 # drop (i + length x + 1) to, Some (i + length x + 1))"
  using assms
proof (induction x arbitrary: to i n)
  case Nil
  then show ?case by (cases n) (simp_all add: upd_conv_take_nth_drop)
next
  case (Cons b x)
  then obtain k where "n = Suc k" by (cases n) auto
  then show ?case using Cons by (simp add: take_Suc_conv_app_nth)
qed

lemma memccpy_full:
  assumes "0 \<notin> set x" "n \<le> length x" "i + n \<le> length to"
  shows "memccpy_loop to i (x @ t) 0 n = Inr (take i to @ take n x @ drop (i + n) to, None)"
  using assms
proof (induction x arbitrary: to i n)
  case Nil
  then show ?case by simp
next
  case (Cons b x)
  show ?case
  proof (cases n)
    case (Suc k)
    then show ?thesis using Cons by (simp add: take_Suc_conv_app_nth)
  qed simp
qed

text \<open>\<open>back_up\<close> stops at the last byte before \<open>e\<close> that starts a rune.\<close>

lemma back_up_le: "back_up to e \<le> e"
  by (induction e) auto

lemma back_up_cont: "back_up to e < i \<Longrightarrow> i < e \<Longrightarrow> to ! i AND 0xC0 = 0x80"
  by (induction e) (auto simp: less_Suc_eq split: if_splits)

lemma back_up_start: "back_up to e \<noteq> 0 \<Longrightarrow> back_up to e < e \<and> to ! back_up to e AND 0xC0 \<noteq> 0x80"
  by (induction e) (auto split: if_splits)

lemma cont_byte: "(b::byte) AND 0xC0 = 0x80 \<longleftrightarrow> bit b 7 \<and> \<not> bit b 6"
proof -
  have c: "(0xC0::byte) = 2 ^ 7 OR 2 ^ 6" "(0x80::byte) = 2 ^ 7" by simp_all
  have t: "bit (b AND 0xC0) n \<longleftrightarrow> n = 6 \<and> bit b 6 \<or> n = 7 \<and> bit b 7" "bit (0x80::byte) n \<longleftrightarrow> n = 7" for n
    unfolding c bit_and_iff bit_or_iff bit_exp_iff possible_bit_word by (safe; simp)+
  have "b AND 0xC0 = 0x80 \<longleftrightarrow> (\<forall>n. bit (b AND 0xC0) n \<longleftrightarrow> bit (0x80::byte) n)"
    by (metis bit_eqI)
  also have "\<dots> \<longleftrightarrow> bit b 7 \<and> \<not> bit b 6"
  proof
    assume h: "\<forall>n. bit (b AND 0xC0) n \<longleftrightarrow> bit (0x80::byte) n"
    show "bit b 7 \<and> \<not> bit b 6" using spec [OF h, of 6] spec [OF h, of 7] unfolding t by simp
  next
    assume "bit b 7 \<and> \<not> bit b 6"
    then show "\<forall>n. bit (b AND 0xC0) n \<longleftrightarrow> bit (0x80::byte) n" unfolding t by blast
  qed
  finally show ?thesis .
qed

text \<open>The bytes of an encoding that are no continuation are the starts of its runes.\<close>

lemma enc_starts:
  "k < length (enc rs) \<Longrightarrow> (enc rs ! k AND 0xC0 \<noteq> 0x80) = (\<exists>j<length rs. k = length (enc (take j rs)))"
proof (induction rs arbitrary: k)
  case (Cons r rs)
  show ?case
  proof (cases r rule: runetochar_shape)
    case (1 b bs)
    have len: "length (runetochar r) = Suc (length bs)" by (simp add: 1(1))
    show ?thesis
    proof (cases "k < length (runetochar r)")
      case True
      have "(enc (r # rs) ! k AND 0xC0 \<noteq> 0x80) = (k = 0)"
        using True 1(1,2,3) by (cases k) (auto simp: nth_append cont_byte)
      moreover have "(\<exists>j<length (r # rs). k = length (enc (take j (r # rs)))) = (k = 0)"
        using True by (auto simp: Ex_less_Suc2)
      ultimately show ?thesis by simp
    next
      case False
      then have "(enc (r # rs) ! k AND 0xC0 \<noteq> 0x80) =
          (\<exists>j<length rs. k - length (runetochar r) = length (enc (take j rs)))"
        using Cons.IH [of "k - length (runetochar r)"] Cons.prems by (simp add: nth_append)
      also have "\<dots> = (\<exists>j<length (r # rs). k = length (enc (take j (r # rs))))"
        using False len by (auto simp: Ex_less_Suc2)
      finally show ?thesis .
    qed
  qed
qed simp

lemma back_up_enc:
  assumes "0 < e" "e \<le> length (enc rs)" "\<And>i. i < e \<Longrightarrow> to ! i = enc rs ! i"
  shows "\<exists>j<length rs. back_up to e = length (enc (take j rs)) \<and> e \<le> length (enc (take (Suc j) rs))"
proof -
  let ?k = "back_up to e"
  have ne: "rs \<noteq> []" using assms(1,2) by auto
  have k: "?k < e"
    using back_up_start [of to e] assms(1) by (cases "?k = 0") auto
  have "enc rs ! ?k AND 0xC0 \<noteq> 0x80"
  proof (cases "?k = 0")
    case True
    have "\<exists>j<length rs. 0 = length (enc (take j rs))" by (rule exI [of _ 0]) (use ne in simp)
    moreover have "0 < length (enc rs)" using assms(1,2) by linarith
    ultimately show ?thesis unfolding True by (subst enc_starts)
  next
    case False
    then show ?thesis using back_up_start [of to e] assms(3) [OF k] by simp
  qed
  then obtain j where j: "j < length rs" "?k = length (enc (take j rs))"
    using enc_starts [of ?k rs] k assms(2) by auto
  have "e \<le> length (enc (take (Suc j) rs))"
  proof (rule ccontr)
    let ?m = "length (enc (take (Suc j) rs))"
    assume m: "\<not> e \<le> ?m"
    then have "Suc j < length rs" using assms(2) by (cases "Suc j < length rs") auto
    then have "enc rs ! ?m AND 0xC0 \<noteq> 0x80" using enc_starts [of ?m rs] m assms(2) by auto
    moreover have "?k < ?m" using j by (simp add: take_Suc_conv_app_nth)
    ultimately show False using back_up_cont [of to e ?m] m assms(3) [of ?m] by simp
  qed
  then show ?thesis using j by blast
qed

lemma enc_nul: "0 \<in> set (enc rs) \<longleftrightarrow> 0 \<in> set rs"
  by (induction rs) (auto simp: runetochar_nul)

text \<open>A string that fits is copied whole.\<close>

lemma utfecpy_fits:
  assumes "0 \<notin> set x" "length x < e" "e \<le> length to"
  shows "utfecpy to e (x @ 0 # t) = Inr (x @ 0 # drop (length x + 1) to, length x)"
  using assms memccpy_found [of x e 0 to t] by (simp add: utfecpy_def memccpy_def)

text \<open>A string that does not fit is cut before the rune that holds the last byte but one of the buffer.\<close>

lemma utfecpy_cut:
  assumes "0 \<notin> set rs" "1 < e" "e \<le> length (enc rs)" "e \<le> length to"
  obtains j to1 where "j < length rs" "utfecpy to e (enc rs @ 0 # t) = Inr (enc (take j rs) @ 0 # to1, length (enc (take j rs)))"
    "length (enc (take j rs)) + 1 < e" "e \<le> length (enc (take (Suc j) rs)) + 1" "length to1 + length (enc (take j rs)) + 1 = length to"
    "drop e (enc (take j rs) @ 0 # to1) = drop e to"
proof -
  define b where "b = take e (enc rs) @ drop e to"
  have m: "memccpy to (enc rs @ 0 # t) 0 e = Inr (b, None)"
    using memccpy_full [of "enc rs" e 0 to "0 # t"] assms by (simp add: memccpy_def enc_nul b_def)
  have b: "b ! i = enc rs ! i" if "i < e" for i using that assms by (simp add: b_def nth_append)
  have "\<exists>j<length rs. back_up b (e - 1) = length (enc (take j rs)) \<and> e - 1 \<le> length (enc (take (Suc j) rs))"
    by (rule back_up_enc) (use assms b in simp_all)
  then obtain j where j: "j < length rs" "back_up b (e - 1) = length (enc (take j rs))" "e - 1 \<le> length (enc (take (Suc j) rs))"
    by blast
  let ?k = "length (enc (take j rs))"
  have k: "?k < e - 1" using j(2) back_up_start [of b "e - 1"] assms(2) by (cases "?k = 0") auto
  have lb: "length b = length to" using assms by (simp add: b_def)
  have "enc rs = enc (take j rs) @ enc (drop j rs)" by (simp flip: enc_simps(3))
  then have "take ?k b = enc (take j rs)" using k assms by (simp add: b_def)
  then have u: "b[?k := 0] = enc (take j rs) @ 0 # drop (Suc ?k) b"
    using k lb assms by (simp add: upd_conv_take_nth_drop)
  show thesis
  proof (rule that [OF j(1)])
    show "utfecpy to e (enc rs @ 0 # t) = Inr (enc (take j rs) @ 0 # drop (Suc ?k) b, ?k)"
      using m assms(2) j(2) u by (simp add: utfecpy_def Let_def)
    show "drop e (enc (take j rs) @ 0 # drop (Suc ?k) b) = drop e to"
      unfolding u [symmetric] using k assms by (simp add: b_def)
  qed (use k lb j(3) assms in simp_all)
qed

subsection \<open>The remaining counts and copies\<close>

lemma runenlen_enc: "runenlen rs = length (enc rs)"
  by (induction rs) (simp_all add: runetochar_def Let_def)

lemma chr_nul_spec: "0 \<notin> set x \<Longrightarrow> chr_nul (x @ 0 # t) = Inr (length x)"
  by (induction x) auto

lemma runestrlen_spec: "0 \<notin> set x \<Longrightarrow> runestrlen (x @ 0 # t) = Inr (length x)"
  by (simp add: runestrlen_def runestrchr_def chr_nul_spec)

lemma strecpy_spec:
  assumes "0 \<notin> set x" "0 < e" "e \<le> length to"
  shows "\<exists>to1. strecpy to e (x @ 0 # t) = Inr (take (e - 1) x @ 0 # to1, min (length x) (e - 1))"
proof (cases "length x < e")
  case True
  then show ?thesis using assms memccpy_found [of x e 0 to t] by (simp add: strecpy_def memccpy_def)
next
  case False
  then have m: "memccpy to (x @ 0 # t) 0 e = Inr (take e x @ drop e to, None)"
    using memccpy_full [of x e 0 to "0 # t"] assms by (simp add: memccpy_def)
  have "take (e - 1) (take e x @ drop e to) = take (e - 1) x" using False by (simp add: min_def)
  then show ?thesis using m assms False by (auto simp: strecpy_def upd_conv_take_nth_drop min_def)
qed


subsection \<open>Prefix codes\<close>

text \<open>The contract between an encoder of single values and a decoder that finds its own end.\<close>

locale prefix_code =
  fixes encode :: "'a \<Rightarrow> byte list" and decode :: "byte list \<Rightarrow> ('a \<times> nat) outcome"
  assumes decodes: "decode (encode x @ t) = Inr (x, length (encode x))"
    and nonempty: "encode x \<noteq> []"
begin

lemma encode_cancel: "encode x @ s = encode y @ t \<Longrightarrow> x = y \<and> s = t"
  using decodes [of x s] decodes [of y t] by simp

lemma sequence_unique: "concat (map encode xs) = concat (map encode ys) \<Longrightarrow> xs = ys"
proof (induction xs arbitrary: ys)
  case Nil then show ?case using nonempty by (cases ys) auto
next
  case (Cons x xs)
  then obtain y zs where "ys = y # zs" using nonempty by (cases ys) auto
  then show ?case using Cons encode_cancel [of x "concat (map encode xs)" y "concat (map encode zs)"] by simp
qed

end

interpretation utf: prefix_code runetochar chartorune
  by unfold_locales (simp_all add: decode_encode)


subsection \<open>Properties\<close>

text \<open>C30: whatever follows it in the buffer, the encoding that \<open>runetochar\<close> writes for a rune is decoded by
  \<open>chartorune\<close> to that rune, and the count returned is the number of bytes written.  Hence two
  sequences of runes with the same encoding are the same.
\<close>

theorem chartorune_runetochar:
  "chartorune (runetochar r @ t) = Inr (r, length (runetochar r)) \<and> (enc rs = enc qs \<longleftrightarrow> rs = qs)"
  using utf.decodes [of r t] utf.sequence_unique [of rs qs] by (auto simp: enc_def)

text \<open>C31: decoding is canonical.  A result of \<open>chartorune\<close> other than the error rune with count one was read
  from exactly the bytes that \<open>runetochar\<close> writes for it: no overlong form is accepted.
\<close>

theorem chartorune_canonical:
  assumes "chartorune s = Inr (r, n)" "(r, n) \<noteq> (Runeerror, 1)"
  shows "take n s = runetochar r"
  using encode_decode [OF assms] by simp

theorem chartorune_canonical_witness:
  "chartorune [0xE3, 0x81, 0x82, 0x41] = Inr (0x3042, 3) \<and> take 3 [0xE3, 0x81, 0x82, 0x41] = runetochar 0x3042"
proof -
  have "chartorune [0xE3, 0x81, 0x82, 0x41] = Inr (0x3042, 3)" by code_simp
  then show ?thesis using chartorune_canonical [of "[0xE3, 0x81, 0x82, 0x41]" "0x3042" 3] by simp
qed

text \<open>C32: \<open>utflen\<close> returns on every string, valid or not: it never reads past the terminator, whatever
  incomplete sequence stands before it, and the count lies between a third of the bytes and all of them.
\<close>

theorem utflen_returns:
  assumes "0 \<notin> set x"
  shows "\<exists>n. (\<forall>t. utflen (x @ 0 # t) = Inr n) \<and> n \<le> length x \<and> length x \<le> 3 * n"
  by (rule utflen_total [OF assms])

theorem utflen_returns_witness:
  "\<exists>n. (\<forall>t. utflen ([0x41, 0xE3, 0x81] @ 0 # t) = Inr n) \<and> n \<le> 3 \<and> 3 \<le> 3 * n"
  using utflen_returns [of "[0x41, 0xE3, 0x81]"] by (simp add: numeral_3_eq_3)

text \<open>C33: on the encoding of a sequence of runes \<open>utflen\<close> gives its length, and \<open>utfnlen\<close> with a bound of
  \<open>m\<close> bytes the number of leading runes whose encodings lie within the bound.
\<close>

theorem utfnlen_spec:
  assumes "0 \<notin> set rs"
  shows "\<exists>k. utflen (enc rs @ 0 # t) = Inr (length rs) \<and> utfnlen (enc rs @ 0 # t) (int m) = Inr k \<and>
    k \<le> length rs \<and> length (enc (take k rs)) \<le> m \<and> (k = length rs \<or> m < length (enc (take (Suc k) rs)))"
proof (intro exI conjI)
  show "fitting rs m = length rs \<or> m < length (enc (take (Suc (fitting rs m)) rs))"
    using fitting_le [of rs m] fitting_most [of rs m] by linarith
qed (simp_all add: assms utflen_enc utfnlen_enc fitting_le fitting_fits)

theorem utfnlen_spec_witness:
  "\<exists>k. utflen (enc [0x41, 0x3042] @ 0 # []) = Inr (Suc (Suc 0)) \<and> utfnlen (enc [0x41, 0x3042] @ 0 # []) 3 = Inr k \<and>
    k \<le> Suc (Suc 0) \<and> length (enc (take k [0x41, 0x3042])) \<le> 3 \<and>
    (k = Suc (Suc 0) \<or> 3 < length (enc (take (Suc k) [0x41, 0x3042])))"
  using utfnlen_spec [of "[0x41, 0x3042]" "[]" 3] by simp

text \<open>C34: in the encoding of \<open>p @ c # q\<close>, \<open>utfrune\<close> returns the start of the encoding of \<open>c\<close> when \<open>c\<close> is
  not in \<open>p\<close>, and \<open>utfrrune\<close> when it is not in \<open>q\<close>; a rune that does not occur gives nil from both.
  The runes below \<open>Runesync\<close>, which are searched for by byte, are no exception: their bytes occur in no
  other encoding.
\<close>

theorem utfrune_finds:
  assumes "0 \<notin> set (p @ c # q)" "d \<noteq> 0" "d \<notin> set (p @ c # q)"
  shows "(c \<notin> set p \<longrightarrow> utfrune (enc (p @ c # q) @ 0 # t) (ucast c) = Inr (Some (length (enc p)))) \<and>
    (c \<notin> set q \<longrightarrow> utfrrune (enc (p @ c # q) @ 0 # t) (ucast c) = Inr (Some (length (enc p)))) \<and>
    utfrune (enc (p @ c # q) @ 0 # t) (ucast d) = Inr None \<and> utfrrune (enc (p @ c # q) @ 0 # t) (ucast d) = Inr None"
proof -
  have "c \<noteq> 0" using assms(1) by auto
  then show ?thesis
    using utfrune_enc [OF assms(1), of c t] utfrrune_enc [OF assms(1), of c t]
      utfrune_enc [OF assms(1,2), of t] utfrrune_enc [OF assms(1,2), of t] first_at_Some [of c p q]
      last_at_Some [of c q p 0 None] first_at_None [OF assms(3)] last_at_None [OF assms(3), of 0 None]
    by simp
qed

theorem utfrune_finds_witness:
  "utfrune (enc ([0x3042] @ 0x2F # [0x61]) @ 0 # []) 0x2F = Inr (Some 3) \<and>
   utfrrune (enc ([0x3042] @ 0x2F # [0x61]) @ 0 # []) 0x2F = Inr (Some 3) \<and>
   utfrune (enc ([0x3042] @ 0x2F # [0x61]) @ 0 # []) 0x3043 = Inr None"
proof -
  have "length (enc [0x3042]) = 3" by code_simp
  then show ?thesis using utfrune_finds [of "[0x3042]" "0x2F" "[0x61]" "0x3043" "[]"] by simp
qed

text \<open>C35: \<open>utfecpy\<close> writes only below \<open>e\<close> and leaves a terminated string that is the encoding of a prefix of
  the source's runes: a rune is never cut in two.  When the source does not fit, the prefix ends
  before the rune that reaches the last byte but one of the buffer, even if that rune would still fit.
\<close>

theorem utfecpy_whole_runes:
  assumes "0 \<notin> set rs" "1 < e" "e \<le> length to"
  shows "\<exists>j buf. utfecpy to e (enc rs @ 0 # t) = Inr (buf, length (enc (take j rs))) \<and>
    j \<le> length rs \<and> take (length (enc (take j rs)) + 1) buf = enc (take j rs) @ [0] \<and>
    length buf = length to \<and> drop e buf = drop e to \<and>
    (if length (enc rs) < e then j = length rs
     else length (enc (take j rs)) + 1 < e \<and> e \<le> length (enc (take (Suc j) rs)) + 1)"
proof (cases "length (enc rs) < e")
  case True
  then show ?thesis
    using utfecpy_fits [of "enc rs" e to t] assms
    by (intro exI [of _ "length rs"] exI [of _ "enc rs @ 0 # drop (length (enc rs) + 1) to"])
       (simp add: enc_nul drop_Cons')
next
  case False
  obtain j to1 where u: "j < length rs"
      "utfecpy to e (enc rs @ 0 # t) = Inr (enc (take j rs) @ 0 # to1, length (enc (take j rs)))"
      "length (enc (take j rs)) + 1 < e" "e \<le> length (enc (take (Suc j) rs)) + 1"
      "length to1 + length (enc (take j rs)) + 1 = length to" "drop e (enc (take j rs) @ 0 # to1) = drop e to"
    using False by (auto intro: utfecpy_cut [OF assms(1,2) _ assms(3), of t])
  then show ?thesis using False
    by (intro exI [of _ j] exI [of _ "enc (take j rs) @ 0 # to1"]) (simp del: drop_append)
qed

theorem utfecpy_whole_runes_witness:
  "\<exists>j buf. utfecpy [1, 1, 1] 3 (enc [0x61, 0x62, 0x63] @ 0 # []) = Inr (buf, length (enc (take j [0x61, 0x62, 0x63]))) \<and>
    take (length (enc (take j [0x61, 0x62, 0x63])) + 1) buf = enc (take j [0x61, 0x62, 0x63]) @ [0]"
  using utfecpy_whole_runes [of "[0x61, 0x62, 0x63]" 3 "[1, 1, 1]" "[]"] by auto

end
