(* ===== verification/Names.thy ===== *)
theory Names
  imports Runes
begin

text \<open>
  File names: \<open>cleanname\<close> of the C library, and from \<open>9/port/chan.c\<close> the scanner of names used by \<open>namec\<close>
  (\<open>skipslash\<close>, \<open>growparse\<close>, \<open>parsename\<close>), the checks \<open>validname0\<close>, \<open>validname\<close>, \<open>validnamedup\<close> with the table
  \<open>isfrog\<close>, and \<open>kstrcpy\<close>.

  A name is a buffer of bytes; pointers into it are offsets, and every read and write is checked
  against the buffer.  The loop of \<open>cleanname\<close> is a \<open>partial_function\<close>, because its progress depends on the
  writes behind the reader; that it returns is part of \<open>cleanname_ok\<close>.

  \<open>clean_ref\<close> is the reference: a fold over the components of the name (\<open>comps\<close>) with the components kept so
  far as a stack.  \<open>cn_inv\<close> relates the buffer to that stack; its part \<open>gap\<close> counts the bytes between the
  writer and the reader, which is what makes the rewriting in place safe.
\<close>

subsection \<open>Reading and writing a name in place\<close>

definition wr :: "'a list \<Rightarrow> nat \<Rightarrow> 'a \<Rightarrow> 'a list outcome" where
  "wr buf i v = (if i < length buf then Inr (buf[i := v]) else Inl Efault)"

abbreviation slash :: byte where "slash \<equiv> 0x2F"
abbreviation dot :: byte where "dot \<equiv> 0x2E"
abbreviation hash :: byte where "hash \<equiv> 0x23"

definition SEP :: "byte \<Rightarrow> bool" where
  "SEP x \<longleftrightarrow> x = slash \<or> x = 0"


subsection \<open>Cleaning a name\<close>

text \<open>Which branch of the loop is taken at \<open>p\<close>; no more bytes are read than the tests need.\<close>

datatype cn_kind = Null | Dot | Dotdot | Elem

definition cn_kind_at :: "byte list \<Rightarrow> nat \<Rightarrow> cn_kind outcome" where
  "cn_kind_at buf p =
    andthen (rb buf p) (\<lambda>c.
      if c = slash then Inr Null
      else if c \<noteq> dot then Inr Elem
      else andthen (rb buf (p + 1)) (\<lambda>c1.
        if SEP c1 then Inr Dot
        else if c1 \<noteq> dot then Inr Elem
        else andthen (rb buf (p + 2)) (\<lambda>c2. Inr (if SEP c2 then Dotdot else Elem))))"

text \<open>\<open>while(--q > dotdot && *q != '/')\<close>\<close>

fun cn_back :: "byte list \<Rightarrow> nat \<Rightarrow> nat \<Rightarrow> nat outcome" where
  "cn_back buf q dd =
    (if q - 1 > dd then andthen (rb buf (q - 1)) (\<lambda>c. if c \<noteq> slash then cn_back buf (q - 1) dd else Inr (q - 1))
     else Inr (q - 1))"

declare cn_back.simps [simp del]

definition cn_dotdot :: "bool \<Rightarrow> byte list \<Rightarrow> nat \<Rightarrow> nat \<Rightarrow> (byte list \<times> nat \<times> nat) outcome" where
  "cn_dotdot rooted buf q dd =
    (if q > dd then andthen (cn_back buf q dd) (\<lambda>q1. Inr (buf, q1, dd))
     else if \<not> rooted then
       andthen (if q \<noteq> 0 then andthen (wr buf q slash) (\<lambda>b. Inr (b, q + 1)) else Inr (buf, q)) (\<lambda>(b1, q1).
       andthen (wr b1 q1 dot) (\<lambda>b2.
       andthen (wr b2 (q1 + 1) dot) (\<lambda>b3. Inr (b3, q1 + 2, q1 + 2))))
     else Inr (buf, q, dd))"

lemma length_wr: "wr buf i v = Inr b \<Longrightarrow> length b = length buf \<and> i < length buf"
  by (auto simp: wr_def split: if_splits)

text \<open>\<open>while((*q = *p) != '/' && *q != 0) p++, q++\<close>\<close>

function cn_copy :: "byte list \<Rightarrow> nat \<Rightarrow> nat \<Rightarrow> (byte list \<times> nat \<times> nat) outcome" where
  "cn_copy buf p q =
    andthen (rb buf p) (\<lambda>c.
    andthen (wr buf q c) (\<lambda>b. if SEP c then Inr (b, p, q) else cn_copy b (p + 1) (q + 1)))"
  by pat_completeness auto
termination
  by (relation "measure (\<lambda>(buf, p, q). length buf - p)") (auto simp: rb_def dest!: length_wr split: if_splits)

declare cn_copy.simps [simp del]

definition cn_elem :: "bool \<Rightarrow> byte list \<Rightarrow> nat \<Rightarrow> nat \<Rightarrow> (byte list \<times> nat \<times> nat) outcome" where
  "cn_elem rooted buf p q =
    andthen (if q \<noteq> of_bool rooted then andthen (wr buf q slash) (\<lambda>b. Inr (b, q + 1)) else Inr (buf, q)) (\<lambda>(b1, q1).
      cn_copy b1 p q1)"

text \<open>The loop; \<open>None\<close> would be a loop that does not end.\<close>

partial_function (option) cn_loop ::
  "bool \<Rightarrow> byte list \<Rightarrow> nat \<Rightarrow> nat \<Rightarrow> nat \<Rightarrow> bool \<Rightarrow> (byte list \<times> nat \<times> bool) outcome option" where
  "cn_loop rooted buf p q dd er =
    (case rb buf p of
       Inl e \<Rightarrow> Some (Inl e)
     | Inr c \<Rightarrow>
       if c = 0 then Some (Inr (buf, q, er))
       else (case cn_kind_at buf p of
         Inl e \<Rightarrow> Some (Inl e)
       | Inr k \<Rightarrow>
         if k = Null then cn_loop rooted buf (p + 1) q dd er
         else if k = Dot then cn_loop rooted buf (p + 1) q dd (er \<or> p = 0)
         else if k = Dotdot then
           (case cn_dotdot rooted buf q dd of
              Inl e \<Rightarrow> Some (Inl e)
            | Inr x \<Rightarrow> cn_loop rooted (fst x) (p + 2) (fst (snd x)) (snd (snd x)) (er \<or> fst (snd x) = 0))
         else
           (case cn_elem rooted buf p q of
              Inl e \<Rightarrow> Some (Inl e)
            | Inr x \<Rightarrow> cn_loop rooted (fst x) (fst (snd x)) (snd (snd x)) dd er)))"

declare cn_loop.simps [code]

definition cn_finish :: "byte list \<Rightarrow> nat \<Rightarrow> bool \<Rightarrow> byte list outcome" where
  "cn_finish buf q er =
    andthen (if q = 0 then andthen (wr buf q dot) (\<lambda>b. Inr (b, q + 1)) else Inr (buf, q)) (\<lambda>(b1, q1).
    andthen (wr b1 q1 0) (\<lambda>b2.
    andthen (rb b2 0) (\<lambda>c.
      if er \<and> c = hash then
        andthen (blit (take (strlen b2 + 1) b2) 2 b2) (\<lambda>b3.
        andthen (wr b3 0 dot) (\<lambda>b4. wr b4 1 slash))
      else Inr b2)))"

definition cleanname :: "byte list \<Rightarrow> byte list outcome option" where
  "cleanname name =
    (case rb name 0 of
       Inl e \<Rightarrow> Some (Inl e)
     | Inr c \<Rightarrow>
       (let rooted = (c = slash); r = of_bool rooted in
        case cn_loop rooted name r r r False of
          None \<Rightarrow> None
        | Some (Inl e) \<Rightarrow> Some (Inl e)
        | Some (Inr (buf, q, er)) \<Rightarrow> Some (cn_finish buf q er)))"


subsection \<open>The reference\<close>

text \<open>The non-empty parts of a name between slashes.\<close>

function comps :: "byte list \<Rightarrow> byte list list" where
  "comps [] = []"
| "comps (c # y) =
    (if c = slash then comps y
     else (c # takeWhile (\<lambda>a. a \<noteq> slash) y) # comps (dropWhile (\<lambda>a. a \<noteq> slash) y))"
  by pat_completeness auto
termination
  by (relation "measure length") (auto simp: less_Suc_eq_le length_dropWhile_le)

text \<open>
  One component, on the components kept so far: \<open>.\<close> changes nothing, \<open>..\<close> takes a component back that
  is not itself \<open>..\<close>, or stays when there is none and the name is relative.  The flag says that
  the beginning of a relative name was erased.
\<close>

definition clean_step :: "bool \<Rightarrow> byte list \<Rightarrow> byte list list \<times> bool \<Rightarrow> byte list list \<times> bool" where
  "clean_step rooted e =
    (\<lambda>(st, er).
      if e = [dot] then (st, er)
      else if e = [dot, dot] then
        (if st \<noteq> [] \<and> last st \<noteq> [dot, dot] then (butlast st, er \<or> \<not> rooted \<and> butlast st = [])
         else if \<not> rooted then (st @ [[dot, dot]], er) else (st, er))
      else (st @ [e], er))"

primrec joined :: "byte list list \<Rightarrow> byte list" where
  "joined [] = []"
| "joined (e # es) = (if es = [] then e else e @ slash # joined es)"

definition render :: "bool \<Rightarrow> byte list list \<Rightarrow> byte list" where
  "render rooted st = (if rooted then [slash] else []) @ joined st"

definition clean_ref :: "byte list \<Rightarrow> byte list" where
  "clean_ref x =
    (let rooted = (take 1 x = [slash]);
         (st, er) = fold (clean_step rooted) (comps x) ([], take 2 x = [dot, slash] \<or> x = [dot]);
         s = render rooted st; s1 = (if s = [] then [dot] else s)
     in if er \<and> take 1 s1 = [hash] then dot # slash # s1 else s1)"

abbreviation dotdot :: "byte list" where "dotdot \<equiv> [dot, dot]"

lemma rb_drop: "drop p buf = e @ s \<Longrightarrow> i < length e \<Longrightarrow> rb buf (p + i) = Inr (e ! i)"
proof -
  assume a: "drop p buf = e @ s" "i < length e"
  have l: "length (drop p buf) = length e + length s" using a(1) by simp
  have "drop p buf ! i = e ! i" using a by (simp add: nth_append)
  then show ?thesis using a(2) l by (simp add: rb_def)
qed

lemma SEP_simps [simp]: "SEP slash" "SEP 0" "\<not> SEP dot"
  by (simp_all add: SEP_def)

lemma cn_kind_slash: "drop p buf = slash # u \<Longrightarrow> cn_kind_at buf p = Inr Null"
  using rb_drop [of p buf "[slash]" u 0] by (simp add: cn_kind_at_def)

lemma cn_kind_run:
  assumes d: "drop p buf = e @ s # u" and e: "e \<noteq> []" "\<forall>c\<in>set e. \<not> SEP c" and s: "SEP s"
  shows "cn_kind_at buf p = Inr (if e = [dot] then Dot else if e = dotdot then Dotdot else Elem)"
proof -
  have r: "rb buf (p + i) = Inr ((e @ [s]) ! i)" if "i \<le> length e" for i
    using rb_drop [of p buf "e @ [s]" u i] d that by simp
  obtain c f where f: "e = c # f" using e(1) by (cases e) auto
  have c: "\<not> SEP c" "c \<noteq> slash" using e(2) f by (auto simp: SEP_def)
  show ?thesis
  proof (cases f)
    case Nil
    then show ?thesis using r [of 0] r [of 1] c s f by (simp add: cn_kind_at_def)
  next
    case (Cons c1 g)
    have c1: "\<not> SEP c1" using e(2) f Cons by simp
    show ?thesis
    proof (cases g)
      case Nil
      then show ?thesis using r [of 0] r [of 1] r [of 2] c c1 s f Cons by (simp add: cn_kind_at_def)
    next
      case (Cons c2 h)
      then have c2: "\<not> SEP c2" using e(2) f \<open>f = _\<close> by simp
      then show ?thesis using r [of 0] r [of 1] r [of 2] c c1 f \<open>f = _\<close> Cons by (simp add: cn_kind_at_def)
    qed
  qed
qed

lemma cn_copy_run:
  "\<lbrakk>drop p buf = e @ s # u; \<forall>c\<in>set e. \<not> SEP c; SEP s; q \<le> p\<rbrakk> \<Longrightarrow>
   cn_copy buf p q = Inr (take q buf @ e @ s # drop (q + length e + 1) buf, p + length e, q + length e)"
proof (induction e arbitrary: buf p q)
  case Nil
  have "p < length buf" using Nil(1) by (metis append_Nil drop_all list.distinct(1) not_le)
  moreover have "rb buf p = Inr s" using rb_drop [of p buf "[s]" u 0] Nil(1) by simp
  ultimately show ?case using Nil(3,4) by (subst cn_copy.simps) (simp add: wr_def upd_conv_take_nth_drop)
next
  case (Cons c e)
  have p: "p < length buf" using Cons(2) by (metis append_is_Nil_conv drop_all list.distinct(1) not_le)
  have r: "rb buf p = Inr c" using rb_drop [of p buf "[c]" "e @ s # u" 0] Cons(2) by simp
  let ?b = "buf[q := c]"
  have "drop (p + 1) ?b = drop (p + 1) buf" using Cons(5) by simp
  also have "\<dots> = e @ s # u" using Cons(2) by (metis append_Cons drop_Suc plus_1_eq_Suc tl_drop list.sel(3) add.commute)
  finally have d: "drop (p + 1) ?b = e @ s # u" .
  have "cn_copy ?b (p + 1) (q + 1) =
      Inr (take (q + 1) ?b @ e @ s # drop (q + 1 + length e + 1) ?b, p + 1 + length e, q + 1 + length e)"
    by (rule Cons.IH [OF d]) (use Cons.prems in auto)
  moreover have "take (q + 1) ?b = take q buf @ [c]" using p Cons(5) by (simp add: take_Suc_conv_app_nth)
  moreover have "\<not> SEP c" using Cons(3) by simp
  ultimately show ?case using r p Cons(5) by (subst cn_copy.simps) (simp add: wr_def)
qed

lemma cn_back_to:
  "\<lbrakk>m < q; q \<le> length buf; dd \<le> m; m = dd \<or> buf ! m = slash; \<And>i. m < i \<Longrightarrow> i < q \<Longrightarrow> buf ! i \<noteq> slash\<rbrakk> \<Longrightarrow>
   cn_back buf q dd = Inr m"
proof (induction q)
  case (Suc q)
  show ?case
  proof (cases "m = q")
    case True
    then show ?thesis using Suc.prems by (subst cn_back.simps) (auto simp: rb_def)
  next
    case False
    then have "cn_back buf q dd = Inr m" using Suc by (intro Suc.IH) auto
    moreover have "buf ! q \<noteq> slash" using Suc.prems False by auto
    ultimately show ?thesis using Suc.prems False by (subst cn_back.simps) (simp add: rb_def)
  qed
qed simp

lemma joined_snoc: "joined (st @ [e]) = (if st = [] then e else joined st @ slash # e)"
  by (induction st) auto

lemma render_snoc: "render rooted (st @ [e]) = (if st = [] then render rooted [] @ e else render rooted st @ slash # e)"
  by (simp add: render_def joined_snoc)

lemma render_nil: "render rooted [] = (if rooted then [slash] else [])"
  by (simp add: render_def)

text \<open>The components kept: the leading \<open>..\<close> of a relative name, then real ones.\<close>

definition comp_ok :: "byte list \<Rightarrow> bool" where
  "comp_ok e \<longleftrightarrow> e \<noteq> [] \<and> (\<forall>c\<in>set e. \<not> SEP c)"

definition st_ok :: "bool \<Rightarrow> byte list list \<Rightarrow> bool" where
  "st_ok rooted st \<longleftrightarrow> (\<forall>e\<in>set st. comp_ok e) \<and>
     dotdot \<notin> set (dropWhile (\<lambda>e. e = dotdot) st) \<and> (rooted \<longrightarrow> dotdot \<notin> set st)"

abbreviation dots :: "byte list list \<Rightarrow> byte list list" where
  "dots st \<equiv> takeWhile (\<lambda>e. e = dotdot) st"

lemma dropWhile_snoc: "dropWhile P (xs @ [x]) = (if \<forall>y\<in>set xs. P y then (if P x then [] else [x]) else dropWhile P xs @ [x])"
  by (induction xs) auto

lemma takeWhile_snoc: "takeWhile P (xs @ [x]) = (if (\<forall>y\<in>set xs. P y) \<and> P x then xs @ [x] else takeWhile P xs)"
  by (induction xs) auto

lemma st_ok_push: "st_ok rooted st \<Longrightarrow> comp_ok e \<Longrightarrow> e \<noteq> dotdot \<Longrightarrow> st_ok rooted (st @ [e]) \<and> dots (st @ [e]) = dots st"
  by (auto simp: st_ok_def dropWhile_snoc takeWhile_snoc)

lemma comp_ok_dotdot [simp]: "comp_ok dotdot"
  by (simp add: comp_ok_def)

text \<open>The top of the stack is a real component exactly when there is one.\<close>

lemma st_ok_all_dots: "st_ok rooted st \<Longrightarrow> st = [] \<or> last st = dotdot \<Longrightarrow> \<forall>e\<in>set st. e = dotdot"
proof (cases st rule: rev_cases)
  case (snoc xs e)
  assume "st_ok rooted st" "st = [] \<or> last st = dotdot"
  then show ?thesis using snoc by (auto simp: st_ok_def dropWhile_snoc split: if_splits)
qed simp

lemma st_ok_pushdots:
  assumes "st_ok False st" "st = [] \<or> last st = dotdot"
  shows "st_ok False (st @ [dotdot]) \<and> dots (st @ [dotdot]) = st @ [dotdot] \<and> dots st = st"
proof -
  have a: "\<forall>e\<in>set st. e = dotdot" by (rule st_ok_all_dots [OF assms])
  then have "dots st = st" by simp
  with a assms(1) show ?thesis by (simp add: st_ok_def dropWhile_snoc takeWhile_snoc)
qed

lemma st_ok_pop:
  assumes "st_ok rooted (st @ [e])" "e \<noteq> dotdot"
  shows "st_ok rooted st \<and> dots (st @ [e]) = dots st \<and> comp_ok e"
proof -
  have "dotdot \<notin> set (dropWhile (\<lambda>e. e = dotdot) st)"
  proof (cases "\<forall>y\<in>set st. y = dotdot")
    case True
    then have "dropWhile (\<lambda>e. e = dotdot) st = []" by simp
    then show ?thesis by (simp only: list.set empty_iff not_False_eq_True)
  next
    case False
    then have "dropWhile (\<lambda>e. e = dotdot) (st @ [e]) = dropWhile (\<lambda>e. e = dotdot) st @ [e]"
      unfolding dropWhile_snoc by (rule if_not_P)
    then show ?thesis using assms(1) unfolding st_ok_def by (simp only: set_append Un_iff) blast
  qed
  then show ?thesis using assms by (simp add: st_ok_def takeWhile_snoc)
qed

lemma length_render_prefix: "length (render rooted (dots st)) \<le> length (render rooted st)"
proof -
  have "length (joined (take n st)) \<le> length (joined st)" for n
  proof (induction st arbitrary: n)
    case (Cons e st) show ?case using Cons [of "n - 1"] by (cases n) auto
  qed simp
  moreover have "dots st = take (length (dots st)) st" by (rule takeWhile_eq_take)
  ultimately have "length (joined (dots st)) \<le> length (joined st)" by metis
  then show ?thesis by (simp add: render_def)
qed

text \<open>The invariant of the loop, for the name \<open>x\<close> followed in memory by its terminator and \<open>t\<close>.\<close>

definition gap :: "byte list \<Rightarrow> nat \<Rightarrow> nat \<Rightarrow> bool \<Rightarrow> bool \<Rightarrow> byte list list \<Rightarrow> bool" where
  "gap buf p q er rooted st \<longleftrightarrow>
     q + (if st \<noteq> [] \<and> \<not> SEP (buf ! p) then 1 else 0) + (if er then 2 else 0) \<le> p \<or>
     er \<and> st = [] \<and> p = 1 \<and> q = 0 \<and> SEP (buf ! 1)"

definition cn_inv :: "bool \<Rightarrow> byte list \<Rightarrow> byte list \<Rightarrow> byte list \<Rightarrow> nat \<Rightarrow> nat \<Rightarrow> nat \<Rightarrow> bool \<Rightarrow> byte list list \<Rightarrow> bool" where
  "cn_inv rooted x t buf p q dd er st \<longleftrightarrow>
     length buf = length x + 1 + length t \<and> p \<le> length x \<and> drop p buf = drop p x @ 0 # t \<and>
     take q buf = render rooted st \<and> q = length (render rooted st) \<and> dd = length (render rooted (dots st)) \<and>
     st_ok rooted st \<and> (rooted \<longrightarrow> \<not> er) \<and> gap buf p q er rooted st"

lemma gap_le: "gap buf p q er rooted st \<Longrightarrow> q \<le> p"
  by (auto simp: gap_def)

lemma drop_next: "drop p x = c # y \<Longrightarrow> drop (p + 1) x = y"
  by (metis Suc_eq_plus1 drop_Suc list.sel(3) tl_drop)

lemma nth_drop0: "drop p x = c # y \<Longrightarrow> x ! p = c \<and> p < length x"
  by (metis drop_all list.distinct(1) not_le nth_via_drop)

lemma cn_invI:
  "\<lbrakk>length buf = length x + 1 + length t; p \<le> length x; drop p buf = drop p x @ 0 # t; take q buf = render rooted st;
    q = length (render rooted st); dd = length (render rooted (dots st)); st_ok rooted st; rooted \<longrightarrow> \<not> er;
    gap buf p q er rooted st\<rbrakk> \<Longrightarrow> cn_inv rooted x t buf p q dd er st"
  by (simp add: cn_inv_def)

lemma cn_invD:
  assumes "cn_inv rooted x t buf p q dd er st"
  shows "length buf = length x + 1 + length t" "p \<le> length x" "drop p buf = drop p x @ 0 # t"
    "take q buf = render rooted st" "q = length (render rooted st)" "dd = length (render rooted (dots st))"
    "st_ok rooted st" "rooted \<longrightarrow> \<not> er" "gap buf p q er rooted st" "q \<le> p"
  using assms gap_le [of buf p q er rooted st] unfolding cn_inv_def by blast+

lemma inv_null:
  assumes i: "cn_inv rooted x t buf p q dd er st" and d: "drop p x = slash # y"
  shows "cn_inv rooted x t buf (p + 1) q dd er st"
proof (rule cn_invI)
  have b: "drop p buf = slash # y @ 0 # t" using cn_invD(3) [OF i] d by simp
  show "gap buf (p + 1) q er rooted st" using cn_invD(9) [OF i] nth_drop0 [OF b] by (auto simp: gap_def split: if_splits)
  show "drop (p + 1) buf = drop (p + 1) x @ 0 # t" unfolding drop_next [OF d] drop_next [OF b] ..
  show "p + 1 \<le> length x" using nth_drop0 [OF d] by simp
qed (rule cn_invD [OF i])+

lemma inv_dot:
  assumes i: "cn_inv rooted x t buf p q dd er st" and d: "drop p x = dot # y" "drop p buf = dot # s # u" "SEP s"
  shows "cn_inv rooted x t buf (p + 1) q dd (er \<or> p = 0) st"
proof (rule cn_invI)
  have b: "drop p buf = dot # y @ 0 # t" using cn_invD(3) [OF i] d by simp
  have n: "buf ! (p + 1) = s" "buf ! p = dot" using nth_drop0 [OF drop_next [OF d(2)]] nth_drop0 [OF d(2)] by simp_all
  show "gap buf (p + 1) q (er \<or> p = 0) rooted st"
    using cn_invD(9) [OF i] d(3) n by (auto simp: gap_def split: if_splits)
  show "drop (p + 1) buf = drop (p + 1) x @ 0 # t" unfolding drop_next [OF d(1)] drop_next [OF b] ..
  show "p + 1 \<le> length x" using nth_drop0 [OF d(1)] by simp
  show "rooted \<longrightarrow> \<not> (er \<or> p = 0)"
    using cn_invD(5,8,10) [OF i] by (auto simp: render_def)
qed (rule cn_invD [OF i])+

lemma render_empty: "st_ok rooted st \<Longrightarrow> length (render rooted st) = of_bool rooted \<longleftrightarrow> st = []"
  by (cases st) (auto simp: render_def st_ok_def comp_ok_def)

text \<open>Writing below \<open>p\<close> does not change what is still to be read.\<close>

lemma drop_write:
  assumes "length w + q \<le> p" "p \<le> length buf"
  shows "drop p (take q buf @ w @ drop (q + length w) buf) = drop p buf"
proof -
  have "length (take q buf @ w) = q + length w" using assms by simp
  then have "drop p ((take q buf @ w) @ drop (q + length w) buf) = drop (p - (q + length w)) (drop (q + length w) buf)"
    using assms(1) by (simp only: drop_append) simp
  then show ?thesis using assms(1) by (simp add: add.commute)
qed

lemma wr_take: "i < length buf \<Longrightarrow> wr buf i v = Inr (take i buf @ [v] @ drop (i + 1) buf)"
  by (simp add: wr_def upd_conv_take_nth_drop)

lemma inv_elem:
  assumes i: "cn_inv rooted x t buf p q dd er st" and e: "comp_ok e" "e \<noteq> dotdot"
    and d: "drop p x = e @ z" "drop p buf = e @ s # u" "SEP s"
  shows "\<exists>b q1. cn_elem rooted buf p q = Inr (b, p + length e, q1) \<and>
    cn_inv rooted x t b (p + length e) q1 dd er (st @ [e])"
proof -
  define sl where "sl = (if st = [] then [] else [slash])"
  define w where "w = sl @ e @ [s]"
  define b where "b = take q buf @ w @ drop (q + length w) buf"
  define q1 where "q1 = q + length sl + length e"
  note q = cn_invD(5) [OF i] and g = cn_invD(9) [OF i]
  have lb: "p + length e < length buf" using arg_cong [OF d(2), of length] by simp
  have bp: "\<not> SEP (buf ! p)" using d(2) e(1) by (cases e) (auto simp: comp_ok_def dest: nth_drop0)
  have qp: "q + length sl \<le> p" using g bp by (auto simp: gap_def sl_def split: if_splits)
  have r: "q \<noteq> of_bool rooted \<longleftrightarrow> st \<noteq> []" using render_empty [OF cn_invD(7) [OF i]] q by simp
  have ce: "\<forall>c\<in>set e. \<not> SEP c" using e(1) by (simp add: comp_ok_def)
  define b1 where "b1 = take q buf @ sl @ drop (q + length sl) buf"
  have l1: "length (take q buf @ sl) = q + length sl" using qp lb by simp
  have d1: "drop p b1 = drop p buf" unfolding b1_def by (rule drop_write) (use qp lb in simp_all)
  have "cn_copy b1 p (q + length sl) = Inr (take (q + length sl) b1 @ e @ s # drop (q + length sl + length e + 1) b1, p + length e, q1)"
    unfolding q1_def by (rule cn_copy_run) (use d1 d(2,3) ce qp in simp_all)
  also have "take (q + length sl) b1 @ e @ s # drop (q + length sl + length e + 1) b1 = b"
    using l1 by (simp add: b1_def b_def w_def add.commute add.left_commute)
  finally have "cn_copy b1 p (q + length sl) = Inr (b, p + length e, q1)" .
  moreover have "wr buf q slash = Inr b1" if "st \<noteq> []"
    using wr_take [of q buf slash] qp lb that by (simp add: b1_def sl_def)
  ultimately have c: "cn_elem rooted buf p q = Inr (b, p + length e, q1)"
    using r by (cases "st = []") (simp_all add: cn_elem_def sl_def b1_def)
  have lw: "length w = length sl + length e + 1" by (simp add: w_def)
  have du: "drop (p + length e) buf = s # u" using d(2) by (metis add.commute append_eq_conv_conj drop_drop)
  have db: "drop (p + length e) b = s # u"
  proof (cases "q + length sl = p")
    case True
    have "length (take q buf @ sl @ e) = p + length e" using l1 True by simp
    moreover have "b = (take q buf @ sl @ e) @ s # drop (p + length e + 1) buf" by (simp add: b_def w_def True [symmetric] add.assoc)
    ultimately show ?thesis using drop_next [OF du] by simp
  next
    case False
    then show ?thesis using drop_write [of w q "p + length e" buf] qp lb du lw by (simp add: b_def)
  qed
  have "cn_inv rooted x t b (p + length e) q1 dd er (st @ [e])"
  proof (rule cn_invI)
    have "b = (take q buf @ sl @ e) @ s # drop (q + length w) buf" by (simp add: b_def w_def)
    moreover have "length (take q buf @ sl @ e) = q1" using l1 by (simp add: q1_def)
    ultimately have "take q1 b = take q buf @ sl @ e" by (metis append_eq_conv_conj)
    then show "take q1 b = render rooted (st @ [e])"
      using cn_invD(4) [OF i] by (auto simp: render_snoc sl_def)
    show "q1 = length (render rooted (st @ [e]))" using q by (simp add: render_snoc q1_def sl_def)
    show "st_ok rooted (st @ [e])" "dd = length (render rooted (dots (st @ [e])))"
      using st_ok_push [OF cn_invD(7) [OF i] e] cn_invD(6) [OF i] by simp_all
    show "drop (p + length e) b = drop (p + length e) x @ 0 # t"
      using db du cn_invD(3) [OF i] d by (metis append_eq_conv_conj drop_drop add.commute append_assoc)
    show "gap b (p + length e) q1 er rooted (st @ [e])"
      using g bp nth_drop0 [OF db] d(3) by (auto simp: gap_def q1_def sl_def split: if_splits)
    show "length b = length x + 1 + length t" using cn_invD(1) [OF i] qp lb lw by (simp add: b_def)
    show "p + length e \<le> length x" using arg_cong [OF d(1), of length] cn_invD(2) [OF i] by simp
  qed (rule cn_invD(8) [OF i])
  with c show ?thesis by blast
qed

text \<open>\<open>..\<close>: a component is taken back, or \<open>..\<close> is written, or nothing happens at the root.\<close>

lemma inv_pop:
  assumes i: "cn_inv rooted x t buf p q dd er (st @ [e])" and e: "e \<noteq> dotdot"
  shows "dd < q \<and> cn_back buf q dd = Inr (length (render rooted st))"
proof -
  let ?m = "length (render rooted st)"
  have ok: "st_ok rooted st" "dots (st @ [e]) = dots st" "comp_ok e" using st_ok_pop [OF cn_invD(7) [OF i] e] by simp_all
  have e0: "e \<noteq> []" "slash \<notin> set e" using ok(3) by (auto simp: comp_ok_def SEP_def)
  have q: "q = length (render rooted (st @ [e]))" by (rule cn_invD(5) [OF i])
  have dm: "dd \<le> ?m" using length_render_prefix [of rooted st] cn_invD(6) [OF i] ok(2) by simp
  have mq: "?m < q" using q e0(1) by (auto simp: render_snoc)
  have lb: "q \<le> length buf" using cn_invD(1,2,10) [OF i] by linarith
  have b: "buf ! k = render rooted (st @ [e]) ! k" if "k < q" for k
    using that cn_invD(4) [OF i] by (metis nth_take)
  have "cn_back buf q dd = Inr ?m"
  proof (rule cn_back_to [OF mq lb dm])
    show "?m = dd \<or> buf ! ?m = slash"
      using b [OF mq] ok(2) cn_invD(6) [OF i] by (cases "st = []") (simp_all add: render_snoc)
    fix k assume k: "?m < k" "k < q"
    have "render rooted (st @ [e]) ! k \<in> set e"
      using k q by (auto simp: render_snoc nth_append nth_Cons split: if_splits nat.splits)
    then show "buf ! k \<noteq> slash" using b [OF k(2)] e0(2) by metis
  qed
  then show ?thesis using dm mq by simp
qed

lemma inv_pushdots:
  assumes i: "cn_inv False x t buf p q dd er st" and dots: "st = [] \<or> last st = dotdot"
    and d: "drop p x = dotdot @ z" "drop p buf = dotdot @ s # u" "SEP s"
  shows "\<exists>b q1. cn_dotdot False buf q dd = Inr (b, q1, q1) \<and> 0 < q1 \<and>
    cn_inv False x t b (p + 2) q1 q1 er (st @ [dotdot])"
proof -
  define sl where "sl = (if st = [] then [] else [slash])"
  define w where "w = sl @ dotdot"
  define b where "b = take q buf @ w @ drop (q + length w) buf"
  define q1 where "q1 = q + length sl + 2"
  note q = cn_invD(5) [OF i] and g = cn_invD(9) [OF i] and ok = cn_invD(7) [OF i]
  have d2: "drop (p + 2) x = z" "drop (p + 2) buf = s # u"
    using drop_next [OF drop_next, of p x dot dot z] drop_next [OF drop_next, of p buf dot dot "s # u"] d by simp_all
  have lb: "p + 2 < length buf" using nth_drop0 [OF d2(2)] by simp
  have bp: "\<not> SEP (buf ! p)" using nth_drop0 [of p buf dot] d(2) by simp
  have qp: "q + length sl \<le> p" using g bp by (auto simp: gap_def sl_def split: if_splits)
  have lw: "length w = length sl + 2" by (simp add: w_def)
  have r: "q \<noteq> 0 \<longleftrightarrow> st \<noteq> []" using render_empty [OF ok] q by simp
  have ds: "st_ok False (st @ [dotdot])" "dots (st @ [dotdot]) = st @ [dotdot]" "dots st = st"
    using st_ok_pushdots [OF ok dots] by simp_all
  have qd: "\<not> dd < q" using cn_invD(6) [OF i] q ds(3) by simp
  define b1 where "b1 = take q buf @ sl @ drop (q + length sl) buf"
  have w1: "wr buf q slash = Inr b1" if "st \<noteq> []"
    using wr_take [of q buf slash] qp lb that by (simp add: b1_def sl_def)
  have l1: "length (take q buf @ sl) = q + length sl" "length b1 = length buf" using qp lb by (simp_all add: b1_def)
  have w2: "wr b1 (q + length sl) dot = Inr (take q buf @ sl @ [dot] @ drop (q + length sl + 1) buf)" (is "_ = Inr ?b2")
    using wr_take [of "q + length sl" b1 dot] l1 qp lb by (simp add: b1_def)
  have l2: "length (take q buf @ sl @ [dot]) = q + length sl + 1" "length ?b2 = length buf" using qp lb by simp_all
  have "wr ?b2 (q + length sl + 1) dot = Inr (take (q + length sl + 1) ?b2 @ [dot] @ drop (q + length sl + 1 + 1) ?b2)"
    by (rule wr_take) (use l2 qp lb in simp)
  also have "take (q + length sl + 1) ?b2 @ [dot] @ drop (q + length sl + 1 + 1) ?b2 = b"
    using l2(1) by (simp add: b_def w_def add.assoc)
  finally have w3: "wr ?b2 (q + length sl + 1) dot = Inr b" .
  have c: "cn_dotdot False buf q dd = Inr (b, q1, q1)"
    using qd r w1 w2 w3 by (cases "st = []") (simp_all add: cn_dotdot_def q1_def sl_def b1_def)
  have "cn_inv False x t b (p + 2) q1 q1 er (st @ [dotdot])"
  proof (rule cn_invI)
    have "b = (take q buf @ w) @ drop (q + length w) buf" by (simp add: b_def)
    moreover have "length (take q buf @ w) = q1" using l1 by (simp add: q1_def w_def)
    ultimately have "take q1 b = take q buf @ w" by (metis append_eq_conv_conj)
    then show "take q1 b = render False (st @ [dotdot])"
      using cn_invD(4) [OF i] by (auto simp: render_snoc sl_def w_def)
    show q1: "q1 = length (render False (st @ [dotdot]))" using q by (simp add: render_snoc q1_def sl_def)
    show "q1 = length (render False (dots (st @ [dotdot])))" using q1 ds(2) by simp
    have db: "drop (p + 2) b = s # u"
      unfolding b_def using drop_write [of w q "p + 2" buf] lw qp lb d2(2) by simp
    then show "drop (p + 2) b = drop (p + 2) x @ 0 # t" using d2 cn_invD(3) [OF i] d by simp
    show "gap b (p + 2) q1 er False (st @ [dotdot])"
      using g bp nth_drop0 [OF db] d(3) by (auto simp: gap_def q1_def sl_def split: if_splits)
    show "length b = length x + 1 + length t" using cn_invD(1) [OF i] qp lb lw by (simp add: b_def)
    show "p + 2 \<le> length x" using arg_cong [OF d(1), of length] cn_invD(2) [OF i] by simp
  qed (use ds(1) in simp_all)
  then show ?thesis using c by (auto simp: q1_def)
qed

lemma inv_dotdot:
  assumes i: "cn_inv rooted x t buf p q dd er st"
    and d: "drop p x = dotdot @ z" "drop p buf = dotdot @ s # u" "SEP s"
    and c: "clean_step rooted dotdot (st, er) = (st1, er1)"
  shows "\<exists>b q1 dd1. cn_dotdot rooted buf q dd = Inr (b, q1, dd1) \<and> (er \<or> q1 = 0) = er1 \<and>
    cn_inv rooted x t b (p + 2) q1 dd1 er1 st1"
proof -
  note ok = cn_invD(7) [OF i] and q = cn_invD(5) [OF i]
  have d2: "drop (p + 2) x = z" "drop (p + 2) buf = s # u"
    using drop_next [OF drop_next, of p x dot dot z] drop_next [OF drop_next, of p buf dot dot "s # u"] d by simp_all
  have dr: "drop (p + 2) buf = drop (p + 2) x @ 0 # t" using d2 cn_invD(3) [OF i] d by simp
  have p2: "p + 2 \<le> length x" using arg_cong [OF d(1), of length] cn_invD(2) [OF i] by simp
  show ?thesis
  proof (cases "st \<noteq> [] \<and> last st \<noteq> dotdot")
    case True
    then obtain st0 e where st: "st = st0 @ [e]" "e \<noteq> dotdot" by (metis append_butlast_last_id)
    note pop = inv_pop [OF i [unfolded st(1)] st(2)] and ok0 = st_ok_pop [OF ok [unfolded st(1)] st(2)]
    let ?m = "length (render rooted st0)"
    have r: "cn_dotdot rooted buf q dd = Inr (buf, ?m, dd)" using pop by (simp add: cn_dotdot_def)
    have cs: "st1 = st0" "er1 = (er \<or> \<not> rooted \<and> st0 = [])" using c True st by (auto simp: clean_step_def)
    have m0: "?m = 0 \<longleftrightarrow> \<not> rooted \<and> st0 = []"
      using ok0 by (cases st0) (auto simp: render_def st_ok_def comp_ok_def)
    have v: "render rooted st = render rooted st0 @ (if st0 = [] then e else slash # e)"
      by (simp add: st(1) render_snoc)
    have mq: "?m < q" using q st(1) ok0 by (auto simp: render_snoc comp_ok_def)
    have "cn_inv rooted x t buf (p + 2) ?m dd er1 st0"
    proof (rule cn_invI)
      have "take ?m (take q buf) = render rooted st0" using cn_invD(4) [OF i] v by simp
      then show "take ?m buf = render rooted st0" using mq by (simp add: min_def)
      show "dd = length (render rooted (dots st0))" using cn_invD(6) [OF i] ok0 st(1) by simp
      show "gap buf (p + 2) ?m er1 rooted st0"
        using cn_invD(9) [OF i] mq nth_drop0 [OF d2(2)] d(3) cs(2) m0 st(1) by (auto simp: gap_def split: if_splits)
      show "rooted \<longrightarrow> \<not> er1" using cn_invD(8) [OF i] cs by simp
    qed (use cn_invD(1) [OF i] p2 ok0 dr in simp_all)
    then show ?thesis using r cs m0 by auto
  next
    case False
    then have dots: "st = [] \<or> last st = dotdot" by blast
    have dq: "dots st = st" using st_ok_all_dots [OF ok dots] by simp
    have qd: "\<not> dd < q" using cn_invD(6) [OF i] q dq by simp
    show ?thesis
    proof (cases rooted)
      case True
      have r: "cn_dotdot rooted buf q dd = Inr (buf, q, dd)" using True qd by (simp add: cn_dotdot_def)
      have cs: "st1 = st" "er1 = er" using c False True by (auto simp: clean_step_def)
      have "cn_inv rooted x t buf (p + 2) q dd er st"
      proof (rule cn_invI)
        show "gap buf (p + 2) q er rooted st"
          using cn_invD(9) [OF i] nth_drop0 [OF d2(2)] d(3) by (auto simp: gap_def split: if_splits)
      qed (rule cn_invD [OF i] p2 dr)+
      moreover have "q \<noteq> 0" using q True by (simp add: render_def)
      ultimately show ?thesis using r cs by auto
    next
      case nr: False
      have cs: "st1 = st @ [dotdot]" "er1 = er" using c False nr by (auto simp: clean_step_def)
      obtain b q1 where "cn_dotdot False buf q dd = Inr (b, q1, q1)" "0 < q1"
          "cn_inv False x t b (p + 2) q1 q1 er (st @ [dotdot])"
        using inv_pushdots [of x t buf p q dd er st z s u] i nr dots d by auto
      then show ?thesis using nr cs by auto
    qed
  qed
qed

text \<open>What is left of the name starts with a slash or with a whole component.\<close>

lemma next_comp:
  assumes "drop p x = c # y" "c \<noteq> slash" "0 \<notin> set x"
  obtains e z s u where "comp_ok e" "drop p x = e @ z" "z @ 0 # t = s # u" "SEP s" "comps (drop p x) = e # comps z"
proof -
  let ?P = "\<lambda>a. a \<noteq> slash"
  define e z where "e = c # takeWhile ?P y" and "z = dropWhile ?P y"
  have "set (drop p x) \<subseteq> set x" by (rule set_drop_subset)
  then have "0 \<notin> set (c # y)" using assms(1,3) by auto
  then have "comp_ok e" using assms(2) by (auto simp: comp_ok_def SEP_def e_def dest: set_takeWhileD)
  moreover have "drop p x = e @ z" using assms(1) by (simp add: e_def z_def)
  moreover have "\<exists>s u. z @ 0 # t = s # u \<and> SEP s"
    using hd_dropWhile [of ?P y] by (cases z) (auto simp: z_def [symmetric])
  moreover have "comps (drop p x) = e # comps z" using assms(1,2) by (simp add: e_def z_def)
  ultimately show thesis using that by blast
qed

lemma clean_step_er: "clean_step rooted e (st, er) = (st1, er1) \<Longrightarrow> clean_step rooted e (st, er \<or> b) = (st1, er1 \<or> b)"
  by (auto simp: clean_step_def split: if_splits)

text \<open>The flag raised at the very beginning of the name.\<close>

definition starts_dot :: "byte list \<Rightarrow> nat \<Rightarrow> bool" where
  "starts_dot x p \<longleftrightarrow> p = 0 \<and> (take 2 x = [dot, slash] \<or> x = [dot])"

lemma starts_dot_comp:
  assumes "drop p x = e @ z" "comp_ok e" "z @ 0 # t = s # u" "SEP s" "0 \<notin> set x"
  shows "starts_dot x p \<longleftrightarrow> p = 0 \<and> e = [dot]"
proof (cases "p = 0")
  case True
  then have x: "x = e @ z" using assms(1) by simp
  have z: "z = [] \<or> (\<exists>v. z = slash # v)"
    using assms(3,4,5) x by (cases z) (auto simp: SEP_def)
  have e: "e \<noteq> []" "slash \<notin> set e" using assms(2) by (auto simp: comp_ok_def SEP_def)
  show ?thesis
  proof (cases e)
    case (Cons a f)
    then show ?thesis using z e True x by (cases f) (auto simp: starts_dot_def)
  qed (use e in simp)
qed (simp add: starts_dot_def)

lemma cn_loop_unfold:
  "rb buf p = Inr c \<Longrightarrow> c \<noteq> 0 \<Longrightarrow> cn_kind_at buf p = Inr k \<Longrightarrow> cn_loop rooted buf p q dd er =
    (if k = Null then cn_loop rooted buf (p + 1) q dd er
     else if k = Dot then cn_loop rooted buf (p + 1) q dd (er \<or> p = 0)
     else if k = Dotdot then
       (case cn_dotdot rooted buf q dd of
          Inl e \<Rightarrow> Some (Inl e)
        | Inr x \<Rightarrow> cn_loop rooted (fst x) (p + 2) (fst (snd x)) (snd (snd x)) (er \<or> fst (snd x) = 0))
     else
       (case cn_elem rooted buf p q of
          Inl e \<Rightarrow> Some (Inl e)
        | Inr x \<Rightarrow> cn_loop rooted (fst x) (fst (snd x)) (snd (snd x)) dd er))"
  by (subst cn_loop.simps) simp

lemma cn_loop_spec:
  assumes "0 \<notin> set x" "cn_inv rooted x t buf p q dd er st"
    "fold (clean_step rooted) (comps (drop p x)) (st, er \<or> starts_dot x p) = (st1, er1)"
  shows "\<exists>b q1 dd1. cn_loop rooted buf p q dd er = Some (Inr (b, q1, er1)) \<and>
    cn_inv rooted x t b (length x) q1 dd1 er1 st1"
  using assms(2,3)
proof (induction "length x - p" arbitrary: buf p q dd er st rule: less_induct)
  case less
  note i = less.prems(1) and f = less.prems(2)
  show ?case
  proof (cases "drop p x")
    case Nil
    then have p: "p = length x" using cn_invD(2) [OF i] by simp
    have "rb buf p = Inr 0" using rb_drop [of p buf "[0]" t 0] cn_invD(3) [OF i] Nil by simp
    then have "cn_loop rooted buf p q dd er = Some (Inr (buf, q, er))" by (subst cn_loop.simps) simp
    moreover have "\<not> starts_dot x p" using p by (auto simp: starts_dot_def)
    ultimately show ?thesis using i f Nil p by auto
  next
    case (Cons c y)
    have px: "p < length x" using nth_drop0 [OF Cons] by simp
    have c0: "c \<noteq> 0" using assms(1) nth_drop0 [OF Cons] by (metis nth_mem)
    have rc: "rb buf p = Inr c" using rb_drop [of p buf "[c]" "y @ 0 # t" 0] cn_invD(3) [OF i] Cons by simp
    show ?thesis
    proof (cases "c = slash")
      case True
      have "cn_kind_at buf p = Inr Null" using cn_invD(3) [OF i] Cons True by (simp add: cn_kind_slash)
      then have l: "cn_loop rooted buf p q dd er = cn_loop rooted buf (p + 1) q dd er"
        using cn_loop_unfold [OF rc c0] by simp
      have "\<not> starts_dot x p" using nth_drop0 [OF Cons] True by (cases x) (auto simp: starts_dot_def)
      then have "fold (clean_step rooted) (comps (drop (p + 1) x)) (st, er) = (st1, er1)"
        using f Cons True drop_next [OF Cons] by simp
      then have "fold (clean_step rooted) (comps (drop (p + 1) x)) (st, er \<or> starts_dot x (p + 1)) = (st1, er1)"
        by (simp add: starts_dot_def)
      then show ?thesis unfolding l
        by (intro less.hyps [OF _ inv_null [OF i Cons [unfolded True]]]) (use px in simp_all)
    next
      case False
      obtain e z s u where e: "comp_ok e" "drop p x = e @ z" "z @ 0 # t = s # u" "SEP s" "comps (drop p x) = e # comps z"
        using next_comp [OF Cons False assms(1)] by metis
      have b: "drop p buf = e @ s # u" using cn_invD(3) [OF i] e(2,3) by simp
      have ke: "cn_kind_at buf p = Inr (if e = [dot] then Dot else if e = dotdot then Dotdot else Elem)"
        by (rule cn_kind_run [OF b]) (use e in \<open>simp_all add: comp_ok_def\<close>)
      have z: "drop (p + length e) x = z" using e(2) by (metis add.commute append_eq_conv_conj drop_drop)
      have pe: "length x - (p + length e) < length x - p" using px e(1) by (cases e) (auto simp: comp_ok_def)
      have sd: "\<not> starts_dot x (p + length e)" using e(1) by (simp add: starts_dot_def comp_ok_def)
      obtain st2 er2 where cs: "clean_step rooted e (st, er) = (st2, er2)" by (cases "clean_step rooted e (st, er)")
      have f2: "fold (clean_step rooted) (comps z) (st2, er2 \<or> starts_dot x p) = (st1, er1)"
        using f e(5) clean_step_er [OF cs, of "starts_dot x p"] by simp
      show ?thesis
      proof (cases "e = [dot]")
        case True
        have "starts_dot x p \<longleftrightarrow> p = 0" using starts_dot_comp [OF e(2,1,3,4) assms(1)] True by simp
        then have f3: "fold (clean_step rooted) (comps (drop (p + 1) x)) (st, (er \<or> p = 0) \<or> starts_dot x (p + 1)) = (st1, er1)"
          using f2 cs True z sd by (simp add: clean_step_def)
        have "cn_loop rooted buf p q dd er = cn_loop rooted buf (p + 1) q dd (er \<or> p = 0)"
          using cn_loop_unfold [OF rc c0 ke] True by simp
        then show ?thesis
          using less.hyps [OF _ inv_dot [OF i] f3] pe True e(2,4) b by (auto simp: cn_inv_def)
      next
        case nd: False
        then have ns: "\<not> starts_dot x p" using starts_dot_comp [OF e(2,1,3,4) assms(1)] by simp
        show ?thesis
        proof (cases "e = dotdot")
          case True
          obtain b1 q1 dd1 where d: "cn_dotdot rooted buf q dd = Inr (b1, q1, dd1)" "(er \<or> q1 = 0) = er2"
              "cn_inv rooted x t b1 (p + 2) q1 dd1 er2 st2"
            using inv_dotdot [OF i _ _ e(4), of z u] cs e(2) b True by blast
          have l: "cn_loop rooted buf p q dd er = cn_loop rooted b1 (p + 2) q1 dd1 er2"
            using cn_loop_unfold [OF rc c0 ke] True d(1,2) by simp
          show ?thesis unfolding l
            by (rule less.hyps [OF _ d(3)]) (use pe True f2 z sd ns in simp_all)
        next
          case False
          obtain b1 q1 where d: "cn_elem rooted buf p q = Inr (b1, p + length e, q1)"
              "cn_inv rooted x t b1 (p + length e) q1 dd er (st @ [e])"
            using inv_elem [OF i e(1) False e(2) b e(4)] by blast
          have "st2 = st @ [e]" "er2 = er" using cs nd False by (simp_all add: clean_step_def)
          moreover have l: "cn_loop rooted buf p q dd er = cn_loop rooted b1 (p + length e) q1 dd er"
            using cn_loop_unfold [OF rc c0 ke] nd False d(1) by simp
          ultimately show ?thesis unfolding l
            by (intro less.hyps [OF pe d(2)]) (use f2 z sd ns in simp)
        qed
      qed
    qed
  qed
qed

lemma joined_chars: "\<forall>e\<in>set st. comp_ok e \<Longrightarrow> 0 \<notin> set (joined st)"
  by (induction st) (auto simp: comp_ok_def SEP_def)

lemma render_chars: "st_ok rooted st \<Longrightarrow> 0 \<notin> set (render rooted st)"
  using joined_chars [of st] by (auto simp: render_def st_ok_def)

lemma drop_shorten: "k \<le> n \<Longrightarrow> drop k b = drop k c \<Longrightarrow> drop n b = drop n c"
  by (metis drop_drop le_add_diff_inverse2)

lemma cn_finish_spec:
  assumes i: "cn_inv rooted x t b (length x) q dd er st" and x: "x \<noteq> []"
    and s1: "s1 = (if render rooted st = [] then [dot] else render rooted st)"
  shows "\<exists>b1. cn_finish b q er = Inr b1 \<and> cstr b1 = (if er \<and> take 1 s1 = [hash] then dot # slash # s1 else s1) \<and>
    0 \<in> set (take (length x + 1) b1) \<and> drop (length x + 1) b1 = t"
proof -
  note q = cn_invD(5) [OF i] and lb = cn_invD(1) [OF i] and tk = cn_invD(4) [OF i]
  have dt: "drop (length x + 1) b = t" using drop_next [of "length x" b 0 t] cn_invD(3) [OF i] by simp
  have nz: "0 \<notin> set s1" using s1 render_chars [OF cn_invD(7) [OF i]] by auto
  define k where "k = length s1"
  define b2 where "b2 = s1 @ 0 # drop (k + 1) b"
  have k: "k \<le> length x" "0 < k" "q = 0 \<Longrightarrow> s1 = [dot]" "q \<noteq> 0 \<Longrightarrow> s1 = render rooted st \<and> k = q"
    using x q cn_invD(10) [OF i] by (auto simp: k_def s1 Suc_le_eq)
  have f: "(if q = 0 then andthen (wr b q dot) (\<lambda>b. Inr (b, q + 1)) else Inr (b, q)) = Inr (s1 @ drop k b, k)"
  proof (cases "q = 0")
    case True
    then show ?thesis using k(3) x lb wr_take [of 0 b dot] by (simp add: k_def)
  next
    case False
    then have "take k b = s1" using k(4) tk by simp
    then have "b = s1 @ drop k b" by (metis append_take_drop_id)
    then show ?thesis using False k(4) by simp
  qed
  have g: "wr (s1 @ drop k b) k 0 = Inr b2"
    using wr_take [of k "s1 @ drop k b" 0] k(1) lb by (simp add: k_def b2_def)
  have lb2: "length b2 = length b" using k(1) lb by (simp add: b2_def k_def)
  have cs: "cstr b2 = s1" "strlen b2 = k" using nz by (simp_all add: b2_def strlen_def k_def)
  have d2: "drop (length x + 1) b2 = t"
    using k(1) dt by (simp add: b2_def k_def Suc_diff_le)
  have r0: "rb b2 0 = Inr (hd s1)" using k(2) by (cases s1) (auto simp: rb_def b2_def k_def)
  have h: "take 1 s1 = [hash] \<longleftrightarrow> hd s1 = hash" using k(2) by (cases s1) (auto simp: k_def)
  have c: "cn_finish b q er = (if er \<and> hd s1 = hash then
      andthen (blit (take (k + 1) b2) 2 b2) (\<lambda>b3. andthen (wr b3 0 dot) (\<lambda>b4. wr b4 1 slash)) else Inr b2)"
    unfolding cn_finish_def f using g r0 cs(2) by simp
  show ?thesis
  proof (cases "er \<and> hd s1 = hash")
    case False
    have "0 \<in> set (take (length x + 1) b2)" using k(1) by (simp add: b2_def k_def Suc_diff_le)
    moreover have "cn_finish b q er = Inr b2" unfolding c by (rule if_not_P [OF False])
    moreover have "\<not> (er \<and> take 1 s1 = [hash])" using False h by simp
    ultimately show ?thesis using cs(1) d2 by (intro exI [of _ b2]) (simp only: if_False simp_thms)
  next
    case True
    have "hd s1 \<noteq> dot" using True by simp
    then have "q \<noteq> 0" using k(3) by (metis list.sel(1))
    then have k2: "k + 2 \<le> length x" "q = k" using cn_invD(9) [OF i] True k(4) by (auto simp: gap_def split: if_splits)
    define b3 where "b3 = take 2 b2 @ s1 @ 0 # drop (k + 3) b2"
    have "take (k + 1) b2 = s1 @ [0]" by (simp add: b2_def k_def)
    then have bl: "blit (take (k + 1) b2) 2 b2 = Inr b3"
      using blit_Inr [of 2 "s1 @ [0]" b2] k2 lb lb2 by (simp add: b3_def k_def numeral_3_eq_3)
    have "Suc (Suc 0) \<le> length b2" using lb2 lb k2 by simp
    then obtain a1 a2 where a: "take 2 b2 = [a1, a2]" by (auto simp: Suc_le_length_iff)
    let ?b = "dot # slash # s1 @ 0 # drop (k + 3) b2"
    have "cn_finish b q er = Inr ?b" using c True bl by (simp add: b3_def a wr_def)
    moreover have "cstr ?b = dot # slash # s1" using cstr_terminated [of "dot # slash # s1" "drop (k + 3) b2"] nz by simp
    moreover have "drop (length x + 1) ?b = t" using k2(1) d2 x by (simp add: k_def [symmetric] drop_Cons')
    moreover have "0 \<in> set (take (length x + 1) ?b)" using k2(1) x by (simp add: k_def take_Cons')
    ultimately show ?thesis using True h by auto
  qed
qed

lemma cleanname_ok:
  assumes "0 \<notin> set x" "x \<noteq> []"
  shows "\<exists>b. cleanname (x @ 0 # t) = Some (Inr b) \<and> cstr b = clean_ref x \<and>
    0 \<in> set (take (length x + 1) b) \<and> drop (length x + 1) b = t"
proof -
  let ?b = "x @ 0 # t"
  define rooted where "rooted \<longleftrightarrow> hd x = slash"
  let ?r = "of_bool rooted :: nat"
  have rx: "take 1 x = [slash] \<longleftrightarrow> rooted" using assms(2) by (cases x) (auto simp: rooted_def)
  have "?r \<le> length x" using assms(2) by (cases x) auto
  have i: "cn_inv rooted x t ?b ?r ?r ?r False []"
    using assms(2) by (cases x) (auto simp: cn_inv_def render_def st_ok_def gap_def rooted_def)
  have cx: "comps (drop ?r x) = comps x" "starts_dot x ?r \<longleftrightarrow> take 2 x = [dot, slash] \<or> x = [dot]"
    using assms(2) by (cases x; auto simp: rooted_def starts_dot_def)+
  obtain st er where f: "fold (clean_step rooted) (comps x) ([], take 2 x = [dot, slash] \<or> x = [dot]) = (st, er)"
    by fastforce
  then obtain b q dd where l: "cn_loop rooted ?b ?r ?r ?r False = Some (Inr (b, q, er))"
      "cn_inv rooted x t b (length x) q dd er st"
    using cn_loop_spec [OF assms(1) i] cx by auto
  have "rb ?b 0 = Inr (hd x)" using assms(2) by (cases x) (auto simp: rb_def)
  then have "cleanname ?b = Some (cn_finish b q er)" using l(1) by (simp add: cleanname_def Let_def rooted_def [symmetric])
  moreover have "clean_ref x = (let s = render rooted st; s1 = (if s = [] then [dot] else s) in
      if er \<and> take 1 s1 = [hash] then dot # slash # s1 else s1)"
    unfolding clean_ref_def rx using f by (simp add: Let_def)
  ultimately show ?thesis using cn_finish_spec [OF l(2) assms(2) refl] by (simp add: Let_def)
qed

subsection \<open>Clean names are kept\<close>

lemma comps_first: "e \<noteq> [] \<Longrightarrow> slash \<notin> set e \<Longrightarrow> comps (e @ slash # y) = e # comps y"
proof (cases e)
  case (Cons a f)
  assume "e \<noteq> []" "slash \<notin> set e"
  then have "takeWhile (\<lambda>a. a \<noteq> slash) (f @ slash # y) = f" "dropWhile (\<lambda>a. a \<noteq> slash) (f @ slash # y) = slash # y"
    using Cons by (auto simp: takeWhile_tail dropWhile_append3)
  then show ?thesis using Cons \<open>slash \<notin> set e\<close> by simp
qed simp

lemma comps_last: "e \<noteq> [] \<Longrightarrow> slash \<notin> set e \<Longrightarrow> comps e = [e]"
proof (cases e)
  case (Cons a f)
  assume "e \<noteq> []" "slash \<notin> set e"
  then have "takeWhile (\<lambda>a. a \<noteq> slash) f = f" "dropWhile (\<lambda>a. a \<noteq> slash) f = []"
    using Cons by auto
  then show ?thesis using Cons \<open>slash \<notin> set e\<close>
    by (simp del: takeWhile_eq_all_conv dropWhile_eq_Nil_conv)
qed simp

lemma comp_okD: "comp_ok e \<Longrightarrow> e \<noteq> [] \<and> slash \<notin> set e"
  by (auto simp: comp_ok_def SEP_def)

lemma comps_joined: "\<forall>e\<in>set st. comp_ok e \<Longrightarrow> comps (joined st) = st"
  by (induction st) (auto simp: comps_first comps_last dest!: comp_okD)

lemma comps_render: "st_ok rooted st \<Longrightarrow> comps (render rooted st) = st"
  using comps_joined [of st] by (simp add: render_def st_ok_def)

lemma comps_ok: "0 \<notin> set x \<Longrightarrow> \<forall>e\<in>set (comps x). comp_ok e"
proof (induction x rule: comps.induct)
  case (2 c y)
  have "0 \<notin> set (dropWhile (\<lambda>a. a \<noteq> slash) y)" using 2(3) by (auto dest: set_dropWhileD)
  moreover have "c \<noteq> slash \<Longrightarrow> comp_ok (c # takeWhile (\<lambda>a. a \<noteq> slash) y)"
    using 2(3) by (auto simp: comp_ok_def SEP_def dest: set_takeWhileD)
  ultimately show ?case using 2 by (cases "c = slash") simp_all
qed simp

text \<open>The stack of components: well-formed and without \<open>.\<close>.\<close>

lemma clean_step_ok:
  assumes "st_ok rooted st" "[dot] \<notin> set st" "comp_ok e" "clean_step rooted e (st, er) = (st1, er1)"
  shows "st_ok rooted st1 \<and> [dot] \<notin> set st1"
proof (cases "e = dotdot \<and> st \<noteq> [] \<and> last st \<noteq> dotdot")
  case True
  then obtain st0 a where "st = st0 @ [a]" "a \<noteq> dotdot" by (metis append_butlast_last_id)
  then show ?thesis using True assms st_ok_pop [of rooted st0 a] by (auto simp: clean_step_def)
next
  case False
  then show ?thesis
  proof (cases "e = dotdot")
    case True
    then have "st = [] \<or> last st = dotdot" using False by blast
    then show ?thesis using True False assms st_ok_pushdots [of st] by (cases rooted) (auto simp: clean_step_def)
  next
    case nd: False
    then show ?thesis using assms st_ok_push [OF assms(1,3)] by (auto simp: clean_step_def split: if_splits)
  qed
qed

lemma fold_clean_ok:
  "\<lbrakk>\<forall>e\<in>set es. comp_ok e; st_ok rooted st; [dot] \<notin> set st; fold (clean_step rooted) es (st, er) = (st1, er1)\<rbrakk> \<Longrightarrow>
   st_ok rooted st1 \<and> [dot] \<notin> set st1"
proof (induction es arbitrary: st er)
  case (Cons e es)
  obtain st2 er2 where c: "clean_step rooted e (st, er) = (st2, er2)" by (cases "clean_step rooted e (st, er)")
  then show ?case using Cons.IH [of st2 er2] Cons.prems clean_step_ok [OF Cons.prems(2,3) _ c] by simp
qed simp

lemma fold_clean_same:
  "st_ok rooted (acc @ st) \<Longrightarrow> [dot] \<notin> set st \<Longrightarrow> fold (clean_step rooted) st (acc, er) = (acc @ st, er)"
proof (induction st arbitrary: acc)
  case (Cons e st)
  have "clean_step rooted e (acc, er) = (acc @ [e], er)"
  proof (cases "e = dotdot")
    case True
    have "\<not> rooted" using Cons.prems(1) True by (auto simp: st_ok_def)
    moreover have "\<forall>a\<in>set acc. a = dotdot"
    proof (rule ccontr)
      assume "\<not> (\<forall>a\<in>set acc. a = dotdot)"
      then have "dropWhile (\<lambda>e. e = dotdot) (acc @ e # st) = dropWhile (\<lambda>e. e = dotdot) acc @ e # st"
        by (auto intro: dropWhile_append1)
      then show False using Cons.prems(1) True by (simp add: st_ok_def)
    qed
    then have "acc \<noteq> [] \<longrightarrow> last acc = dotdot" by simp
    ultimately show ?thesis using True by (auto simp: clean_step_def)
  next
    case False
    then show ?thesis using Cons.prems(2) by (auto simp: clean_step_def)
  qed
  then show ?case using Cons.IH [of "acc @ [e]"] Cons.prems by simp
qed simp

lemma take1_iff: "take 1 x = [c] \<longleftrightarrow> x \<noteq> [] \<and> hd x = c"
  by (cases x) auto

lemma clean_ref_render:
  assumes ok: "st_ok rooted st" "[dot] \<notin> set st" and s1: "s1 = (if render rooted st = [] then [dot] else render rooted st)"
  shows "clean_ref s1 = s1" "take 1 s1 = [hash] \<Longrightarrow> clean_ref (dot # slash # s1) = dot # slash # s1"
proof -
  have r: "take 1 (render rooted st) = [slash] \<longleftrightarrow> rooted"
  proof (cases st)
    case Nil then show ?thesis by (simp add: render_def)
  next
    case (Cons e es)
    then have "e \<noteq> []" "hd e \<noteq> slash" using ok(1) by (cases e; auto simp: st_ok_def comp_ok_def SEP_def)+
    then show ?thesis unfolding take1_iff using Cons by (auto simp: render_def hd_append)
  qed
  have f: "fold (clean_step rooted) st ([], er) = (st, er)" for er using fold_clean_same [of rooted "[]" st er] ok by simp
  have sd: "\<not> (take 2 (render rooted st) = [dot, slash] \<or> render rooted st = [dot])"
  proof (cases "rooted \<or> st = []")
    case True
    then show ?thesis by (cases rooted) (auto simp: render_def)
  next
    case False
    then obtain e es where st: "st = e # es" by (cases st) auto
    have e: "e \<noteq> []" "slash \<notin> set e" "e \<noteq> [dot]" using ok st by (auto simp: st_ok_def dest!: comp_okD)
    then obtain a f where "e = a # f" by (cases e) auto
    then show ?thesis using False st e by (cases f) (auto simp: render_def)
  qed
  show "clean_ref s1 = s1"
  proof (cases "render rooted st = []")
    case True
    then have "s1 = [dot]" using s1 by simp
    then show ?thesis by (simp add: clean_ref_def clean_step_def render_def)
  next
    case False
    then have "s1 = render rooted st" using s1 by simp
    then show ?thesis unfolding clean_ref_def using sd r f comps_render [OF ok(1)] False by (simp add: Let_def)
  qed
  show "clean_ref (dot # slash # s1) = dot # slash # s1" if h: "take 1 s1 = [hash]"
  proof -
    have s: "s1 = render rooted st" "s1 \<noteq> []" using s1 h by (auto split: if_splits)
    have nr: "\<not> rooted" using h r s(1) by auto
    have "comps (dot # slash # s1) = [dot] # st" using comps_first [of "[dot]" s1] comps_render [OF ok(1)] s(1) by simp
    moreover have "fold (clean_step False) ([dot] # st) ([], True) = (st, True)"
      using f [of True] nr by (simp add: clean_step_def)
    ultimately show ?thesis unfolding clean_ref_def using s nr h by (simp add: Let_def)
  qed
qed

definition dot_if_empty :: "byte list \<Rightarrow> byte list" where
  "dot_if_empty s = (if s = [] then [dot] else s)"

lemma clean_ref_form:
  assumes "0 \<notin> set x"
  shows "\<exists>rooted st. st_ok rooted st \<and> [dot] \<notin> set st \<and>
    (clean_ref x = dot_if_empty (render rooted st) \<or>
     clean_ref x = dot # slash # dot_if_empty (render rooted st) \<and> take 1 (dot_if_empty (render rooted st)) = [hash])"
proof -
  define rooted where "rooted \<longleftrightarrow> take 1 x = [slash]"
  obtain st er where f: "fold (clean_step rooted) (comps x) ([], take 2 x = [dot, slash] \<or> x = [dot]) = (st, er)"
    by fastforce
  have "st_ok rooted st \<and> [dot] \<notin> set st"
    by (rule fold_clean_ok [OF comps_ok [OF assms] _ _ f]) (simp_all add: st_ok_def)
  moreover have "clean_ref x = (if er \<and> take 1 (dot_if_empty (render rooted st)) = [hash]
      then dot # slash # dot_if_empty (render rooted st) else dot_if_empty (render rooted st))"
    unfolding clean_ref_def rooted_def [symmetric] dot_if_empty_def using f by (simp add: Let_def)
  ultimately show ?thesis by (metis (full_types))
qed

lemma clean_ref_idem: "0 \<notin> set x \<Longrightarrow> clean_ref (clean_ref x) = clean_ref x"
proof -
  assume "0 \<notin> set x"
  then obtain rooted st where ok: "st_ok rooted st" "[dot] \<notin> set st"
    and c: "clean_ref x = dot_if_empty (render rooted st) \<or>
      clean_ref x = dot # slash # dot_if_empty (render rooted st) \<and> take 1 (dot_if_empty (render rooted st)) = [hash]"
    using clean_ref_form [of x] by blast
  note r = clean_ref_render [OF ok dot_if_empty_def [of "render rooted st"]]
  from c show ?thesis
  proof
    assume "clean_ref x = dot_if_empty (render rooted st)" then show ?thesis using r(1) by (simp only:)
  next
    assume "clean_ref x = dot # slash # dot_if_empty (render rooted st) \<and> take 1 (dot_if_empty (render rooted st)) = [hash]"
    then show ?thesis using r(2) by (simp only:)
  qed
qed

lemma clean_ref_chars: "0 \<notin> set x \<Longrightarrow> 0 \<notin> set (clean_ref x) \<and> clean_ref x \<noteq> []"
proof -
  assume "0 \<notin> set x"
  then obtain rooted st where c: "st_ok rooted st"
    "clean_ref x = dot_if_empty (render rooted st) \<or> clean_ref x = dot # slash # dot_if_empty (render rooted st)"
    using clean_ref_form [of x] by blast
  have "0 \<notin> set (dot_if_empty (render rooted st))" "dot_if_empty (render rooted st) \<noteq> []"
    using render_chars [OF c(1)] by (auto simp: dot_if_empty_def)
  then show ?thesis using c(2) by auto
qed

subsection \<open>Splitting a name\<close>

function skipslash :: "byte list \<Rightarrow> nat \<Rightarrow> nat outcome" where
  "skipslash name p =
    andthen (rb name p) (\<lambda>c.
      if c = slash then skipslash name (p + 1)
      else if c = dot then andthen (rb name (p + 1)) (\<lambda>c1. if SEP c1 then skipslash name (p + 1) else Inr p)
      else Inr p)"
  by pat_completeness auto
termination
  by (relation "measure (\<lambda>(name, p). length name - p)") (auto simp: rb_def split: if_splits)

declare skipslash.simps [simp del]

text \<open>The arrays \<open>elems\<close> and \<open>off\<close> are lists of the size allocated; \<open>elems\<close> holds offsets into \<open>name\<close>.\<close>

record Elemlist =
  el_name :: "byte list"
  el_nelems :: nat
  el_elems :: "nat list"
  el_off :: "nat list"
  el_mustbedir :: bool

definition Delta :: nat where "Delta = 8"

text \<open>\<open>memmove(new, old, n)\<close> into a cleared array of \<open>m\<close> entries.\<close>

definition regrow :: "nat list \<Rightarrow> nat \<Rightarrow> nat \<Rightarrow> nat list outcome" where
  "regrow old n m = (if n \<le> length old then blit (take n old) 0 (replicate m 0) else Inl Efault)"

definition growparse :: "Elemlist \<Rightarrow> Elemlist outcome" where
  "growparse e =
    (if el_nelems e mod Delta = 0 then
       andthen (regrow (el_elems e) (el_nelems e) (el_nelems e + Delta)) (\<lambda>new.
       andthen (regrow (el_off e) (el_nelems e + 1) (el_nelems e + Delta + 1)) (\<lambda>inew.
         Inr (e\<lparr>el_elems := new, el_off := inew\<rparr>)))
     else Inr e)"

definition put_off :: "Elemlist \<Rightarrow> nat \<Rightarrow> Elemlist outcome" where
  "put_off e v = andthen (wr (el_off e) (el_nelems e) v) (\<lambda>off. Inr (e\<lparr>el_off := off\<rparr>))"

definition put_elem :: "Elemlist \<Rightarrow> nat \<Rightarrow> Elemlist outcome" where
  "put_elem e v =
    andthen (wr (el_elems e) (el_nelems e) v) (\<lambda>el. Inr (e\<lparr>el_elems := el, el_nelems := el_nelems e + 1\<rparr>))"

lemma rb_bound: "rb s i = Inr c \<Longrightarrow> i < length s"
  by (simp add: rb_def split: if_splits)

lemma skipslash_mono: "skipslash name p = Inr p1 \<Longrightarrow> p \<le> p1"
proof (induction "length name - p" arbitrary: p rule: less_induct)
  case less
  have "p < length name" using less.prems by (subst (asm) skipslash.simps) (auto simp: andthen_eq_Inr dest: rb_bound)
  moreover have "skipslash name (p + 1) = Inr p1 \<or> p1 = p"
    using less.prems by (subst (asm) skipslash.simps) (auto simp: andthen_eq_Inr split: if_splits)
  moreover have "p < length name \<Longrightarrow> length name - (p + 1) < length name - p" by simp
  ultimately show ?case using less.hyps [of "p + 1"] by linarith
qed

lemma growparse_name: "growparse e = Inr e1 \<Longrightarrow> el_name e1 = el_name e"
  by (auto simp: growparse_def andthen_eq_Inr split: if_splits)

lemma put_name: "put_elem e v = Inr e1 \<Longrightarrow> el_name e1 = el_name e" "put_off e v = Inr e1 \<Longrightarrow> el_name e1 = el_name e"
  by (auto simp: put_elem_def put_off_def andthen_eq_Inr)

text \<open>The loop of \<open>parsename\<close>; \<open>p\<close> is the offset of \<open>name\<close> in \<open>e->name\<close>.\<close>

function parse_loop :: "Elemlist \<Rightarrow> nat \<Rightarrow> Elemlist outcome" where
  "parse_loop e p =
    andthen (skipslash (el_name e) p) (\<lambda>p1.
    andthen (rb (el_name e) p1) (\<lambda>c.
      if c = 0 then
        andthen (put_off e (p1 + strlen (drop p1 (el_name e)))) (\<lambda>e1. Inr (e1\<lparr>el_mustbedir := True\<rparr>))
      else
        andthen (growparse e) (\<lambda>e1.
        andthen (put_elem e1 p1) (\<lambda>e2.
        andthen (utfrune (drop p1 (el_name e2)) 0x2F) (\<lambda>s.
          case s of
            None \<Rightarrow> andthen (put_off e2 (p1 + strlen (drop p1 (el_name e2)))) (\<lambda>e3. Inr (e3\<lparr>el_mustbedir := False\<rparr>))
          | Some i \<Rightarrow>
              andthen (put_off e2 (p1 + i)) (\<lambda>e3.
              andthen (wr (el_name e3) (p1 + i) 0) (\<lambda>name. parse_loop (e3\<lparr>el_name := name\<rparr>) (p1 + i + 1))))))))"
  by pat_completeness auto
termination
proof (relation "measure (\<lambda>(e, p). length (el_name e) - p)")
  fix e :: Elemlist and p p1 c e1 e2 s i e3 name
  assume a: "skipslash (el_name e) p = Inr p1" "rb (el_name e) p1 = Inr c" "growparse e = Inr e1"
    "put_elem e1 p1 = Inr e2" "put_off e2 (p1 + i) = Inr e3" "wr (el_name e3) (p1 + i) 0 = Inr name"
  have "el_name e3 = el_name e" using a by (simp add: growparse_name put_name)
  then show "((e3\<lparr>el_name := name\<rparr>, p1 + i + 1), e, p) \<in> measure (\<lambda>(e, p). length (el_name e) - p)"
    using skipslash_mono [OF a(1)] length_wr [OF a(6)] by auto
qed simp

declare parse_loop.simps [simp del]

definition parsename :: "byte list \<Rightarrow> Elemlist outcome" where
  "parsename aname =
    (let name = cstr aname @ [0] in
     andthen (skipslash name 0) (\<lambda>p.
       parse_loop \<lparr>el_name = name, el_nelems = 0, el_elems = [], el_off = [p], el_mustbedir = False\<rparr> 0))"


subsection \<open>Checking a name\<close>

text \<open>The table \<open>isfrog\<close>: control characters, slash and DEL.\<close>

definition isfrog :: "byte \<Rightarrow> bool" where
  "isfrog c \<longleftrightarrow> c < 0x20 \<or> c = slash \<or> c = 0x7F"

primrec memchr :: "byte list \<Rightarrow> byte \<Rightarrow> nat \<Rightarrow> nat option outcome" where
  "memchr s c 0 = Inr None"
| "memchr s c (Suc n) =
    (case s of
       [] \<Rightarrow> Inl Efault
     | b # s1 \<Rightarrow> if b = c then Inr (Some 0) else andthen (memchr s1 c n) (\<lambda>i. Inr (map_option Suc i)))"

text \<open>The scan: whether there is no bad character.\<close>

function valid_loop :: "bool \<Rightarrow> byte list \<Rightarrow> bool outcome" where
  "valid_loop slashok name =
    andthen (rb name 0) (\<lambda>c.
      if c = 0 then Inr True
      else if (ucast c :: u32) \<ge> Runeself then
        andthen (chartorune name) (\<lambda>(r, n). valid_loop slashok (drop n name))
      else if isfrog c \<and> (\<not> slashok \<or> c \<noteq> slash) then Inr False
      else valid_loop slashok (drop 1 name))"
  by pat_completeness auto
termination
  by (relation "measure (\<lambda>(_, name). length name)") (auto simp: rb_def split: if_splits dest!: chartorune_count)

declare valid_loop.simps [simp del]

text \<open>What is put into \<open>errstr\<close>, and the pointer returned (\<open>None\<close> is nil).\<close>

datatype name_error = Etoolong | Ebadchar

definition validname0 :: "byte list \<Rightarrow> bool \<Rightarrow> bool \<Rightarrow> (name_error option \<times> byte list option) outcome" where
  "validname0 aname slashok dup =
    andthen (memchr aname 0 (2 ^ 16)) (\<lambda>ename.
      case ename of
        None \<Rightarrow> Inr (Some Etoolong, None)
      | Some n \<Rightarrow>
          if n \<ge> 2 ^ 16 then Inr (Some Etoolong, None)
          else
            (let s = take n aname @ [0]; name = (if dup then s else aname) in
             andthen (valid_loop slashok name) (\<lambda>ok.
               if ok then Inr (None, if dup then Some s else None) else Inr (Some Ebadchar, None))))"

definition validname :: "byte list \<Rightarrow> bool \<Rightarrow> unit outcome" where
  "validname aname slashok = andthen (validname0 aname slashok False) (\<lambda>_. Inr ())"

definition validnamedup :: "byte list \<Rightarrow> bool \<Rightarrow> (name_error option \<times> byte list option) outcome" where
  "validnamedup aname slashok = validname0 aname slashok True"


subsection \<open>Copying with a mark of truncation\<close>

text \<open>\<open>strncpy\<close>, used for the very short buffers: no terminator when the source is longer.\<close>

definition strncpy :: "byte list \<Rightarrow> byte list \<Rightarrow> nat \<Rightarrow> byte list outcome" where
  "strncpy s t n = blit (take n (cstr t @ replicate n 0)) 0 s"

definition kstrcpy :: "byte list \<Rightarrow> byte list \<Rightarrow> nat \<Rightarrow> byte list outcome" where
  "kstrcpy s t ns =
    (let nt = strlen t in
     if nt + 1 \<le> ns then blit (take nt t @ [0]) 0 s
     else if ns < 4 then strncpy s t ns
     else andthen (blit (take (ns - 4) t) 0 s) (\<lambda>s1.
       andthen (wr s1 (ns - 4) 0) (\<lambda>s2. blit [dot, dot, dot, 0] (back_up s2 (ns - 4)) s2)))"

subsection \<open>Splitting a name: the reference\<close>

definition nodots :: "byte list list \<Rightarrow> byte list list" where
  "nodots es = filter (\<lambda>e. e \<noteq> [dot]) es"

definition must_be_dir :: "byte list \<Rightarrow> bool" where
  "must_be_dir x \<longleftrightarrow> x = [] \<or> last x = slash \<or> last (comps x) = [dot]"

lemma comps_all_slashes: "comps y = [] \<Longrightarrow> y = [] \<or> last y = slash"
proof (induction y rule: comps.induct)
  case (2 c y) then show ?case by (cases "c = slash") auto
qed simp

lemma must_slash: "must_be_dir (slash # y) = must_be_dir y"
  by (auto simp: must_be_dir_def)

lemma must_comp:
  assumes "comp_ok e"
  shows "must_be_dir (e @ slash # v) = must_be_dir v" "e \<noteq> [dot] \<Longrightarrow> \<not> must_be_dir e" "must_be_dir [dot]"
proof -
  have e: "e \<noteq> []" "slash \<notin> set e" using comp_okD [OF assms] by simp_all
  show "must_be_dir (e @ slash # v) = must_be_dir v"
    using comps_all_slashes [of v] e by (cases "comps v = []") (auto simp: must_be_dir_def comps_first)
  show "\<not> must_be_dir e" if "e \<noteq> [dot]"
  proof -
    have "last e \<noteq> slash" using last_in_set [OF e(1)] e(2) by metis
    then show ?thesis using e that by (simp add: must_be_dir_def comps_last)
  qed
  show "must_be_dir [dot]" by (simp add: must_be_dir_def)
qed

text \<open>Where the next element starts.\<close>

definition skips :: "byte list \<Rightarrow> byte list \<Rightarrow> nat \<Rightarrow> byte list \<Rightarrow> bool" where
  "skips name t p y \<longleftrightarrow> (\<exists>p1 y1. skipslash name p = Inr p1 \<and> p \<le> p1 \<and> drop p1 name = y1 @ 0 # t \<and> 0 \<notin> set y1 \<and>
    nodots (comps y1) = nodots (comps y) \<and> must_be_dir y1 = must_be_dir y \<and>
    (y1 = [] \<or> (\<exists>e z. y1 = e @ z \<and> comp_ok e \<and> e \<noteq> [dot] \<and> (z = [] \<or> (\<exists>v. z = slash # v)))))"

lemma skips_step:
  assumes "skips name t (p + 1) y2" "skipslash name p = skipslash name (p + 1)"
    "nodots (comps y2) = nodots (comps y)" "must_be_dir y2 = must_be_dir y"
  shows "skips name t p y"
proof -
  obtain p1 y1 where "skipslash name (p + 1) = Inr p1" "p + 1 \<le> p1" "drop p1 name = y1 @ 0 # t" "0 \<notin> set y1"
      "nodots (comps y1) = nodots (comps y2)" "must_be_dir y1 = must_be_dir y2"
      "y1 = [] \<or> (\<exists>e z. y1 = e @ z \<and> comp_ok e \<and> e \<noteq> [dot] \<and> (z = [] \<or> (\<exists>v. z = slash # v)))"
    using assms(1) unfolding skips_def by blast
  then show ?thesis unfolding skips_def using assms(2-) by (intro exI [of _ p1] exI [of _ y1]) simp
qed

lemma skipslash_spec: "drop p name = y @ 0 # t \<Longrightarrow> 0 \<notin> set y \<Longrightarrow> skips name t p y"
proof (induction "length y" arbitrary: p y rule: less_induct)
  case less
  note d = less.prems(1) and nz = less.prems(2)
  show ?case
  proof (cases y)
    case Nil
    have "rb name p = Inr 0" using rb_drop [of p name "[0]" t 0] d Nil by simp
    then have "skipslash name p = Inr p" by (subst skipslash.simps) simp
    then show ?thesis using d Nil unfolding skips_def by (intro exI [of _ p] exI [of _ "[]"]) simp
  next
    case (Cons c y2)
    have rc: "rb name p = Inr c" using rb_drop [of p name "[c]" "y2 @ 0 # t" 0] d Cons by simp
    have d2: "drop (p + 1) name = y2 @ 0 # t" using drop_next [of p name c] d Cons by simp
    show ?thesis
    proof (cases "c = slash")
      case True
      have l: "skipslash name p = skipslash name (p + 1)" using rc True by (subst skipslash.simps) simp
      show ?thesis
        by (rule skips_step [OF less.hyps [OF _ d2] l]) (use nz Cons True must_slash [of y2] in simp_all)
    next
      case False
      have "drop 0 y = c # y2" using Cons by simp
      then obtain e z s u where e: "comp_ok e" "y = e @ z" "z @ 0 # t = s # u" "SEP s" "comps y = e # comps z"
        using next_comp [OF _ False nz] by (metis drop_0)
      have z: "z = [] \<or> (\<exists>v. z = slash # v)" using e(2,3,4) nz by (cases z) (auto simp: SEP_def)
      show ?thesis
      proof (cases "e = [dot]")
        case True
        then have c: "c = dot" "y2 = z" using e(2) Cons by simp_all
        have "rb name (p + 1) = Inr s" using rb_drop [of "p + 1" name "[s]" u 0] d2 c(2) e(3) by simp
        then have l: "skipslash name p = skipslash name (p + 1)" using rc c(1) e(4) by (subst skipslash.simps) simp
        have "must_be_dir z = must_be_dir y"
          using z
        proof
          assume "z = []" then show ?thesis using e(2) True by (simp add: must_be_dir_def)
        next
          assume "\<exists>v. z = slash # v"
          then obtain v where "z = slash # v" by blast
          then show ?thesis using must_comp(1) [OF e(1), of v] must_slash [of v] e(2) by simp
        qed
        moreover have "nodots (comps z) = nodots (comps y)" using e(5) True by (simp add: nodots_def)
        ultimately show ?thesis
          by (intro skips_step [OF less.hyps [OF _ d2] l]) (use nz Cons c(2) in simp_all)
      next
        case nd: False
        have "skipslash name p = Inr p"
        proof (cases "c = dot")
          case True
          then obtain c1 f where f: "e = dot # c1 # f" using e(1,2) Cons nd by (cases e; cases "tl e") (auto simp: comp_ok_def)
          then have "rb name (p + 1) = Inr c1" using rb_drop [of p name "[dot, c1]" "f @ z @ 0 # t" 1] d e(2) by simp
          moreover have "\<not> SEP c1" using e(1) f by (simp add: comp_ok_def)
          ultimately show ?thesis using rc True by (subst skipslash.simps) simp
        next
          case c: False
          then show ?thesis using rc False by (subst skipslash.simps) simp
        qed
        then show ?thesis using d nz e(1,2) nd z unfolding skips_def by (intro exI [of _ p] exI [of _ y]) blast
      qed
    qed
  qed
qed

lemma utfrune_slash:
  assumes "0 \<notin> set e" "slash \<notin> set e"
  shows "utfrune (e @ slash # v) 0x2F = Inr (Some (length e))" "utfrune (e @ 0 # v) 0x2F = Inr None"
proof -
  have "sint (0x2F::u32) < sint Runesync"
    using sint_small [of "0x2F"] sint_small [of Runesync] by (simp add: Runesync_def)
  then have u: "utfrune s 0x2F = chr_loop slash s" for s by (simp add: utfrune_def strchr_def)
  have "\<forall>x\<in>set e. x \<noteq> 0 \<and> x \<noteq> slash" using assms by auto
  then show "utfrune (e @ slash # v) 0x2F = Inr (Some (length e))" "utfrune (e @ 0 # v) 0x2F = Inr None"
    unfolding u by (simp_all add: chr_loop_skip)
qed

text \<open>The arrays have room for the next entry, and every element recorded is terminated before \<open>p\<close>.\<close>

definition arrays_ok :: "Elemlist \<Rightarrow> bool" where
  "arrays_ok e \<longleftrightarrow> Delta dvd length (el_elems e) \<and> el_nelems e \<le> length (el_elems e) \<and>
     length (el_off e) = length (el_elems e) + 1"

lemma growparse_ok:
  assumes "arrays_ok e"
  obtains e1 where "growparse e = Inr e1" "arrays_ok e1" "el_nelems e1 < length (el_elems e1)"
    "el_nelems e1 = el_nelems e" "el_name e1 = el_name e" "el_mustbedir e1 = el_mustbedir e"
    "take (el_nelems e) (el_elems e1) = take (el_nelems e) (el_elems e)"
proof (cases "el_nelems e mod Delta = 0")
  case True
  let ?n = "el_nelems e"
  have n: "?n \<le> length (el_elems e)" "length (el_off e) = length (el_elems e) + 1" using assms unfolding arrays_ok_def by blast+
  have "regrow (el_elems e) ?n (?n + Delta) = Inr (take ?n (el_elems e) @ replicate Delta 0)"
    "regrow (el_off e) (?n + 1) (?n + Delta + 1) = Inr (take (?n + 1) (el_off e) @ replicate Delta 0)"
    using n by (simp_all add: regrow_def blit_def)
  moreover have "Delta dvd ?n + Delta" using True by (simp add: mod_eq_0_iff_dvd)
  ultimately show thesis
    using that [of "e\<lparr>el_elems := take ?n (el_elems e) @ replicate Delta 0, el_off := take (?n + 1) (el_off e) @ replicate Delta 0\<rparr>"]
      True assms by (simp add: growparse_def arrays_ok_def Delta_def)
next
  case False
  then have "el_nelems e \<noteq> length (el_elems e)" using assms by (auto simp: arrays_ok_def)
  then show thesis using that [of e] False assms by (simp add: growparse_def arrays_ok_def)
qed

lemma put_elem_eq:
  "arrays_ok e \<Longrightarrow> el_nelems e < length (el_elems e) \<Longrightarrow>
   put_elem e v = Inr (e\<lparr>el_elems := (el_elems e)[el_nelems e := v], el_nelems := el_nelems e + 1\<rparr>)"
  by (simp add: put_elem_def wr_def)

lemma put_off_eq: "arrays_ok e \<Longrightarrow> put_off e v = Inr (e\<lparr>el_off := (el_off e)[el_nelems e := v]\<rparr>)"
  by (simp add: put_off_def wr_def arrays_ok_def)

definition ended :: "byte list \<Rightarrow> nat \<Rightarrow> nat \<Rightarrow> bool" where
  "ended name p v \<longleftrightarrow> (\<exists>k. v + k < p \<and> v + k < length name \<and> name ! (v + k) = 0)"

lemma cstr_prefix: "0 \<in> set w \<Longrightarrow> cstr (w @ a) = cstr w"
  unfolding cstr_def by (rule takeWhile_append1 [of 0]) simp_all

lemma cstr_update:
  assumes "ended name p v" "p \<le> j"
  shows "cstr (drop v (name[j := c])) = cstr (drop v name)"
proof -
  obtain k where k: "v + k < p" "v + k < length name" "name ! (v + k) = 0" using assms(1) by (auto simp: ended_def)
  let ?w = "take (k + 1) (drop v name)"
  have "?w ! k = 0" "k < length ?w" using k by simp_all
  then have "0 \<in> set ?w" by (metis nth_mem)
  moreover have "take (k + 1) (drop v (name[j := c])) = ?w"
    using k assms(2) by (intro nth_equalityI) auto
  ultimately show ?thesis
    using cstr_prefix [of ?w "drop (k + 1) (drop v name)"] cstr_prefix [of ?w "drop (k + 1) (drop v (name[j := c]))"]
    by (metis append_take_drop_id)
qed

lemma ended_update: "ended name p v \<Longrightarrow> p \<le> j \<Longrightarrow> ended (name[j := c]) p v"
  by (auto simp: ended_def)

lemma ended_mono: "ended name p v \<Longrightarrow> p \<le> q \<Longrightarrow> ended name q v"
  unfolding ended_def by (meson less_le_trans)

definition elements :: "Elemlist \<Rightarrow> byte list list" where
  "elements e = map (\<lambda>v. cstr (drop v (el_name e))) (take (el_nelems e) (el_elems e))"

lemma parse_loop_spec:
  assumes "arrays_ok e" "drop p (el_name e) = y @ 0 # t" "0 \<notin> set y" "\<forall>v\<in>set (take (el_nelems e) (el_elems e)). ended (el_name e) p v"
  shows "\<exists>e1. parse_loop e p = Inr e1 \<and> elements e1 = elements e @ nodots (comps y) \<and> el_mustbedir e1 = must_be_dir y \<and>
    arrays_ok e1 \<and> el_nelems e1 = el_nelems e + length (nodots (comps y))"
  using assms
proof (induction "length y" arbitrary: e p y rule: less_induct)
  case less
  obtain p1 y1 where s: "skipslash (el_name e) p = Inr p1" "p \<le> p1" "drop p1 (el_name e) = y1 @ 0 # t" "0 \<notin> set y1"
      "nodots (comps y1) = nodots (comps y)" "must_be_dir y1 = must_be_dir y"
    and y1: "y1 = [] \<or> (\<exists>a z. y1 = a @ z \<and> comp_ok a \<and> a \<noteq> [dot] \<and> (z = [] \<or> (\<exists>v. z = slash # v)))"
    using skipslash_spec [OF less.prems(2,3)] unfolding skips_def by blast
  note ok = less.prems(1) and en = less.prems(4)
  from y1 show ?case
  proof
    assume y1: "y1 = []"
    then have "rb (el_name e) p1 = Inr 0" using rb_drop [of p1 "el_name e" "[0]" t 0] s(3) by simp
    then have "\<exists>q. parse_loop e p = Inr (e\<lparr>el_off := (el_off e)[el_nelems e := q], el_mustbedir := True\<rparr>)"
      using s(1) put_off_eq [OF ok] by (subst parse_loop.simps) auto
    then obtain q where "parse_loop e p = Inr (e\<lparr>el_off := (el_off e)[el_nelems e := q], el_mustbedir := True\<rparr>)" by blast
    moreover have "nodots (comps y) = []" "must_be_dir y" using s(5,6) y1 by (simp_all add: nodots_def must_be_dir_def)
    ultimately show ?case using ok by (auto simp: elements_def arrays_ok_def)
  next
    assume "\<exists>a z. y1 = a @ z \<and> comp_ok a \<and> a \<noteq> [dot] \<and> (z = [] \<or> (\<exists>v. z = slash # v))"
    then obtain a z where a: "y1 = a @ z" "comp_ok a" "a \<noteq> [dot]" "z = [] \<or> (\<exists>v. z = slash # v)" by blast
    have a0: "a \<noteq> []" "slash \<notin> set a" "0 \<notin> set a" using a(2) by (auto simp: comp_ok_def SEP_def)
    then obtain c f where c: "a = c # f" "c \<noteq> 0" by (cases a) auto
    have rc: "rb (el_name e) p1 = Inr c" using rb_drop [of p1 "el_name e" "[c]" "f @ z @ 0 # t" 0] s(3) a(1) c(1) by simp
    from growparse_ok [OF ok] obtain e1 where g: "growparse e = Inr e1" "arrays_ok e1" "el_nelems e1 < length (el_elems e1)"
        "el_nelems e1 = el_nelems e" "el_name e1 = el_name e" "el_mustbedir e1 = el_mustbedir e"
        "take (el_nelems e) (el_elems e1) = take (el_nelems e) (el_elems e)"
      by blast
    define e2 where "e2 = e1\<lparr>el_elems := (el_elems e1)[el_nelems e1 := p1], el_nelems := el_nelems e1 + 1\<rparr>"
    define e3 where "e3 q = e2\<lparr>el_off := (el_off e2)[el_nelems e2 := q]\<rparr>" for q
    have h: "put_elem e1 p1 = Inr e2" "arrays_ok e2" "el_nelems e2 = el_nelems e + 1" "el_name e2 = el_name e"
        "take (Suc (el_nelems e)) (el_elems e2) = take (el_nelems e) (el_elems e) @ [p1]"
      using put_elem_eq [OF g(2,3)] g by (simp_all add: e2_def arrays_ok_def take_Suc_conv_app_nth)
    have o: "put_off e2 q = Inr (e3 q)" "arrays_ok (e3 q)" "el_nelems (e3 q) = el_nelems e2" "el_name (e3 q) = el_name e2"
        "el_elems (e3 q) = el_elems e2" for q
      using put_off_eq [OF h(2)] h(2) by (simp_all add: e3_def arrays_ok_def)
    have el: "elements (e3 q) = elements e @ [cstr (a @ z @ 0 # t)]" for q
      by (simp add: elements_def o h s(3) a(1))
    show ?case
    proof (cases "z = []")
      case True
      then have "utfrune (drop p1 (el_name e2)) 0x2F = Inr None" using utfrune_slash(2) [OF a0(3,2)] h(4) s(3) a(1) by simp
      then have "\<exists>q. parse_loop e p = Inr (e3 q\<lparr>el_mustbedir := False\<rparr>)"
        using s(1) rc c(2) g(1) h(1) o(1) by (subst parse_loop.simps) auto
      then obtain q where q: "parse_loop e p = Inr (e3 q\<lparr>el_mustbedir := False\<rparr>)" by blast
      have "nodots (comps y) = [a]" using s(5) a True a0 by (simp add: comps_last nodots_def)
      moreover have "\<not> must_be_dir y" using s(6) a(1,2,3) True must_comp(2) by simp
      moreover have "cstr (a @ z @ 0 # t) = a" using True a0 by simp
      ultimately show ?thesis using q el [of q] o h
        by (intro exI [of _ "e3 q\<lparr>el_mustbedir := False\<rparr>"]) (simp add: elements_def arrays_ok_def)
    next
      case False
      then obtain v where v: "z = slash # v" using a(4) by blast
      let ?j = "p1 + length a" and ?b = "(el_name e)[p1 + length a := 0]"
      let ?e = "e3 ?j\<lparr>el_name := ?b\<rparr>"
      have "utfrune (drop p1 (el_name e2)) 0x2F = Inr (Some (length a))"
        using utfrune_slash(1) [OF a0(3,2)] h(4) s(3) a(1) v by simp
      moreover have j: "?j < length (el_name e)" using arg_cong [OF s(3), of length] a(1) v by simp
      then have "wr (el_name (e3 ?j)) ?j 0 = Inr ?b" by (simp add: wr_def o h)
      ultimately have l: "parse_loop e p = parse_loop ?e (?j + 1)"
        using s(1) rc c(2) g(1) h(1) o(1) by (subst parse_loop.simps) simp
      have db: "drop p1 ?b = a @ 0 # v @ 0 # t"
        using s(3) a(1) v by (simp add: drop_update_swap list_update_append)
      have dj: "drop (?j + 1) ?b = v @ 0 # t"
        using arg_cong [OF db, of "drop (length a + 1)"] by (simp add: ac_simps)
      have en2: "\<forall>w\<in>set (take (el_nelems ?e) (el_elems ?e)). ended ?b (?j + 1) w"
      proof
        fix w assume "w \<in> set (take (el_nelems ?e) (el_elems ?e))"
        then have "w \<in> set (take (el_nelems e) (el_elems e)) \<or> w = p1" using o h by auto
        then show "ended ?b (?j + 1) w"
        proof
          assume "w \<in> set (take (el_nelems e) (el_elems e))"
          then have "ended (el_name e) p w" using en by blast
          then have "ended ?b p w" by (rule ended_update) (use s(2) in simp)
          then show ?thesis by (rule ended_mono) (use s(2) in simp)
        next
          assume "w = p1"
          then show ?thesis unfolding ended_def using j by (intro exI [of _ "length a"]) simp
        qed
      qed
      have ll: "length v < length y"
        using arg_cong [OF s(3), of length] arg_cong [OF less.prems(2), of length] s(2) a(1) v by simp
      have "\<exists>e1. parse_loop ?e (?j + 1) = Inr e1 \<and> elements e1 = elements ?e @ nodots (comps v) \<and>
          el_mustbedir e1 = must_be_dir v \<and> arrays_ok e1 \<and> el_nelems e1 = el_nelems ?e + length (nodots (comps v))"
      proof (rule less.hyps [OF ll])
        show "arrays_ok ?e" using o(2) by (simp add: arrays_ok_def)
        show "drop (?j + 1) (el_name ?e) = v @ 0 # t" using dj by simp
        show "0 \<notin> set v" using s(4) a(1) v by simp
        show "\<forall>w\<in>set (take (el_nelems ?e) (el_elems ?e)). ended (el_name ?e) (?j + 1) w" using en2 by simp
      qed
      then obtain e4 where e4: "parse_loop ?e (?j + 1) = Inr e4" "elements e4 = elements ?e @ nodots (comps v)"
          "el_mustbedir e4 = must_be_dir v" "arrays_ok e4" "el_nelems e4 = el_nelems ?e + length (nodots (comps v))"
        by blast
      have "elements ?e = elements e @ [a]"
      proof -
        have "cstr (drop w ?b) = cstr (drop w (el_name e))" if "w \<in> set (take (el_nelems e) (el_elems e))" for w
          by (rule cstr_update [of _ p]) (use en that s(2) in auto)
        then show ?thesis using db a0(3) by (simp add: elements_def o h)
      qed
      moreover have "nodots (comps y) = a # nodots (comps v)" using s(5) a v a0 by (simp add: comps_first nodots_def)
      moreover have "must_be_dir v = must_be_dir y" using s(6) must_comp(1) [OF a(2)] a(1) v by simp
      moreover have "el_nelems ?e = el_nelems e + 1" by (simp add: o(3) h(3))
      ultimately show ?thesis unfolding l using e4 by (intro exI [of _ e4]) simp
    qed
  qed
qed

lemma chartorune_high:
  assumes "chartorune (b # s) = Inr (r, n)" "bit b 7"
  shows "\<forall>c\<in>set (take n (b # s)). bit c 7"
proof (cases "(r, n) = (Runeerror, 1)")
  case True then show ?thesis using assms by simp
next
  case False
  have t: "take n (b # s) = runetochar r" using encode_decode [OF assms(1) False] by simp
  show ?thesis
  proof (cases r rule: runetochar_shape)
    case (1 a as)
    then have "a = b" using t by (cases n) auto
    then show ?thesis using 1 t assms(2) by auto
  qed
qed

lemma frog_low: "isfrog c \<Longrightarrow> \<not> bit c 7"
proof -
  assume "isfrog c"
  then have "unat c < 128" by (auto simp: isfrog_def word_less_nat_alt)
  moreover have "unat (ucast c :: u32) = unat c"
    using unat_byte [of c] by (simp add: unsigned_ucast_eq take_bit_nat_eq_self_iff)
  ultimately have "(ucast c :: u32) < Tx" by (simp add: word_less_nat_alt Tx_def)
  then show ?thesis by (simp add: lead_ascii)
qed

definition name_ok :: "bool \<Rightarrow> byte list \<Rightarrow> bool" where
  "name_ok slashok x \<longleftrightarrow> (\<forall>c\<in>set x. \<not> (isfrog c \<and> (\<not> slashok \<or> c \<noteq> slash)))"

lemma name_ok_append: "name_ok slashok (x @ y) \<longleftrightarrow> name_ok slashok x \<and> name_ok slashok y"
  by (auto simp: name_ok_def)

lemma high_ok: "\<forall>c\<in>set x. bit c 7 \<Longrightarrow> name_ok slashok x"
  using frog_low by (auto simp: name_ok_def)

lemma valid_loop_spec: "0 \<notin> set x \<Longrightarrow> valid_loop slashok (x @ 0 # t) = Inr (name_ok slashok x)"
proof (induction "length x" arbitrary: x rule: less_induct)
  case less
  show ?case
  proof (cases x)
    case Nil then show ?thesis by (subst valid_loop.simps) (simp add: name_ok_def)
  next
    case (Cons b y)
    have b0: "b \<noteq> 0" "0 \<notin> set y" using less.prems Cons by auto
    have hi: "(ucast b :: u32) \<ge> Runeself \<longleftrightarrow> bit b 7" using below_Runeself [of b] by (simp add: not_less [symmetric])
    show ?thesis
    proof (cases "bit b 7")
      case True
      have "x \<noteq> []" using Cons by simp
      from chartorune_bound [OF this less.prems]
      obtain r n where c: "\<forall>t. chartorune (x @ 0 # t) = Inr (r, n)" "1 \<le> n" "n \<le> length x" by blast
      have ct: "chartorune (b # y @ 0 # t) = Inr (r, n)" using spec [OF c(1), of t] Cons by simp
      have l: "valid_loop slashok (x @ 0 # t) = valid_loop slashok (drop n x @ 0 # t)"
        using Cons b0 True hi ct c(3) by (subst valid_loop.simps) (simp add: drop_append [of n "b # y" "0 # t", simplified])
      have "valid_loop slashok (drop n x @ 0 # t) = Inr (name_ok slashok (drop n x))"
        by (rule less.hyps) (use c(2) Cons less.prems in \<open>auto dest: in_set_dropD\<close>)
      moreover have "take n (b # y @ 0 # t) = take n x" using c(3) Cons take_append [of n x "0 # t"] by simp
      then have "name_ok slashok (take n x)" using chartorune_high [OF ct True] high_ok by metis
      then have "name_ok slashok (drop n x) = name_ok slashok x"
        using name_ok_append [of slashok "take n x" "drop n x"] by simp
      ultimately show ?thesis using l by simp
    next
      case False
      have "valid_loop slashok (y @ 0 # t) = Inr (name_ok slashok y)" by (rule less.hyps) (use Cons b0 in auto)
      then show ?thesis using Cons b0 False hi by (subst valid_loop.simps) (auto simp: name_ok_def)
    qed
  qed
qed

lemma memchr_found: "c \<notin> set x \<Longrightarrow> length x < n \<Longrightarrow> memchr (x @ c # t) c n = Inr (Some (length x))"
proof (induction x arbitrary: n)
  case Nil then show ?case by (cases n) auto
next
  case (Cons a x) then show ?case by (cases n) auto
qed

lemma memchr_none: "c \<notin> set x \<Longrightarrow> n \<le> length x \<Longrightarrow> memchr (x @ t) c n = Inr None"
proof (induction x arbitrary: n)
  case (Cons a x) then show ?case by (cases n) auto
qed simp

lemma validname0_spec:
  assumes "0 \<notin> set x"
  shows "validname0 (x @ 0 # t) slashok dup = Inr
    (if 2 ^ 16 \<le> length x then (Some Etoolong, None)
     else if \<not> name_ok slashok x then (Some Ebadchar, None)
     else (None, if dup then Some (x @ [0]) else None))"
proof (cases "2 ^ 16 \<le> length x")
  case True
  then show ?thesis using memchr_none [OF assms, of "2 ^ 16" "0 # t"] unfolding validname0_def by (simp only: andthen_Inr option.case if_True)
next
  case False
  then have "memchr (x @ 0 # t) 0 (2 ^ 16) = Inr (Some (length x))" using memchr_found [OF assms, of "2 ^ 16" t] by linarith
  moreover have "valid_loop slashok (if dup then take (length x) (x @ 0 # t) @ [0] else x @ 0 # t) = Inr (name_ok slashok x)"
    using valid_loop_spec [OF assms] by simp
  ultimately show ?thesis using False unfolding validname0_def Let_def by (simp only: andthen_Inr option.case if_False) simp
qed

lemma kstrcpy_trunc:
  assumes "0 \<notin> set rs" "4 < ns" "ns \<le> length (enc rs)" "ns \<le> length s"
  shows "\<exists>j s1. j < length rs \<and> kstrcpy s (enc rs @ 0 # t) ns = Inr s1 \<and> cstr s1 = enc (take j rs) @ [dot, dot, dot] \<and>
    length (enc (take j rs)) + 4 \<le> ns \<and> length s1 = length s \<and> drop ns s1 = drop ns s"
proof -
  have nz: "0 \<notin> set (enc rs)" using assms(1) by (simp add: enc_nul)
  define m where "m = ns - 4"
  have m: "0 < m" "m + 4 = ns" "m < length (enc rs)" using assms by (simp_all add: m_def)
  define s2 where "s2 = take m (enc rs) @ 0 # drop (m + 1) s"
  have b: "blit (take m (enc rs @ 0 # t)) 0 s = Inr (take m (enc rs) @ drop m s)"
    using m assms(4) by (simp add: blit_def)
  have w: "wr (take m (enc rs) @ drop m s) m 0 = Inr s2"
    using m assms(4) wr_take [of m "take m (enc rs) @ drop m s" 0] by (simp add: s2_def)
  have "\<exists>j<length rs. back_up s2 m = length (enc (take j rs)) \<and> m \<le> length (enc (take (Suc j) rs))"
    by (rule back_up_enc) (use m in \<open>simp_all add: s2_def nth_append\<close>)
  then obtain j where j: "j < length rs" "back_up s2 m = length (enc (take j rs))" by blast
  let ?k = "length (enc (take j rs))"
  have k: "?k < m" using j(2) back_up_start [of s2 m] m(1) by (cases "?k = 0") auto
  have ls: "length s2 = length s" using m assms(4) by (simp add: s2_def)
  have "enc rs = enc (take j rs) @ enc (drop j rs)" by (simp flip: enc_simps(3))
  then have tk: "take ?k s2 = enc (take j rs)" using k m by (simp add: s2_def)
  let ?s = "take ?k s2 @ [dot, dot, dot, 0] @ drop (?k + 4) s2"
  have "blit [dot, dot, dot, 0] ?k s2 = Inr ?s"
    using blit_Inr [of ?k "[dot, dot, dot, 0]" s2] k m ls assms(4) by (simp add: eval_nat_numeral)
  then have "kstrcpy s (enc rs @ 0 # t) ns = Inr ?s"
    unfolding kstrcpy_def Let_def using nz assms m b w j(2) by (simp add: strlen_def m_def [symmetric])
  moreover have "cstr ?s = enc (take j rs) @ [dot, dot, dot]"
    unfolding tk using cstr_terminated [of "enc (take j rs) @ [dot, dot, dot]" "drop (?k + 4) s2"] nz
    by (auto simp: enc_nul dest: in_set_takeD)
  moreover have "length ?s = length s" using k m ls assms(4) by simp
  moreover have "drop ns ?s = drop ns s"
  proof -
    define w :: "byte list" where "w = [dot, dot, dot, 0]"
    have "length w = 4" by (simp add: w_def)
    then have "drop ns (take ?k s2 @ w @ drop (?k + 4) s2) = drop ns s2"
      using drop_write [of w ?k ns s2] k m ls assms(4) by simp
    moreover have "drop (m + 1) s2 = drop (m + 1) s" using m by (simp add: s2_def)
    then have "drop ns s2 = drop ns s" by (rule drop_shorten [rotated]) (use m in simp)
    ultimately show ?thesis by (simp add: w_def)
  qed
  ultimately show ?thesis using j(1) k m by (intro exI [of _ j] exI [of _ ?s]) simp
qed

subsection \<open>Properties\<close>

lemma cstr_split: "0 \<in> set b \<Longrightarrow> \<exists>u. b = cstr b @ 0 # u"
proof -
  assume "0 \<in> set b"
  then obtain xs ys where "b = xs @ 0 # ys" "0 \<notin> set xs" by (meson split_list_first)
  then show ?thesis by auto
qed

text \<open>The empty name has no room for the \<open>.\<close> that replaces it.\<close>

lemma cleanname_empty: "cleanname (0 # t) = Some (case t of [] \<Rightarrow> Inl Efault | c # u \<Rightarrow> Inr (dot # 0 # u))"
  by (cases t) (simp_all add: cleanname_def cn_loop.simps [of _ "0 # _"] rb_def cn_finish_def wr_def)

lemma cleanname_fits:
  assumes "0 \<notin> set x" "x \<noteq> []"
  shows "\<exists>b. cleanname (x @ 0 # t) = Some (Inr b) \<and> cstr b = clean_ref x \<and> length (clean_ref x) \<le> length x \<and>
    drop (length x + 1) b = t"
proof -
  obtain b where b: "cleanname (x @ 0 # t) = Some (Inr b)" "cstr b = clean_ref x" "0 \<in> set (take (length x + 1) b)"
      "drop (length x + 1) b = t"
    using cleanname_ok [OF assms] by blast
  have "cstr b = cstr (take (length x + 1) b)"
    using cstr_prefix [OF b(3), of "drop (length x + 1) b"] by (simp only: append_take_drop_id)
  moreover obtain u where "take (length x + 1) b = cstr (take (length x + 1) b) @ 0 # u" using cstr_split [OF b(3)] by blast
  then have "length (cstr (take (length x + 1) b)) < length (take (length x + 1) b)"
    by (metis length_append length_Cons less_add_Suc1 add_Suc_right)
  ultimately have "length (clean_ref x) \<le> length x" using b(2) by simp
  then show ?thesis using b by blast
qed

text \<open>C36: on every terminated name \<open>cleanname\<close> ends.  A non-empty name is cleaned within its own bytes: the
  bytes behind the terminator are not touched, and what is left is the name computed on whole components,
  where empty components and \<open>.\<close> are dropped, \<open>..\<close> takes back the component before it, a relative name keeps
  the \<open>..\<close> it cannot resolve, an empty result is \<open>.\<close>, and \<open>./\<close> protects a leading \<open>#\<close> that was not there
  before.  The empty name becomes \<open>.\<close> too, whose terminator is written over the byte behind the name: a fault
  where the buffer ends there.\<close>

theorem cleanname_spec:
  assumes "0 \<notin> set x"
  shows "if x = [] then cleanname (x @ 0 # t) = Some (case t of [] \<Rightarrow> Inl Efault | c # u \<Rightarrow> Inr (clean_ref x @ 0 # u))
    else \<exists>b. cleanname (x @ 0 # t) = Some (Inr b) \<and> cstr b = clean_ref x \<and> length (clean_ref x) \<le> length x \<and>
      drop (length x + 1) b = t"
proof (cases "x = []")
  case True
  have "clean_ref [] = [dot]" by code_simp
  then show ?thesis using True cleanname_empty [of t] by (simp split: list.splits)
next
  case False then show ?thesis using cleanname_fits [OF assms False] by simp
qed

theorem cleanname_spec_witness:
  "cleanname ([] @ 0 # [7]) = Some (Inr [dot, 0]) \<and>
   (\<exists>b. cleanname ([0x61, 0x2F, 0x2E, 0x2E, 0x2F, 0x23] @ 0 # [7]) = Some (Inr b) \<and>
    cstr b = [0x2E, 0x2F, 0x23] \<and> drop 7 b = [7])"
proof -
  have r: "clean_ref [0x61, 0x2F, 0x2E, 0x2E, 0x2F, 0x23] = [0x2E, 0x2F, 0x23]" "clean_ref [] = [dot]" by code_simp+
  let ?x = "[0x61, 0x2F, 0x2E, 0x2E, 0x2F, 0x23] :: byte list"
  have "0 \<notin> set ?x" "?x \<noteq> []" and n: "length ?x + 1 = 7" by simp_all
  then have "\<exists>b. cleanname (?x @ 0 # [7]) = Some (Inr b) \<and> cstr b = [0x2E, 0x2F, 0x23] \<and> drop 7 b = [7]"
    using cleanname_spec [of ?x "[7]"] unfolding r n by (simp only: if_False) blast
  then show ?thesis using cleanname_spec [of "[]" "[7]"] by (simp add: r)
qed

text \<open>C37: cleaning a clean name changes nothing.\<close>

theorem cleanname_idempotent:
  assumes "0 \<notin> set x" "x \<noteq> []"
  shows "\<exists>b b1. cleanname (x @ 0 # t) = Some (Inr b) \<and> cleanname b = Some (Inr b1) \<and> cstr b1 = cstr b"
proof -
  obtain b where b: "cleanname (x @ 0 # t) = Some (Inr b)" "cstr b = clean_ref x" "0 \<in> set b"
    using cleanname_ok [OF assms, of t] by (auto dest: in_set_takeD)
  obtain u where u: "b = clean_ref x @ 0 # u" using cstr_split [OF b(3)] b(2) by auto
  have c: "0 \<notin> set (clean_ref x)" "clean_ref x \<noteq> []" using clean_ref_chars [OF assms(1)] by simp_all
  obtain b1 where "cleanname b = Some (Inr b1)" "cstr b1 = clean_ref (clean_ref x)" using cleanname_ok [OF c, of u] u by blast
  then show ?thesis using b clean_ref_idem [OF assms(1)] by auto
qed

theorem cleanname_idempotent_witness:
  "\<exists>b b1. cleanname ([0x2E, 0x2F, 0x2E, 0x2E] @ 0 # []) = Some (Inr b) \<and> cleanname b = Some (Inr b1) \<and> cstr b1 = cstr b"
  by (rule cleanname_idempotent) simp_all

text \<open>C38: \<open>parsename\<close> yields exactly the components of the name that are neither empty nor \<open>.\<close>, in order, and
  \<open>mustbedir\<close> for the names that end in a slash or in \<open>.\<close>; the two arrays that \<open>growparse\<close> extends always
  have room for the entry that is written next.\<close>

theorem parsename_spec:
  assumes "0 \<notin> set x"
  shows "\<exists>e. parsename (x @ 0 # t) = Inr e \<and> elements e = filter (\<lambda>c. c \<noteq> [dot]) (comps x) \<and>
    el_nelems e = length (elements e) \<and> el_mustbedir e = must_be_dir x \<and> arrays_ok e"
proof -
  let ?n = "x @ [0]"
  have "skips ?n [] 0 x" by (rule skipslash_spec) (use assms in simp_all)
  then obtain p where p: "skipslash ?n 0 = Inr p" unfolding skips_def by blast
  let ?e = "\<lparr>el_name = ?n, el_nelems = 0, el_elems = [], el_off = [p], el_mustbedir = False\<rparr>"
  obtain e where e: "parse_loop ?e 0 = Inr e" "elements e = elements ?e @ nodots (comps x)" "el_mustbedir e = must_be_dir x"
      "arrays_ok e" "el_nelems e = el_nelems ?e + length (nodots (comps x))"
    using parse_loop_spec [of ?e 0 x "[]"] assms by (auto simp: arrays_ok_def)
  have "parsename (x @ 0 # t) = Inr e" using p e(1) assms by (simp add: parsename_def)
  then show ?thesis using e(2-) by (intro exI [of _ e]) (simp add: elements_def [of ?e] nodots_def)
qed

theorem parsename_spec_witness:
  "\<exists>e. parsename ([0x2F, 0x61, 0x2F, 0x2E, 0x2F, 0x62, 0x2F] @ 0 # []) = Inr e \<and>
    elements e = [[0x61], [0x62]] \<and> el_nelems e = 2 \<and> el_mustbedir e"
proof -
  have "comps [0x2F, 0x61, 0x2F, 0x2E, 0x2F, 0x62, 0x2F] = [[0x61], [0x2E], [0x62]]" by simp
  then show ?thesis using parsename_spec [of "[0x2F, 0x61, 0x2F, 0x2E, 0x2F, 0x62, 0x2F]" "[]"]
    by (auto simp: must_be_dir_def)
qed

text \<open>C39: \<open>validnamedup\<close> returns a copy of the name exactly when it is shorter than 2^16 bytes and has no control
  character, no DEL and, unless slashes are allowed, no slash; otherwise it returns nil and the
  error says which.  The scan steps over UTF sequences with \<open>chartorune\<close>, but no byte below \<open>Runeself\<close> is
  skipped with them, whatever the sequence.\<close>

theorem validnamedup_spec:
  assumes "0 \<notin> set x"
  shows "validnamedup (x @ 0 # t) slashok = Inr
    (if 2 ^ 16 \<le> length x then (Some Etoolong, None)
     else if \<exists>c\<in>set x. c < 0x20 \<or> c = 0x7F \<or> c = slash \<and> \<not> slashok then (Some Ebadchar, None)
     else (None, Some (x @ [0])))"
proof -
  have "slash \<noteq> (0x7F::byte)" "\<not> slash < (0x20::byte)" by simp_all
  then have n: "\<not> name_ok slashok x \<longleftrightarrow> (\<exists>c\<in>set x. c < 0x20 \<or> c = 0x7F \<or> c = slash \<and> \<not> slashok)"
    unfolding name_ok_def isfrog_def by metis
  show ?thesis unfolding validnamedup_def validname0_spec [OF assms] n by (simp only: if_True)
qed

theorem validnamedup_spec_witness:
  "validnamedup ([0xE3, 0x2F, 0x61] @ 0 # []) False = Inr (Some Ebadchar, None) \<and>
   validnamedup ([0xE3, 0x2F, 0x61] @ 0 # []) True = Inr (None, Some [0xE3, 0x2F, 0x61, 0])"
  using validnamedup_spec [of "[0xE3, 0x2F, 0x61]" "[]" False] validnamedup_spec [of "[0xE3, 0x2F, 0x61]" "[]" True] by simp

text \<open>\<open>validname\<close> tells nothing to its caller: it returns alike for good and for bad names.\<close>

lemma validname_silent: "0 \<notin> set x \<Longrightarrow> validname (x @ 0 # t) slashok = Inr ()"
  using validname0_spec [of x t slashok False] by (simp add: validname_def)

lemma kstrcpy_fits:
  assumes "0 \<notin> set x" "length x < ns" "ns \<le> length s"
  shows "\<exists>s1. kstrcpy s (x @ 0 # t) ns = Inr s1 \<and> length s1 = length s \<and> drop ns s1 = drop ns s \<and> cstr s1 = x"
proof -
  let ?w = "x @ [0]"
  have "kstrcpy s (x @ 0 # t) ns = Inr (take 0 s @ ?w @ drop (0 + length ?w) s)"
    unfolding kstrcpy_def Let_def using assms by (simp add: strlen_def blit_def)
  moreover have "drop ns (take 0 s @ ?w @ drop (0 + length ?w) s) = drop ns s"
    by (rule drop_write) (use assms in simp_all)
  ultimately show ?thesis using assms by (auto simp del: drop_append)
qed

lemma kstrcpy_dots:
  assumes "0 \<notin> set x" "4 \<le> length x" "4 \<le> length s"
  shows "kstrcpy s (x @ 0 # t) 4 = Inr ([dot, dot, dot, 0] @ drop 4 s)"
  using assms by (cases s) (simp_all add: kstrcpy_def strlen_def blit_def wr_def eval_nat_numeral)

lemma kstrcpy_short:
  assumes "0 \<notin> set x" "ns < 4" "ns \<le> length x" "ns \<le> length s"
  shows "kstrcpy s (x @ 0 # t) ns = Inr (take ns x @ drop ns s)"
  using assms by (simp add: kstrcpy_def strlen_def strncpy_def blit_def)

text \<open>\<open>kstrcpy\<close> writes within the \<open>ns\<close> bytes it is given.  It copies a string that fits with its terminator;
  from one that does not fit it keeps a prefix of whole runes followed by three dots, terminated within the
  \<open>ns\<close> bytes.  Where \<open>ns\<close> is below four there is no room for the dots: the first \<open>ns\<close> bytes are copied
  and no terminator is written, which the comment above the function rules out.\<close>

lemma kstrcpy_spec:
  assumes "0 \<notin> set rs" "ns \<le> length s"
  shows "\<exists>s1. kstrcpy s (enc rs @ 0 # t) ns = Inr s1 \<and> length s1 = length s \<and> drop ns s1 = drop ns s \<and>
    (if length (enc rs) < ns then cstr s1 = enc rs
     else if ns < 4 then take ns s1 = take ns (enc rs) \<and> 0 \<notin> set (take ns s1)
     else (\<exists>j<length rs. cstr s1 = enc (take j rs) @ [dot, dot, dot] \<and> length (cstr s1) < ns))"
proof -
  have nz: "0 \<notin> set (enc rs)" using assms(1) by (simp add: enc_nul)
  consider "length (enc rs) < ns" | "ns \<le> length (enc rs)" "ns < 4" | "ns \<le> length (enc rs)" "ns = 4"
    | "ns \<le> length (enc rs)" "4 < ns" by linarith
  then show ?thesis
  proof cases
    case 1 then show ?thesis using kstrcpy_fits [OF nz 1 assms(2), of t] by auto
  next
    case 2
    then show ?thesis using kstrcpy_short [OF nz 2(2,1) assms(2), of t] assms(2) nz by (auto dest: in_set_takeD)
  next
    case 3
    then have "rs \<noteq> []" by auto
    moreover have "cstr ([dot, dot, dot, 0] @ drop 4 s) = [dot, dot, dot]"
      using cstr_terminated [of "[dot, dot, dot]" "drop 4 s"] by simp
    ultimately have "\<exists>j<length rs. cstr ([dot, dot, dot, 0] @ drop 4 s) = enc (take j rs) @ [dot, dot, dot] \<and>
        length (cstr ([dot, dot, dot, 0] @ drop 4 s)) < ns"
      using 3 by (intro exI [of _ "0::nat"]) simp
    then show ?thesis using 3 kstrcpy_dots [OF nz _ , of s t] assms(2)
      by (intro exI [of _ "[dot, dot, dot, 0] @ drop 4 s"]) simp
  next
    case 4
    obtain j s1 where "j < length rs" "kstrcpy s (enc rs @ 0 # t) ns = Inr s1" "cstr s1 = enc (take j rs) @ [dot, dot, dot]"
        "length (enc (take j rs)) + 4 \<le> ns" "length s1 = length s" "drop ns s1 = drop ns s"
      using kstrcpy_trunc [OF assms(1) 4(2,1) assms(2), of t] by blast
    then show ?thesis using 4 by (intro exI [of _ s1]) auto
  qed
qed

lemma kstrcpy_spec_witness:
  "(\<exists>s1. kstrcpy (replicate 6 1) (enc [0x61, 0x62, 0x3042, 0x63] @ 0 # []) 6 = Inr s1 \<and>
     (\<exists>j<4. cstr s1 = enc (take j [0x61, 0x62, 0x3042, 0x63]) @ [dot, dot, dot] \<and> length (cstr s1) < 6)) \<and>
   (\<exists>s1. kstrcpy (replicate 3 1) (enc [0x61, 0x62, 0x63] @ 0 # []) 3 = Inr s1 \<and> length s1 = 3 \<and> 0 \<notin> set (take 3 s1))"
proof -
  have e: "length (enc [0x61, 0x62, 0x3042, 0x63]) = 6" "length (enc [0x61, 0x62, 0x63]) = 3" by code_simp+
  have n: "length [0x61, 0x62, 0x3042, (0x63::u16)] = 4" by simp
  have "\<exists>s1. kstrcpy (replicate 6 1) (enc [0x61, 0x62, 0x3042, 0x63] @ 0 # []) 6 = Inr s1 \<and>
     (\<exists>j<4. cstr s1 = enc (take j [0x61, 0x62, 0x3042, 0x63]) @ [dot, dot, dot] \<and> length (cstr s1) < 6)"
    using kstrcpy_spec [of "[0x61, 0x62, 0x3042, 0x63]" 6 "replicate 6 1" "[]"] unfolding e n by (simp del: enc_simps) blast
  moreover have "\<exists>s1. kstrcpy (replicate 3 1) (enc [0x61, 0x62, 0x63] @ 0 # []) 3 = Inr s1 \<and> length s1 = 3 \<and> 0 \<notin> set (take 3 s1)"
    using kstrcpy_spec [of "[0x61, 0x62, 0x63]" 3 "replicate 3 1" "[]"] unfolding e by (auto simp del: enc_simps)
  ultimately show ?thesis by blast
qed

end
