(* ===== verification/Spec2Isabelle.thy ===== *)
theory Spec2Isabelle
  imports ConvDir QueueIO QLocks Xmem Names
begin

text \<open>
  A verification library for LP49, the Plan 9 kernel as a server on the L4 microkernel.

  \<^bold>\<open>The program.\<close>  The kernel (\<open>src/src/9\<close>) serves files by 9P.  A request or reply is built and taken apart
  by the codec of the C library (\<open>src/src/libc/9sys\<close>): \<open>convS2M\<close> and \<open>convM2S\<close> for messages, \<open>convD2M\<close> and \<open>convM2D\<close> for the directory
  entries inside them.  The bytes travel through the I/O queues of \<open>9/port/qio.c\<close>, chains of blocks from
  \<open>9/port/allocb.c\<close>; readers and writers of a queue sleep and are woken (\<open>sleep\<close> and \<open>wakeup\<close> of \<open>9/port/proc-l4.c\<close>)
  and exclude each other by the sleeping locks of \<open>9/port/qlock.c\<close>.  Kernel memory comes from
  \<open>9/port/xalloc-l4.c\<close>.  File names in requests are UTF-8 (\<open>libc/port/rune.c\<close> and the \<open>utf\<close> functions), are checked and split by
  \<open>9/port/chan.c\<close> and cleaned by \<open>libc/port/cleanname.c\<close>.

  \<^bold>\<open>The theories.\<close>
  \<^item> \<open>Prelude\<close>: machine words, \<open>'a outcome\<close> (a value, or \<open>Epanic\<close>, \<open>Efault\<close>, \<open>Eexit\<close>), sequencing (\<open>andthen\<close>, \<open>run\<close>, \<open>loop\<close>), the
    postcondition \<open>post E P m\<close> (an error of \<open>m\<close> is in \<open>E\<close>, a value satisfies \<open>P\<close>), and \<open>runs\<close>, sequences of steps of a relation.
  \<^item> \<open>Fcall\<close> (\<open>include/fcall.h\<close>): byte order, \<open>Fcall\<close>, and the abstract messages \<open>msg\<close> with their wire format \<open>frame\<close>.
    \<open>ConvS2M\<close>: \<open>sizeS2M\<close>, \<open>convS2M\<close>, case by case as the \<open>switch\<close> has them (\<open>s2m_T\<close>, \<open>s2m_R\<close>).  \<open>ConvM2S\<close>: \<open>convM2S\<close> (\<open>m2s_T\<close>, \<open>m2s_R\<close>,
    \<open>gstring\<close>, \<open>gqid\<close>) on a buffer at an address, rewritten in place.  Shown: the encoder writes \<open>frame\<close>, the decoder
    inverts it and stays inside its buffer whatever the bytes, and where counts beyond the limits break both.
  \<^item> \<open>ConvDir\<close>: \<open>sizeD2M\<close>, \<open>convD2M\<close>, \<open>statcheck\<close>, \<open>convM2D\<close>.  Shown: the wire format, the round trip, that \<open>statcheck\<close> accepts exactly the
    well-formed entries, and that \<open>convM2D\<close> is safe after it.
  \<^item> \<open>Blocks\<close> (\<open>allocb.c\<close>, first part of \<open>qio.c\<close>): \<open>block\<close>, \<open>allocb\<close>, \<open>freeb\<close>, \<open>padblock\<close>, \<open>concatblock\<close>, \<open>pullupblock\<close>, \<open>trimblock\<close>,
    \<open>copyblock\<close>, \<open>adjustblock\<close>, \<open>pullblock\<close>, \<open>packblock\<close>.  Shown: what each does to the bytes, and (locale \<open>chain_op\<close>, interpreted
    for every operation and for sequences of them) that blocks are neither freed twice nor, one branch of \<open>adjustblock\<close> apart, lost.
  \<^item> \<open>Queues\<close> (\<open>qio.c\<close>): \<open>queue\<close> and every operation on it.  \<open>QueueIO\<close>: the operations as a system of steps \<open>qio\<close>, which
    implements a byte stream (locale \<open>fifo_machine\<close>), and with \<open>sleep\<close> and \<open>wakeup\<close> as the system \<open>rio\<close>.  Shown: the contracts of
    reading, writing and copying on every branch; that the stream keeps its bytes and their order; that a parked reader is
    woken; and the wakeups and writes the code loses.
  \<^item> \<open>QLocks\<close> (\<open>qlock.c\<close>): \<open>QLock\<close>, \<open>RWlock\<close> and their functions over a memory of \<open>Threadque\<close> nodes.  Shown: \<open>qlock\<close> implements
    a fair lock (locale \<open>fair_lock\<close>), \<open>RWlock\<close> excludes readers and writers, and how \<open>wlock\<close> loses waiting threads.
  \<^item> \<open>Xmem\<close> (\<open>xalloc-l4.c\<close>): \<open>Hole\<close>, \<open>Xalloc\<close>, \<open>xinit\<close>, \<open>xallocz\<close>, \<open>xfree\<close>, \<open>xhole\<close>, \<open>xmerge\<close>, \<open>xspanalloc\<close>, \<open>xsummary\<close>.  Shown: chunks never
    overlap (locale \<open>chunk_heap\<close>), allocation is exact on the set of free addresses, and two flaws.
  \<^item> \<open>Runes\<close>: \<open>chartorune\<close>, \<open>runetochar\<close> and the string functions on them.  Shown: the round trips (locale \<open>prefix_code\<close>), and what counting, searching
    and copying do on encoded and on arbitrary strings.
  \<^item> \<open>Names\<close>: \<open>cleanname\<close> against the reference \<open>clean_ref\<close>, \<open>parsename\<close>, \<open>validname0\<close> and its callers, \<open>kstrcpy\<close>.

  \<^bold>\<open>State and steps.\<close>  A struct is a record with a field per member; a chain linked by pointers is a list where the code owns it
  whole (blocks, holes), and a memory of nodes where the theorems are about the pointers (\<open>Threadque\<close>).  Code between
  \<open>ilock\<close> and \<open>iunlock\<close>, or \<open>lock\<close> and \<open>unlock\<close>, is one step.  What the code does outside its lock is a step of its own: the copying in \<open>qread\<close>, the
  clearing in \<open>xallocz\<close>, the test in \<open>sleep\<close>, the calls of \<open>wakeup\<close>.  A thread that waits for a message stays where it
  is until the step that sends it.

  \<^bold>\<open>Bounds.\<close>  Nothing runs on fuel: every loop is a terminating recursion, except that of \<open>cleanname\<close>, a \<open>partial_function\<close> that
  is proved to return.  Sizes, counts and addresses are words of their width where they are summed and may wrap (the codec,
  \<open>trimblock\<close>, \<open>xallocz\<close>, the decoder's pointers); \<open>len\<close>, \<open>dlen\<close> and \<open>limit\<close> of a queue and the lengths of blocks are unbounded,
  that is, below \<open>2^31\<close>, since they are sizes of memory; offsets in \<open>ConvDir\<close> assume a buffer that ends \<open>2^17\<close> bytes below the top
  of the address space, as the theorem on \<open>convM2S\<close> states for its buffer.

  \<^bold>\<open>Parameters.\<close>  \<open>al\<close>, the allocator \<open>mallocz\<close> (\<open>al_ok\<close>: it returns nil or memory of the size asked for); \<open>mem\<close>, whether \<open>malloc\<close> of a queue
  node succeeds; \<open>mapped\<close>, whether the pager maps the pool.  The instance \<open>bump\<close> of the allocator serves the examples.

  \<^bold>\<open>Not modelled.\<close>  L4 itself, and with it threads, interrupts, paging and system calls; failures of L4 sends and the checks of thread
  numbers in \<open>wakeup\<close>; the channels, mount table and device table of \<open>chan.c\<close>; devices and protocols, which
  are hardware I/O or clients of the parts above; \<open>alloc.c\<close>; user libraries and commands.  In the modelled files: statistics,
  debugging output, checksum flags, and the functions passed as \<open>kick\<close> and \<open>bypass\<close>, whose calls are recorded as events.
\<close>

end
